(* ===== verification/Prelude.thy ===== *)
theory Prelude
  imports Main "HOL-Library.Word" "HOL-Library.Monad_Syntax"
begin

text \<open>
  Shared vocabulary of the development: the C integer types of the kernel, the macros of
  \<^verbatim>\<open>kernel/include/utils/macros.h\<close>, the error numbers of \<^verbatim>\<open>kernel/include/errno.h\<close> and the
  facts about bitmaps, words, lists and options that every component uses.

  An operation that can stop the machine (a call of \<^verbatim>\<open>kpanic\<close>, which does not return, or a
  dereference the code never survives) has a result of type \<open>'a option\<close>: \<open>None\<close> says that the
  call does not return. An error the code returns to its caller is an ordinary value, a
  negative error number or a null result, as in the source.
\<close>

unbundle bit_operations_syntax

type_synonym u8 = "8 word"
type_synonym u16 = "16 word"
type_synonym u32 = "32 word"
type_synonym u64 = "64 word"

named_theorems kernel_defs \<open>definitions a component unfolds in its own proofs\<close>
named_theorems bitmap_simps \<open>reading a bitmap after an update\<close>
named_theorems word_bounds \<open>bounds and conversions of machine words\<close>

section \<open>Macros\<close>

definition PAGE_SIZE :: u64 where
  "PAGE_SIZE = 0x1000"

definition BIGPAGE_SIZE :: u64 where
  "BIGPAGE_SIZE = 0x200000"

text \<open>\<^verbatim>\<open>DIV_CEIL\<close>, \<^verbatim>\<open>ALIGN_UP\<close>, \<^verbatim>\<open>ALIGN_DOWN\<close> on 64-bit operands: the additions and products
  wrap around as they do in C.\<close>

definition DIV_CEIL :: "u64 \<Rightarrow> u64 \<Rightarrow> u64" where
  "DIV_CEIL v d = (v + (d - 1)) div d"

definition ALIGN_UP :: "u64 \<Rightarrow> u64 \<Rightarrow> u64" where
  "ALIGN_UP v a = DIV_CEIL v a * a"

definition ALIGN_DOWN :: "u64 \<Rightarrow> u64 \<Rightarrow> u64" where
  "ALIGN_DOWN v a = (v div a) * a"

definition IS_ALIGNED :: "u64 \<Rightarrow> u64 \<Rightarrow> bool" where
  "IS_ALIGNED v a \<longleftrightarrow> v AND (a - 1) = 0"

text \<open>
  A bitmap is the array of bytes that starts at the bitmap pointer. The macros index it
  without a bound, so the array is a total function: a read past the end of the region the
  owner set up reads whatever byte lies there.
\<close>

type_synonym bitmap = "nat \<Rightarrow> u8"

definition BITMAP_SET :: "bitmap \<Rightarrow> nat \<Rightarrow> bitmap" where
  "BITMAP_SET a b = a(b div 8 := a (b div 8) OR push_bit (b mod 8) 1)"

definition BITMAP_CLEAR :: "bitmap \<Rightarrow> nat \<Rightarrow> bitmap" where
  "BITMAP_CLEAR a b = a(b div 8 := a (b div 8) AND NOT (push_bit (b mod 8) 1))"

definition BITMAP_TEST :: "bitmap \<Rightarrow> nat \<Rightarrow> bool" where
  "BITMAP_TEST a b \<longleftrightarrow> a (b div 8) AND push_bit (b mod 8) 1 \<noteq> 0"

section \<open>Error numbers\<close>

definition EAGAIN :: int where "EAGAIN = 1"
definition EBADF :: int where "EBADF = 2"
definition ECHILD :: int where "ECHILD = 3"
definition EEXIST :: int where "EEXIST = 4"
definition EFAULT :: int where "EFAULT = 5"
definition EIO :: int where "EIO = 6"
definition EINVAL :: int where "EINVAL = 7"
definition EISDIR :: int where "EISDIR = 8"
definition EMFILE :: int where "EMFILE = 9"
definition ENAMETOOLONG :: int where "ENAMETOOLONG = 10"
definition ENOENT :: int where "ENOENT = 11"
definition ENOEXEC :: int where "ENOEXEC = 12"
definition ENOMEM :: int where "ENOMEM = 13"
definition ENOSPC :: int where "ENOSPC = 14"
definition ENOSYS :: int where "ENOSYS = 15"
definition ENOTDIR :: int where "ENOTDIR = 16"
definition ENOTTY :: int where "ENOTTY = 17"
definition EPERM :: int where "EPERM = 18"
definition ESPIPE :: int where "ESPIPE = 19"

lemmas errno_defs = EAGAIN_def EBADF_def ECHILD_def EEXIST_def EFAULT_def EIO_def EINVAL_def
  EISDIR_def EMFILE_def ENAMETOOLONG_def ENOENT_def ENOEXEC_def ENOMEM_def ENOSPC_def
  ENOSYS_def ENOTDIR_def ENOTTY_def EPERM_def ESPIPE_def

section \<open>Bitmaps\<close>

lemma bit_one_shifted: "bit ((2 :: 'a :: len word) ^ k) n \<longleftrightarrow> k = n \<and> n < LENGTH('a)"
  by (auto simp: bit_simps)

lemma BITMAP_TEST_bit: "BITMAP_TEST a b \<longleftrightarrow> bit (a (b div 8)) (b mod 8)"
  by (simp add: BITMAP_TEST_def and_exp_eq_0_iff_not_bit)

lemma same_bit_position: "(b :: nat) div 8 = c div 8 \<Longrightarrow> b mod 8 = c mod 8 \<Longrightarrow> b = c"
  by (metis div_mod_decomp)

lemma BITMAP_TEST_SET [bitmap_simps]:
  "BITMAP_TEST (BITMAP_SET a b) c \<longleftrightarrow> c = b \<or> BITMAP_TEST a c"
  using same_bit_position [of b c]
  by (auto simp: BITMAP_TEST_bit BITMAP_SET_def bit_or_iff bit_one_shifted)

lemma BITMAP_TEST_CLEAR [bitmap_simps]:
  "BITMAP_TEST (BITMAP_CLEAR a b) c \<longleftrightarrow> c \<noteq> b \<and> BITMAP_TEST a c"
  using same_bit_position [of b c]
  by (auto simp: BITMAP_TEST_bit BITMAP_CLEAR_def bit_and_iff bit_not_iff bit_one_shifted)

lemma BITMAP_TEST_fold_SET [bitmap_simps]:
  "BITMAP_TEST (fold (\<lambda>i a. BITMAP_SET a i) xs a) c \<longleftrightarrow> c \<in> set xs \<or> BITMAP_TEST a c"
  by (induction xs arbitrary: a) (auto simp: BITMAP_TEST_SET)

lemma BITMAP_TEST_fold_CLEAR [bitmap_simps]:
  "BITMAP_TEST (fold (\<lambda>i a. BITMAP_CLEAR a i) xs a) c \<longleftrightarrow> c \<notin> set xs \<and> BITMAP_TEST a c"
  by (induction xs arbitrary: a) (auto simp: BITMAP_TEST_CLEAR)

section \<open>Lists\<close>

lemma find_SomeD: "find P xs = Some x \<Longrightarrow> x \<in> set xs \<and> P x"
  by (induction xs) (auto split: if_splits)

lemma find_append: "find P (xs @ ys) = (case find P xs of None \<Rightarrow> find P ys | Some x \<Rightarrow> Some x)"
  by (induction xs) auto

section \<open>Words\<close>

lemma unat_PAGE_SIZE [simp]: "unat PAGE_SIZE = 4096"
  by (simp add: PAGE_SIZE_def)

lemma unat_u64_max: "unat (-1 :: u64) = 2 ^ 64 - 1"
  by (simp add: unsigned_minus_1_eq_mask mask_eq_exp_minus_1)

lemma unat_of_nat_u64: "n < 2 ^ 64 \<Longrightarrow> unat (of_nat n :: u64) = n"
  by (simp add: unat_of_nat)

lemma unat_add_one: "unat (w :: u64) < 2 ^ 64 - 1 \<Longrightarrow> unat (w + 1) = unat w + 1"
  by (simp add: unat_word_ariths)

lemma eq_capacity_minus_one:
  "0 < unat (c :: u64) \<Longrightarrow> w = c - 1 \<longleftrightarrow> unat w = unat c - 1"
  by (metis unat_eq_zero unat_minus_one neq0_conv word_unat_eq_iff)

lemma not_minus_one: "unat (w :: u64) < 2 ^ 64 - 1 \<Longrightarrow> w \<noteq> -1"
  using unat_u64_max by auto

lemma unat_DIV_CEIL [word_bounds]:
  assumes "unat v + unat d \<le> 2 ^ 64" "d \<noteq> 0"
  shows "unat (DIV_CEIL v d) = (unat v + unat d - 1) div unat d"
proof -
  have d: "0 < unat d" using assms(2) by (simp add: unat_gt_0)
  have "unat (d - 1) = unat d - 1"
    using assms(2) by (simp add: unat_minus_one)
  moreover have "unat (v + (d - 1)) = unat v + unat (d - 1)"
    using assms(1) d calculation by (subst unat_add_lem [THEN iffD1]) auto
  ultimately show ?thesis
    using d by (simp add: DIV_CEIL_def unat_div)
qed

lemma unat_lt_64: "unat (x :: u64) < 2 ^ 64"
  using unsigned_less [of x] by simp

section \<open>Signed integers\<close>

text \<open>Values of a C \<^verbatim>\<open>int\<close>, where the model computes with mathematical integers, and the conversion to it that
  drops the high bits.\<close>

definition fits_int :: "int \<Rightarrow> bool" where
  "fits_int x \<longleftrightarrow> - 2147483648 \<le> x \<and> x \<le> 2147483647"

definition to_int :: "int \<Rightarrow> int" where
  "to_int x = (x + 2147483648) mod 4294967296 - 2147483648"

lemma to_int_fits: "fits_int x \<Longrightarrow> to_int x = x"
  by (simp add: fits_int_def to_int_def)

end
