(* ===== verification/Spinlock.thy ===== *)
theory Spinlock
  imports Prelude
begin

text \<open>
  Spinlocks: \<^verbatim>\<open>kernel/src/utils/spinlock.c\<close> and \<^verbatim>\<open>kernel/include/utils/spinlock.h\<close>. A lock is
  a 64-bit word, 0 when free. \<open>spinlock_acquire_from\<close> is the loop of
  \<^verbatim>\<open>spinlock_acquire\<close>: other CPUs may change the word between two attempts, so the value seen
  at each attempt is an argument. \<open>spinlock_acquire\<close> is that loop for a word nobody else
  touches, the form every component below uses for the locks of its own objects. The
  interleaving of several CPUs on one lock is the step relation \<open>lock_step\<close>.
\<close>

definition spinlock_test_and_acquire :: "u64 \<Rightarrow> bool \<times> u64" where
  "spinlock_test_and_acquire lock = (if lock = 0 then (True, 1) else (False, lock))"

definition SPIN_LIMIT :: nat where
  "SPIN_LIMIT = 100000000"

function spinlock_acquire_from :: "(nat \<Rightarrow> u64) \<Rightarrow> nat \<Rightarrow> u64 option" where
  "spinlock_acquire_from seen counter =
     (case spinlock_test_and_acquire (seen counter) of
        (True, lock') \<Rightarrow> Some lock'
      | (False, _) \<Rightarrow>
          if SPIN_LIMIT \<le> Suc counter then None
          else spinlock_acquire_from seen (Suc counter))"
  by pat_completeness auto
termination
  by (relation "measure (\<lambda>(seen, counter). SPIN_LIMIT - counter)") auto

declare spinlock_acquire_from.simps [simp del]

definition spinlock_acquire :: "u64 \<Rightarrow> u64 option" where
  "spinlock_acquire lock = spinlock_acquire_from (\<lambda>_. lock) 0"

definition spinlock_release :: "u64 \<Rightarrow> u64" where
  "spinlock_release lock = 0"

section \<open>The acquire loop\<close>

lemma spinlock_acquire_from_iff:
  assumes "counter < SPIN_LIMIT"
  shows "spinlock_acquire_from seen counter =
    (if \<exists>n. counter \<le> n \<and> n < SPIN_LIMIT \<and> seen n = 0 then Some 1 else None)"
  using assms
proof (induction seen counter rule: spinlock_acquire_from.induct)
  case (1 seen counter)
  show ?case
  proof (cases "seen counter = 0")
    case True
    with "1.prems" show ?thesis
      by (auto simp: spinlock_acquire_from.simps [of seen counter] spinlock_test_and_acquire_def)
  next
    case False
    have step: "(counter \<le> n \<and> n < SPIN_LIMIT \<and> seen n = 0) =
        (Suc counter \<le> n \<and> n < SPIN_LIMIT \<and> seen n = 0)" for n
      using False by (cases "n = counter") auto
    show ?thesis
    proof (cases "SPIN_LIMIT \<le> Suc counter")
      case True
      with False show ?thesis
        by (auto simp: spinlock_acquire_from.simps [of seen counter]
            spinlock_test_and_acquire_def step)
    next
      case more: False
      have "spinlock_acquire_from seen (Suc counter) =
          (if \<exists>n. Suc counter \<le> n \<and> n < SPIN_LIMIT \<and> seen n = 0 then Some 1 else None)"
        using False more
        by (intro "1.IH") (auto simp: spinlock_test_and_acquire_def)
      with False more show ?thesis
        by (simp add: spinlock_acquire_from.simps [of seen counter]
            spinlock_test_and_acquire_def step)
    qed
  qed
qed

lemma spinlock_acquire_free [simp]: "spinlock_acquire 0 = Some 1"
  by (simp add: spinlock_acquire_def spinlock_acquire_from.simps spinlock_test_and_acquire_def)

lemma spinlock_acquire_held [simp]: "lock \<noteq> 0 \<Longrightarrow> spinlock_acquire lock = None"
  by (simp add: spinlock_acquire_def spinlock_acquire_from_iff SPIN_LIMIT_def)

lemma spinlock_acquire_code [code]:
  "spinlock_acquire lock = (if lock = 0 then Some 1 else None)"
  by simp

lemma spinlock_acquire_SomeD: "spinlock_acquire lock = Some lock' \<Longrightarrow> lock = 0 \<and> lock' = 1"
  by (cases "lock = 0") auto

lemma spinlock_release_free [simp]: "spinlock_release lock = 0"
  by (simp add: spinlock_release_def)

section \<open>Several CPUs on one lock\<close>

datatype cpu_pc = Outside | Spinning nat | Inside | Panicked

record lock_state =
  lock_word :: u64
  cpu_at :: "nat \<Rightarrow> cpu_pc"

definition lock_init :: lock_state where
  "lock_init = \<lparr>lock_word = 0, cpu_at = (\<lambda>_. Outside)\<rparr>"

inductive lock_step :: "lock_state \<Rightarrow> lock_state \<Rightarrow> bool" where
  enter: "cpu_at s i = Outside \<Longrightarrow>
    lock_step s (s\<lparr>cpu_at := (cpu_at s)(i := Spinning 0)\<rparr>)"
| acquire: "cpu_at s i = Spinning n \<Longrightarrow>
    spinlock_test_and_acquire (lock_word s) = (True, w) \<Longrightarrow>
    lock_step s (s\<lparr>lock_word := w, cpu_at := (cpu_at s)(i := Inside)\<rparr>)"
| spin: "cpu_at s i = Spinning n \<Longrightarrow>
    spinlock_test_and_acquire (lock_word s) = (False, w) \<Longrightarrow> Suc n < SPIN_LIMIT \<Longrightarrow>
    lock_step s (s\<lparr>cpu_at := (cpu_at s)(i := Spinning (Suc n))\<rparr>)"
| deadlock: "cpu_at s i = Spinning n \<Longrightarrow>
    spinlock_test_and_acquire (lock_word s) = (False, w) \<Longrightarrow> SPIN_LIMIT \<le> Suc n \<Longrightarrow>
    lock_step s (s\<lparr>cpu_at := (cpu_at s)(i := Panicked)\<rparr>)"
| release: "cpu_at s i = Inside \<Longrightarrow>
    lock_step s (s\<lparr>lock_word := spinlock_release (lock_word s),
                   cpu_at := (cpu_at s)(i := Outside)\<rparr>)"

inductive lock_reachable :: "lock_state \<Rightarrow> bool" where
  start: "lock_reachable lock_init"
| step: "lock_reachable s \<Longrightarrow> lock_step s t \<Longrightarrow> lock_reachable t"

definition lock_inv :: "lock_state \<Rightarrow> bool" where
  "lock_inv s \<longleftrightarrow>
     (lock_word s = 0 \<longrightarrow> (\<forall>i. cpu_at s i \<noteq> Inside)) \<and>
     (lock_word s \<noteq> 0 \<longrightarrow> (\<exists>i. cpu_at s i = Inside)) \<and>
     (\<forall>i j. cpu_at s i = Inside \<longrightarrow> cpu_at s j = Inside \<longrightarrow> i = j)"

lemma lock_init_inv: "lock_inv lock_init"
  by (simp add: lock_inv_def lock_init_def)

lemma lock_inv_not_inside:
  assumes "lock_inv s" "cpu_at s i \<noteq> Inside" "pc \<noteq> Inside"
  shows "lock_inv (s\<lparr>cpu_at := (cpu_at s)(i := pc)\<rparr>)"
proof -
  have "((cpu_at s)(i := pc)) j = Inside \<longleftrightarrow> cpu_at s j = Inside" for j
    using assms(2,3) by simp
  with assms(1) show ?thesis by (simp add: lock_inv_def)
qed

lemma lock_step_inv: "lock_step s t \<Longrightarrow> lock_inv s \<Longrightarrow> lock_inv t"
proof (induction rule: lock_step.induct)
  case (acquire s i n w)
  then have "lock_word s = 0" "w = 1"
    by (auto simp: spinlock_test_and_acquire_def split: if_splits)
  with acquire.prems show ?case by (simp add: lock_inv_def)
next
  case (release s i)
  then have "j = i" if "cpu_at s j = Inside" for j
    using that by (auto simp: lock_inv_def)
  then show ?case by (auto simp: lock_inv_def)
qed (simp_all add: lock_inv_not_inside)

lemma lock_reachable_inv: "lock_reachable s \<Longrightarrow> lock_inv s"
  by (induction rule: lock_reachable.induct) (auto intro: lock_init_inv lock_step_inv)

text \<open>C1: in every state the CPUs can reach by interleaving \<^verbatim>\<open>spinlock_acquire\<close> and
  \<^verbatim>\<open>spinlock_release\<close> on one lock, at most one CPU is between its acquire and its release,
  and the lock word is non-zero exactly while one is.\<close>

theorem spinlock_mutual_exclusion:
  assumes "lock_reachable s"
  shows "(\<forall>i j. cpu_at s i = Inside \<longrightarrow> cpu_at s j = Inside \<longrightarrow> i = j) \<and>
    (lock_word s \<noteq> 0 \<longleftrightarrow> (\<exists>i. cpu_at s i = Inside))"
  using lock_reachable_inv [OF assms] by (auto simp: lock_inv_def)

definition lock_example :: lock_state where
  "lock_example = \<lparr>lock_word = 1, cpu_at = (\<lambda>_. Outside)(0 := Inside, 1 := Spinning 1)\<rparr>"

lemma lock_example_reachable: "lock_reachable lock_example"
proof -
  let ?a = "lock_init\<lparr>cpu_at := (cpu_at lock_init)(0 := Spinning 0)\<rparr>"
  let ?b = "?a\<lparr>lock_word := 1, cpu_at := (cpu_at ?a)(0 := Inside)\<rparr>"
  let ?c = "?b\<lparr>cpu_at := (cpu_at ?b)(1 := Spinning 0)\<rparr>"
  let ?d = "?c\<lparr>cpu_at := (cpu_at ?c)(1 := Spinning (Suc 0))\<rparr>"
  have "lock_reachable ?a"
    by (rule lock_reachable.step [OF lock_reachable.start], rule lock_step.enter)
      (simp add: lock_init_def)
  then have "lock_reachable ?b"
    by (rule lock_reachable.step, intro lock_step.acquire [where n = 0])
      (simp_all add: lock_init_def spinlock_test_and_acquire_def)
  then have "lock_reachable ?c"
    by (rule lock_reachable.step, intro lock_step.enter) (simp add: lock_init_def)
  then have "lock_reachable ?d"
    by (rule lock_reachable.step, intro lock_step.spin [where w = 1])
      (simp_all add: lock_init_def spinlock_test_and_acquire_def SPIN_LIMIT_def)
  moreover have "?d = lock_example"
    by (simp add: lock_example_def lock_init_def)
  ultimately show ?thesis by simp
qed

theorem spinlock_mutual_exclusion_witness:
  "lock_reachable lock_example \<and> lock_word lock_example \<noteq> 0 \<and> cpu_at lock_example 0 = Inside \<and>
   cpu_at lock_example 1 \<noteq> Inside"
proof -
  have "cpu_at lock_example 0 = Inside" by (simp add: lock_example_def)
  then show ?thesis
    using lock_example_reachable spinlock_mutual_exclusion [OF lock_example_reachable]
    by (auto dest: spec [of _ 0])
qed

text \<open>C2: \<^verbatim>\<open>spinlock_acquire\<close> returns, with the lock taken, exactly if one of its first
  100000000 attempts sees the lock free; otherwise the kernel panics. So the loop ends under
  every behaviour of the other CPUs.\<close>

theorem spinlock_acquire_bounded:
  "spinlock_acquire_from seen 0 = (if \<exists>n < 100000000. seen n = 0 then Some 1 else None)"
  using spinlock_acquire_from_iff [of 0 seen] by (simp add: SPIN_LIMIT_def)

end
