(* ===== verification/Ringbuf.thy ===== *)
theory Ringbuf
  imports Spinlock
begin

text \<open>
  Ring buffers: \<^verbatim>\<open>kernel/src/utils/ringbuf.c\<close>, the queue between the keyboard interrupt and the
  terminal. The record has the fields of \<^verbatim>\<open>ringbuf_t\<close>; the byte array \<^verbatim>\<open>data\<close>, which the code
  only accesses in steps of \<^verbatim>\<open>elem_size\<close>, is the list of its elements. An access outside the
  array is \<open>None\<close>. Index fields are 64-bit words, \<open>-1\<close> in both while the buffer is empty.

  The second half shows that the buffer implements a bounded queue: \<open>ringbuf_list\<close> maps it to the
  list of its elements, and the locale \<open>bounded_fifo\<close> is the interface its clients rely on.
\<close>

record 'a ringbuf =
  r_elem_size :: u64
  r_size :: u64
  r_capacity :: u64
  r_read_ptr :: u64
  r_write_ptr :: u64
  r_data :: "'a list"
  r_lock :: u64

definition elem_read :: "'a list \<Rightarrow> u64 \<Rightarrow> 'a option" where
  "elem_read xs i = (if unat i < length xs then Some (xs ! unat i) else None)"

definition elem_write :: "'a list \<Rightarrow> u64 \<Rightarrow> 'a \<Rightarrow> 'a list option" where
  "elem_write xs i x = (if unat i < length xs then Some (xs[unat i := x]) else None)"

text \<open>
  \<^verbatim>\<open>ringbuf_create\<close>: the two arguments after the sizes are the results of the two calls of
  \<^verbatim>\<open>kmalloc\<close>, the object (whose memory the slab allocator has cleared, so its lock is free) and
  the element array with whatever it contains. The result is \<open>None\<close> for the null pointer.
\<close>

definition ringbuf_create :: "u64 \<Rightarrow> u64 \<Rightarrow> bool \<Rightarrow> 'a list option \<Rightarrow> 'a ringbuf option" where
  "ringbuf_create capacity elem_size have_object array =
     (if \<not> have_object then None
      else case array of
        None \<Rightarrow> None
      | Some xs \<Rightarrow> Some \<lparr>r_elem_size = elem_size, r_size = 0, r_capacity = capacity,
                         r_read_ptr = -1, r_write_ptr = -1, r_data = xs, r_lock = 0\<rparr>)"

definition ringbuf_push :: "'a ringbuf \<Rightarrow> 'a \<Rightarrow> (bool \<times> 'a ringbuf) option" where
  "ringbuf_push r x =
     (if (r_read_ptr r = 0 \<and> r_write_ptr r = r_capacity r - 1) \<or> r_read_ptr r = r_write_ptr r + 1
      then Some (False, r)
      else do {
        l \<leftarrow> spinlock_acquire (r_lock r);
        let w = (if r_read_ptr r = -1 then 0
                 else if r_write_ptr r = r_capacity r - 1 then 0
                 else r_write_ptr r + 1);
        let rd = (if r_read_ptr r = -1 then 0 else r_read_ptr r);
        d \<leftarrow> elem_write (r_data r) w x;
        Some (True, r\<lparr>r_read_ptr := rd, r_write_ptr := w, r_data := d, r_size := r_size r + 1,
                      r_lock := spinlock_release l\<rparr>)
      })"

definition ringbuf_pop :: "'a ringbuf \<Rightarrow> ('a option \<times> 'a ringbuf) option" where
  "ringbuf_pop r =
     (if r_read_ptr r = -1 then Some (None, r)
      else do {
        l \<leftarrow> spinlock_acquire (r_lock r);
        x \<leftarrow> elem_read (r_data r) (r_read_ptr r);
        let r = r\<lparr>r_size := r_size r - 1\<rparr>;
        let r = (if r_read_ptr r = r_write_ptr r then r\<lparr>r_read_ptr := -1, r_write_ptr := -1\<rparr>
                 else if r_read_ptr r = r_capacity r - 1 then r\<lparr>r_read_ptr := 0\<rparr>
                 else r\<lparr>r_read_ptr := r_read_ptr r + 1\<rparr>);
        Some (Some x, r\<lparr>r_lock := spinlock_release l\<rparr>)
      })"

definition ringbuf_pop_tail :: "'a ringbuf \<Rightarrow> ('a option \<times> 'a ringbuf) option" where
  "ringbuf_pop_tail r =
     (if r_read_ptr r = r_write_ptr r then Some (None, r)
      else do {
        l \<leftarrow> spinlock_acquire (r_lock r);
        let w = (if r_write_ptr r = 0 then r_capacity r - 1 else r_write_ptr r - 1);
        x \<leftarrow> elem_read (r_data r) w;
        Some (Some x, r\<lparr>r_write_ptr := w, r_size := r_size r - 1,
                        r_lock := spinlock_release l\<rparr>)
      })"

definition ringbuf_peek :: "'a ringbuf \<Rightarrow> 'a option option" where
  "ringbuf_peek r =
     (if r_read_ptr r = -1 then Some None
      else do {
        _ \<leftarrow> spinlock_acquire (r_lock r);
        x \<leftarrow> elem_read (r_data r) (r_read_ptr r);
        Some (Some x)
      })"

text \<open>
  The loop with which readers take up to \<open>n\<close> elements
  (\<^verbatim>\<open>for (ret = 0; ret < count; ret++) if (!ringbuf_pop(..)) break;\<close> in \<^verbatim>\<open>tty.c\<close>), over any pop.
\<close>

fun drain :: "('q \<Rightarrow> ('a option \<times> 'q) option) \<Rightarrow> nat \<Rightarrow> 'q \<Rightarrow> ('a list \<times> 'q) option" where
  "drain pop 0 q = Some ([], q)"
| "drain pop (Suc n) q =
     (case pop q of
        None \<Rightarrow> None
      | Some (None, q') \<Rightarrow> Some ([], q')
      | Some (Some x, q') \<Rightarrow>
          (case drain pop n q' of None \<Rightarrow> None | Some (xs, q'') \<Rightarrow> Some (x # xs, q'')))"

text \<open>A producer that pushes a list of elements and ignores the result, as the keyboard
  interrupt handler does.\<close>

fun feed :: "('q \<Rightarrow> 'a \<Rightarrow> (bool \<times> 'q) option) \<Rightarrow> 'a list \<Rightarrow> 'q \<Rightarrow> 'q option" where
  "feed push [] q = Some q"
| "feed push (x # xs) q = (case push q x of None \<Rightarrow> None | Some (_, q') \<Rightarrow> feed push xs q')"

section \<open>Well-formed buffers and the list they hold\<close>

definition ring_count :: "nat \<Rightarrow> nat \<Rightarrow> nat \<Rightarrow> nat" where
  "ring_count c rd w = (if rd \<le> w then w - rd + 1 else c - rd + w + 1)"

definition ring_index :: "nat \<Rightarrow> nat \<Rightarrow> nat \<Rightarrow> nat" where
  "ring_index c rd i = (if rd + i < c then rd + i else rd + i - c)"

definition ringbuf_wf :: "'a ringbuf \<Rightarrow> bool" where
  "ringbuf_wf r \<longleftrightarrow>
     0 < unat (r_capacity r) \<and> unat (r_capacity r) < 2 ^ 64 - 1 \<and>
     length (r_data r) = unat (r_capacity r) \<and> r_lock r = 0 \<and>
     (if r_read_ptr r = -1 then r_write_ptr r = -1 \<and> r_size r = 0
      else unat (r_read_ptr r) < unat (r_capacity r) \<and>
           unat (r_write_ptr r) < unat (r_capacity r) \<and>
           unat (r_size r) =
             ring_count (unat (r_capacity r)) (unat (r_read_ptr r)) (unat (r_write_ptr r)))"

definition ringbuf_list :: "'a ringbuf \<Rightarrow> 'a list" where
  "ringbuf_list r =
     map (\<lambda>i. r_data r ! ring_index (unat (r_capacity r)) (unat (r_read_ptr r)) i)
       [0..<unat (r_size r)]"

lemma length_ringbuf_list [simp]: "length (ringbuf_list r) = unat (r_size r)"
  by (simp add: ringbuf_list_def)

lemma ringbuf_wf_empty: "ringbuf_wf r \<Longrightarrow> r_read_ptr r = -1 \<longleftrightarrow> ringbuf_list r = []"
  by (auto simp: ringbuf_wf_def ringbuf_list_def ring_count_def split: if_splits)

lemma ringbuf_wf_full:
  assumes "ringbuf_wf r"
  shows "((r_read_ptr r = 0 \<and> r_write_ptr r = r_capacity r - 1) \<or> r_read_ptr r = r_write_ptr r + 1)
    \<longleftrightarrow> length (ringbuf_list r) = unat (r_capacity r)"
proof (cases "r_read_ptr r = -1")
  case True
  with assms show ?thesis by (auto simp: ringbuf_wf_def)
next
  case False
  let ?c = "unat (r_capacity r)" and ?r = "unat (r_read_ptr r)" and ?w = "unat (r_write_ptr r)"
  have b: "?r < ?c" "?w < ?c" "?c < 2 ^ 64 - 1" "unat (r_size r) = ring_count ?c ?r ?w"
    using assms False by (auto simp: ringbuf_wf_def)
  have 1: "r_read_ptr r = 0 \<longleftrightarrow> ?r = 0"
    by (simp add: unat_eq_zero)
  have 2: "r_write_ptr r = r_capacity r - 1 \<longleftrightarrow> ?w = ?c - 1"
    using b by (intro eq_capacity_minus_one) simp
  have 3: "r_read_ptr r = r_write_ptr r + 1 \<longleftrightarrow> ?r = ?w + 1"
    using b unat_add_one [of "r_write_ptr r"] by (simp add: word_unat_eq_iff)
  show ?thesis
    using b by (auto simp: 1 2 3 ring_count_def split: if_splits)
qed

section \<open>Each operation on the list\<close>

lemma ring_index_less: "rd < c \<Longrightarrow> i \<le> c \<Longrightarrow> ring_index c rd i < c"
  by (auto simp: ring_index_def)

lemma ring_index_inj:
  "rd < c \<Longrightarrow> i < c \<Longrightarrow> j < c \<Longrightarrow> ring_index c rd i = ring_index c rd j \<Longrightarrow> i = j"
  by (auto simp: ring_index_def split: if_splits)

text \<open>The word the code writes to is the slot after the last element.\<close>

lemma ringbuf_next_slot:
  assumes wf: "ringbuf_wf r" and ne: "r_read_ptr r \<noteq> -1"
  shows "unat (if r_write_ptr r = r_capacity r - 1 then 0 else r_write_ptr r + 1) =
    (if unat (r_write_ptr r) = unat (r_capacity r) - 1 then 0 else unat (r_write_ptr r) + 1)"
proof -
  have "unat (r_write_ptr r) < 2 ^ 64 - 1" "0 < unat (r_capacity r)"
    using wf ne by (auto simp: ringbuf_wf_def)
  then show ?thesis
    by (simp add: eq_capacity_minus_one unat_add_one)
qed

lemma ringbuf_push_full:
  "ringbuf_wf r \<Longrightarrow> length (ringbuf_list r) = unat (r_capacity r) \<Longrightarrow>
   ringbuf_push r x = Some (False, r)"
  using ringbuf_wf_full [of r] by (auto simp: ringbuf_push_def)

lemma ringbuf_push_empty:
  assumes wf: "ringbuf_wf r" and e: "r_read_ptr r = -1"
  shows "\<exists>r'. ringbuf_push r x = Some (True, r') \<and> ringbuf_wf r' \<and> ringbuf_list r' = [x] \<and>
    r_capacity r' = r_capacity r"
proof -
  have b: "0 < unat (r_capacity r)" "unat (r_capacity r) < 2 ^ 64 - 1"
      "length (r_data r) = unat (r_capacity r)" "r_lock r = 0" "r_write_ptr r = -1" "r_size r = 0"
    using wf e by (auto simp: ringbuf_wf_def)
  then have "r_data r \<noteq> []" by auto
  with b e show ?thesis
    by (simp add: ringbuf_push_def elem_write_def ringbuf_wf_def ringbuf_list_def ring_count_def
        ring_index_def)
qed

lemma ringbuf_push_nonempty:
  assumes wf: "ringbuf_wf r" and ne: "r_read_ptr r \<noteq> -1"
    and room: "length (ringbuf_list r) < unat (r_capacity r)"
  shows "\<exists>r'. ringbuf_push r x = Some (True, r') \<and> ringbuf_wf r' \<and>
    ringbuf_list r' = ringbuf_list r @ [x] \<and> r_capacity r' = r_capacity r"
proof -
  let ?c = "unat (r_capacity r)" and ?r = "unat (r_read_ptr r)" and ?w = "unat (r_write_ptr r)"
  let ?n = "unat (r_size r)"
  let ?w' = "if r_write_ptr r = r_capacity r - 1 then 0 else r_write_ptr r + 1"
  let ?r' = "r\<lparr>r_write_ptr := ?w', r_data := (r_data r)[unat ?w' := x],
               r_size := r_size r + 1, r_lock := 0\<rparr>"
  have b: "?r < ?c" "?w < ?c" "?c < 2 ^ 64 - 1" "?n = ring_count ?c ?r ?w"
      "length (r_data r) = ?c" "r_lock r = 0"
    using wf ne by (auto simp: ringbuf_wf_def)
  have room': "?n < ?c" using room by simp
  have w': "unat ?w' = (if ?w = ?c - 1 then 0 else ?w + 1)"
    by (rule ringbuf_next_slot [OF wf ne])
  have slot: "unat ?w' = ring_index ?c ?r ?n" and w'c: "unat ?w' < ?c"
    using b room' by (auto simp: w' ring_index_def ring_count_def split: if_splits)
  have count': "ring_count ?c ?r (unat ?w') = ?n + 1"
    using b room' by (auto simp: w' ring_count_def split: if_splits)
  have n': "unat (r_size r + 1) = ?n + 1"
    using b room' by (intro unat_add_one) simp
  have push: "ringbuf_push r x = Some (True, ?r')"
    using ringbuf_wf_full [OF wf] room ne b w'c
    by (simp add: ringbuf_push_def elem_write_def Let_def)
  have "r_data ?r' ! ring_index ?c ?r i = r_data r ! ring_index ?c ?r i" if "i < ?n" for i
  proof -
    have "ring_index ?c ?r i \<noteq> unat ?w'"
      using that b(1) room' ring_index_inj [of ?r ?c i ?n] by (auto simp: slot)
    then show ?thesis by simp
  qed
  moreover have "r_data ?r' ! ring_index ?c ?r ?n = x"
    using b w'c by (simp add: slot)
  ultimately have "ringbuf_list ?r' = ringbuf_list r @ [x]"
    using n' by (simp add: ringbuf_list_def)
  moreover have "ringbuf_wf ?r'"
    using b ne w'c count' n' by (simp add: ringbuf_wf_def)
  ultimately show ?thesis using push by simp
qed

lemma ringbuf_push_room:
  assumes "ringbuf_wf r" "length (ringbuf_list r) < unat (r_capacity r)"
  shows "\<exists>r'. ringbuf_push r x = Some (True, r') \<and> ringbuf_wf r' \<and>
    ringbuf_list r' = ringbuf_list r @ [x] \<and> r_capacity r' = r_capacity r"
proof (cases "r_read_ptr r = -1")
  case True
  with assms(1) have "ringbuf_list r = []" by (simp add: ringbuf_wf_empty)
  with ringbuf_push_empty [OF assms(1) True] show ?thesis by simp
next
  case False
  then show ?thesis by (rule ringbuf_push_nonempty [OF assms(1) _ assms(2)])
qed

text \<open>Reading the front: \<^verbatim>\<open>ringbuf_pop\<close> and \<^verbatim>\<open>ringbuf_peek\<close>.\<close>

lemma ringbuf_front:
  assumes wf: "ringbuf_wf r" and ne: "ringbuf_list r \<noteq> []"
  shows "elem_read (r_data r) (r_read_ptr r) = Some (hd (ringbuf_list r))"
proof -
  have "r_read_ptr r \<noteq> -1" using wf ne by (simp add: ringbuf_wf_empty)
  with wf have "unat (r_read_ptr r) < length (r_data r)" "unat (r_read_ptr r) < unat (r_capacity r)"
    by (auto simp: ringbuf_wf_def)
  moreover have "0 < unat (r_size r)" using ne by (metis length_greater_0_conv length_ringbuf_list)
  ultimately show ?thesis
    by (simp add: elem_read_def ringbuf_list_def ring_index_def hd_map)
qed

lemma ringbuf_pop_empty: "ringbuf_wf r \<Longrightarrow> ringbuf_list r = [] \<Longrightarrow> ringbuf_pop r = Some (None, r)"
  by (simp add: ringbuf_pop_def ringbuf_wf_empty)

lemma ringbuf_list_tl:
  "0 < unat (r_size r) \<Longrightarrow>
   tl (ringbuf_list r) =
     map (\<lambda>i. r_data r ! ring_index (unat (r_capacity r)) (unat (r_read_ptr r)) (Suc i))
       [0..<unat (r_size r) - 1]"
  by (rule nth_equalityI) (simp_all add: ringbuf_list_def nth_tl less_diff_conv)

lemma unat_minus_one_pos: "0 < unat (w :: u64) \<Longrightarrow> unat (w - 1) = unat w - 1"
  by (metis neq0_conv unat_eq_zero unat_minus_one)

lemma ringbuf_pop_nonempty:
  assumes wf: "ringbuf_wf r" and ne: "ringbuf_list r \<noteq> []"
  shows "\<exists>r'. ringbuf_pop r = Some (Some (hd (ringbuf_list r)), r') \<and> ringbuf_wf r' \<and>
    ringbuf_list r' = tl (ringbuf_list r) \<and> r_capacity r' = r_capacity r"
proof -
  let ?c = "unat (r_capacity r)" and ?r = "unat (r_read_ptr r)" and ?w = "unat (r_write_ptr r)"
  let ?n = "unat (r_size r)"
  define nxt where "nxt = (if r_read_ptr r = r_capacity r - 1 then 0 else r_read_ptr r + 1)"
  let ?r' = "if r_read_ptr r = r_write_ptr r
             then r\<lparr>r_read_ptr := -1, r_write_ptr := -1, r_size := r_size r - 1, r_lock := 0\<rparr>
             else r\<lparr>r_read_ptr := nxt, r_size := r_size r - 1, r_lock := 0\<rparr>"
  have nn: "r_read_ptr r \<noteq> -1" using wf ne by (simp add: ringbuf_wf_empty)
  have b: "?r < ?c" "?w < ?c" "?c < 2 ^ 64 - 1" "?n = ring_count ?c ?r ?w"
      "length (r_data r) = ?c" "r_lock r = 0"
    using wf nn by (auto simp: ringbuf_wf_def)
  have pos: "0 < ?n" using b by (simp add: ring_count_def)
  have pop: "ringbuf_pop r = Some (Some (hd (ringbuf_list r)), ?r')"
    using nn b ringbuf_front [OF wf ne] by (simp add: ringbuf_pop_def Let_def nxt_def)
  have n': "unat (r_size r - 1) = ?n - 1" by (rule unat_minus_one_pos [OF pos])
  show ?thesis
  proof (cases "r_read_ptr r = r_write_ptr r")
    case True
    then have "?n = 1" using b by (simp add: ring_count_def)
    then have "r_size r = 1" by (simp add: word_unat_eq_iff)
    with True b nn pos have "ringbuf_wf ?r'" "ringbuf_list ?r' = tl (ringbuf_list r)"
      by (simp_all add: ringbuf_wf_def ringbuf_list_tl) (simp add: ringbuf_list_def)
    with pop True show ?thesis by simp
  next
    case False
    have next': "unat nxt = (if ?r = ?c - 1 then 0 else ?r + 1)"
      using b by (simp add: nxt_def eq_capacity_minus_one unat_add_one)
    have rw: "?r \<noteq> ?w" using False by (simp add: word_unat_eq_iff)
    have nc: "unat nxt < ?c" using b by (auto simp: next')
    have "nxt \<noteq> -1" using nc b by (intro not_minus_one) simp
    moreover have "?n - 1 = ring_count ?c (unat nxt) ?w"
      using b rw by (auto simp: next' ring_count_def split: if_splits)
    ultimately have "ringbuf_wf ?r'"
      using False b nc n' by (simp add: ringbuf_wf_def)
    moreover have "ring_index ?c (unat nxt) i = ring_index ?c ?r (Suc i)" if "i < ?n - 1" for i
      using that b rw by (auto simp: next' ring_index_def ring_count_def split: if_splits)
    then have "ringbuf_list ?r' = tl (ringbuf_list r)"
      using False n' by (simp add: ringbuf_list_tl [OF pos]) (simp add: ringbuf_list_def)
    ultimately show ?thesis using pop False by simp
  qed
qed

lemma ringbuf_peek_list:
  "ringbuf_wf r \<Longrightarrow>
   ringbuf_peek r = Some (if ringbuf_list r = [] then None else Some (hd (ringbuf_list r)))"
proof (cases "ringbuf_list r = []")
  case True
  assume "ringbuf_wf r"
  with True show ?thesis by (simp add: ringbuf_peek_def ringbuf_wf_empty)
next
  case False
  assume wf: "ringbuf_wf r"
  then have "r_lock r = 0" by (simp add: ringbuf_wf_def)
  with wf False ringbuf_front [OF wf False] show ?thesis
    by (simp add: ringbuf_peek_def ringbuf_wf_empty)
qed

text \<open>Removing at the tail, on buffers of at most one and of at least two elements.\<close>

lemma ringbuf_pop_tail_short:
  assumes "ringbuf_wf r" "length (ringbuf_list r) \<le> 1"
  shows "ringbuf_pop_tail r = Some (None, r)"
proof -
  have "r_read_ptr r = r_write_ptr r"
    using assms by (auto simp: ringbuf_wf_def ring_count_def word_unat_eq_iff split: if_splits)
  then show ?thesis by (simp add: ringbuf_pop_tail_def)
qed

lemma ringbuf_pop_tail_long:
  assumes wf: "ringbuf_wf r" and two: "2 \<le> length (ringbuf_list r)"
  shows "\<exists>r'. ringbuf_pop_tail r = Some (Some (last (butlast (ringbuf_list r))), r') \<and>
    ringbuf_wf r' \<and> ringbuf_list r' = butlast (ringbuf_list r) \<and> r_capacity r' = r_capacity r"
proof -
  let ?c = "unat (r_capacity r)" and ?r = "unat (r_read_ptr r)" and ?w = "unat (r_write_ptr r)"
  let ?n = "unat (r_size r)"
  let ?w' = "if r_write_ptr r = 0 then r_capacity r - 1 else r_write_ptr r - 1"
  let ?r' = "r\<lparr>r_write_ptr := ?w', r_size := r_size r - 1, r_lock := 0\<rparr>"
  have n2: "2 \<le> ?n" using two by simp
  then have nn: "r_read_ptr r \<noteq> -1" using wf by (auto simp: ringbuf_wf_def)
  have b: "?r < ?c" "?w < ?c" "?c < 2 ^ 64 - 1" "?n = ring_count ?c ?r ?w"
      "length (r_data r) = ?c" "r_lock r = 0"
    using wf nn by (auto simp: ringbuf_wf_def)
  have w': "unat ?w' = (if ?w = 0 then ?c - 1 else ?w - 1)"
    using b unat_minus_one_pos [of "r_capacity r"] unat_minus_one_pos [of "r_write_ptr r"]
    by (auto simp: unat_eq_zero unat_gt_0)
  have w'c: "unat ?w' < ?c" using b by (auto simp: w')
  have rw: "r_read_ptr r \<noteq> r_write_ptr r" using n2 b by (auto simp: ring_count_def)
  have slot: "unat ?w' = ring_index ?c ?r (?n - 2)"
    using b n2 by (auto simp: w' ring_index_def ring_count_def split: if_splits)
  have count: "ring_count ?c ?r (unat ?w') = ?n - 1"
    using b n2 by (auto simp: w' ring_count_def split: if_splits)
  have n': "unat (r_size r - 1) = ?n - 1" using n2 by (intro unat_minus_one_pos) simp
  have "elem_read (r_data r) ?w' = Some (ringbuf_list r ! (?n - 2))"
    using b w'c n2 by (simp add: elem_read_def slot ringbuf_list_def)
  moreover have "ringbuf_list r ! (?n - 2) = last (butlast (ringbuf_list r))"
    using n2 by (subst last_conv_nth) (auto simp: nth_butlast numeral_2_eq_2 simp flip: length_0_conv)
  ultimately have pop: "ringbuf_pop_tail r = Some (Some (last (butlast (ringbuf_list r))), ?r')"
    using rw b by (simp add: ringbuf_pop_tail_def Let_def)
  have "ringbuf_wf ?r'" using b nn w'c count n' by (simp add: ringbuf_wf_def)
  moreover have "ringbuf_list ?r' = butlast (ringbuf_list r)"
    by (rule nth_equalityI) (simp_all add: n' nth_butlast, simp add: ringbuf_list_def n' less_diff_conv)
  ultimately show ?thesis using pop by simp
qed

section \<open>The queue interface\<close>

text \<open>What a client of the buffer relies on: pushes append unless the queue is full, pops take
  from the front, no operation stops the machine.\<close>

locale bounded_fifo =
  fixes invar :: "'q \<Rightarrow> bool"
    and contents :: "'q \<Rightarrow> 'a list"
    and room :: "'q \<Rightarrow> nat"
    and push :: "'q \<Rightarrow> 'a \<Rightarrow> (bool \<times> 'q) option"
    and pop :: "'q \<Rightarrow> ('a option \<times> 'q) option"
  assumes push_room: "invar q \<Longrightarrow> length (contents q) < room q \<Longrightarrow>
      \<exists>q'. push q x = Some (True, q') \<and> invar q' \<and> contents q' = contents q @ [x] \<and> room q' = room q"
    and push_full: "invar q \<Longrightarrow> length (contents q) = room q \<Longrightarrow> push q x = Some (False, q)"
    and contents_room: "invar q \<Longrightarrow> length (contents q) \<le> room q"
    and pop_empty: "invar q \<Longrightarrow> contents q = [] \<Longrightarrow> pop q = Some (None, q)"
    and pop_front: "invar q \<Longrightarrow> contents q \<noteq> [] \<Longrightarrow>
      \<exists>q'. pop q = Some (Some (hd (contents q)), q') \<and> invar q' \<and>
           contents q' = tl (contents q) \<and> room q' = room q"
begin

lemma drain_contents:
  "invar q \<Longrightarrow>
   \<exists>q'. drain pop n q = Some (take n (contents q), q') \<and> invar q' \<and>
        contents q' = drop n (contents q) \<and> room q' = room q"
proof (induction n arbitrary: q)
  case 0
  then show ?case by simp
next
  case (Suc n)
  show ?case
  proof (cases "contents q")
    case Nil
    with Suc.prems show ?thesis by (simp add: pop_empty)
  next
    case (Cons x xs)
    then obtain q' where q': "pop q = Some (Some x, q')" "invar q'" "contents q' = xs" "room q' = room q"
      using pop_front [OF Suc.prems] by auto
    from Suc.IH [OF q'(2)] q' Cons show ?thesis by auto
  qed
qed

lemma feed_contents:
  "invar q \<Longrightarrow>
   \<exists>q'. feed push xs q = Some q' \<and> invar q' \<and>
        contents q' = contents q @ take (room q - length (contents q)) xs \<and> room q' = room q"
proof (induction xs arbitrary: q)
  case Nil
  then show ?case by simp
next
  case (Cons x xs)
  show ?case
  proof (cases "length (contents q) < room q")
    case True
    then obtain q' where q': "push q x = Some (True, q')" "invar q'" "contents q' = contents q @ [x]"
        "room q' = room q"
      using push_room [OF Cons.prems True] by blast
    have "room q - length (contents q) = Suc (room q - Suc (length (contents q)))"
      using True by simp
    with Cons.IH [OF q'(2)] q' show ?thesis by auto
  next
    case False
    then have full: "length (contents q) = room q"
      using contents_room [OF Cons.prems] by simp
    with Cons.IH [OF Cons.prems] push_full [OF Cons.prems full] show ?thesis by simp
  qed
qed

lemma feed_drain:
  assumes "invar q" "contents q = []" "length xs \<le> room q" "length xs \<le> n"
  shows "\<exists>q1 q2. feed push xs q = Some q1 \<and> drain pop n q1 = Some (xs, q2) \<and>
    invar q2 \<and> contents q2 = []"
proof -
  obtain q1 where q1: "feed push xs q = Some q1" "invar q1" "contents q1 = xs"
    using feed_contents [OF assms(1), of xs] assms(2,3) by auto
  with drain_contents [OF q1(2), of n] assms(4) show ?thesis by auto
qed

end

lemma ringbuf_list_le_capacity: "ringbuf_wf r \<Longrightarrow> length (ringbuf_list r) \<le> unat (r_capacity r)"
  by (auto simp: ringbuf_wf_def ring_count_def split: if_splits)

interpretation rb: bounded_fifo ringbuf_wf ringbuf_list "\<lambda>r. unat (r_capacity r)" ringbuf_push ringbuf_pop
proof
  fix q :: "'a ringbuf" and x :: 'a
  assume wf: "ringbuf_wf q"
  show "length (ringbuf_list q) \<le> unat (r_capacity q)"
    by (rule ringbuf_list_le_capacity [OF wf])
  show "\<exists>q'. ringbuf_push q x = Some (True, q') \<and> ringbuf_wf q' \<and> ringbuf_list q' = ringbuf_list q @ [x] \<and>
      unat (r_capacity q') = unat (r_capacity q)" if "length (ringbuf_list q) < unat (r_capacity q)"
    using ringbuf_push_room [OF wf that, of x] by auto
  show "ringbuf_push q x = Some (False, q)" if "length (ringbuf_list q) = unat (r_capacity q)"
    by (rule ringbuf_push_full [OF wf that])
  show "ringbuf_pop q = Some (None, q)" if "ringbuf_list q = []"
    by (rule ringbuf_pop_empty [OF wf that])
  show "\<exists>q'. ringbuf_pop q = Some (Some (hd (ringbuf_list q)), q') \<and> ringbuf_wf q' \<and>
      ringbuf_list q' = tl (ringbuf_list q) \<and> unat (r_capacity q') = unat (r_capacity q)"
    if "ringbuf_list q \<noteq> []"
    using ringbuf_pop_nonempty [OF wf that] by auto
qed

section \<open>Properties\<close>

lemma ringbuf_create_wf:
  assumes "ringbuf_create c e True (Some xs) = Some r" "length xs = unat c" "0 < unat c" "unat c < 2 ^ 64 - 1"
  shows "ringbuf_wf r \<and> ringbuf_list r = [] \<and> r_capacity r = c"
  using assms by (auto simp: ringbuf_create_def ringbuf_wf_def ringbuf_list_def)

text \<open>C3: \<^verbatim>\<open>ringbuf_push\<close> refines appending to a bounded list. On a well-formed buffer it never
  stops; it answers false and changes nothing exactly when the buffer holds \<^verbatim>\<open>capacity\<close> elements,
  and otherwise the new buffer is well-formed and holds the old elements followed by the new
  one.\<close>

theorem ringbuf_push_refines:
  assumes "ringbuf_wf r"
  shows "if length (ringbuf_list r) = unat (r_capacity r) then ringbuf_push r x = Some (False, r)
    else \<exists>r'. ringbuf_push r x = Some (True, r') \<and> ringbuf_wf r' \<and>
           ringbuf_list r' = ringbuf_list r @ [x] \<and> r_capacity r' = r_capacity r"
  using assms ringbuf_push_full [OF assms, of x] ringbuf_push_room [OF assms, of x]
    ringbuf_list_le_capacity [OF assms] by (auto simp del: length_ringbuf_list)

definition ring_sample :: "nat ringbuf" where
  "ring_sample = \<lparr>r_elem_size = 1, r_size = 2, r_capacity = 3, r_read_ptr = 2, r_write_ptr = 0,
     r_data = [20, 99, 10], r_lock = 0\<rparr>"

lemma ring_sample_wf: "ringbuf_wf ring_sample"
  by (simp add: ring_sample_def ringbuf_wf_def ring_count_def)

lemma ring_sample_list: "ringbuf_list ring_sample = [10, 20]"
  by (simp add: ring_sample_def ringbuf_list_def ring_index_def upt_rec)

theorem ringbuf_push_refines_witness:
  "ringbuf_wf ring_sample \<and>
   (\<exists>r'. ringbuf_push ring_sample 30 = Some (True, r') \<and> ringbuf_wf r' \<and> ringbuf_list r' = [10, 20, 30])"
  using ringbuf_push_refines [OF ring_sample_wf, of 30] ring_sample_wf ring_sample_list
  by (auto simp: ring_sample_def)

text \<open>C4: \<^verbatim>\<open>ringbuf_pop\<close> refines taking the head of the list: false on an empty buffer, otherwise
  the oldest element, leaving a well-formed buffer with the rest.\<close>

theorem ringbuf_pop_refines:
  assumes "ringbuf_wf r"
  shows "case ringbuf_list r of
      [] \<Rightarrow> ringbuf_pop r = Some (None, r)
    | x # xs \<Rightarrow> \<exists>r'. ringbuf_pop r = Some (Some x, r') \<and> ringbuf_wf r' \<and> ringbuf_list r' = xs \<and>
                   r_capacity r' = r_capacity r"
  using ringbuf_pop_empty [OF assms] ringbuf_pop_nonempty [OF assms]
  by (cases "ringbuf_list r") auto

theorem ringbuf_pop_refines_witness:
  "ringbuf_wf ring_sample \<and>
   (\<exists>r'. ringbuf_pop ring_sample = Some (Some 10, r') \<and> ringbuf_wf r' \<and> ringbuf_list r' = [20])"
  using ringbuf_pop_refines [OF ring_sample_wf] ring_sample_wf by (auto simp: ring_sample_list)

text \<open>C5: first in, first out. Whatever a producer pushes into an empty buffer that has room for
  it, a consumer that then takes at least as many elements receives, in the same order, and the
  buffer is empty and well-formed again.\<close>

theorem ringbuf_fifo:
  assumes "ringbuf_wf r" "ringbuf_list r = []" "length xs \<le> unat (r_capacity r)" "length xs \<le> n"
  shows "\<exists>r1 r2. feed ringbuf_push xs r = Some r1 \<and> drain ringbuf_pop n r1 = Some (xs, r2) \<and>
    ringbuf_wf r2 \<and> ringbuf_list r2 = []"
  by (rule rb.feed_drain [OF assms])

definition ring_empty :: "char ringbuf" where
  "ring_empty = \<lparr>r_elem_size = 1, r_size = 0, r_capacity = 4, r_read_ptr = -1, r_write_ptr = -1,
     r_data = ''????'', r_lock = 0\<rparr>"

theorem ringbuf_fifo_witness:
  "\<exists>r1 r2. feed ringbuf_push ''abc'' ring_empty = Some r1 \<and>
     drain ringbuf_pop 10 r1 = Some (''abc'', r2) \<and> ringbuf_wf r2 \<and> ringbuf_list r2 = []"
  by (rule ringbuf_fifo) (simp_all add: ring_empty_def ringbuf_wf_def ringbuf_list_def)

text \<open>C6: \<^verbatim>\<open>ringbuf_pop_tail\<close> removes the newest element of a buffer that holds at least two, but
  hands back the element before it, the new tail, not the one removed; on a buffer with exactly one
  element it answers false and removes nothing.\<close>

theorem ringbuf_pop_tail_behaviour:
  assumes "ringbuf_wf r"
  shows "if length (ringbuf_list r) \<le> 1 then ringbuf_pop_tail r = Some (None, r)
    else \<exists>r'. ringbuf_pop_tail r = Some (Some (ringbuf_list r ! (length (ringbuf_list r) - 2)), r') \<and>
           ringbuf_wf r' \<and> ringbuf_list r' = butlast (ringbuf_list r)"
proof (cases "length (ringbuf_list r) \<le> 1")
  case True
  with ringbuf_pop_tail_short [OF assms] show ?thesis by simp
next
  case False
  have "last (butlast (ringbuf_list r)) = ringbuf_list r ! (length (ringbuf_list r) - 2)"
    using False by (subst last_conv_nth)
      (auto simp: nth_butlast numeral_2_eq_2 simp flip: length_0_conv simp del: length_ringbuf_list)
  with False ringbuf_pop_tail_long [OF assms] show ?thesis by auto
qed

theorem ringbuf_pop_tail_behaviour_witness:
  "ringbuf_wf ring_sample \<and>
   (\<exists>r'. ringbuf_pop_tail ring_sample = Some (Some 10, r') \<and> ringbuf_list r' = [10])"
  using ringbuf_pop_tail_behaviour [OF ring_sample_wf] ring_sample_wf
  by (auto simp: ring_sample_list simp del: length_ringbuf_list)

end
