(* ===== verification/Kstring.thy ===== *)
theory Kstring
  imports Prelude
begin

text \<open>
  The kernel's memory and string functions: \<^verbatim>\<open>kernel/src/utils/string.c\<close>. Memory is a total map from
  addresses to bytes; addresses are natural numbers, since the regions the functions are called
  with do not wrap around the end of the address space. A string lies at \<open>p\<close> (\<open>cstr m p xs\<close>) if the
  bytes \<open>xs\<close>, none of them 0, are followed by a 0.

  The loops over strings run until they see a 0 and so return only if there is one; they are partial
  functions into \<open>option\<close>. A function that returns a pointer into a string returns an address; the
  results \<^verbatim>\<open>c1 - c2\<close> of comparisons are integers, with \<^verbatim>\<open>char\<close> signed as on this machine.
\<close>

type_synonym mem = "nat \<Rightarrow> u8"

type_synonym cstring = "u8 list"

definition lit :: "string \<Rightarrow> cstring" where
  "lit xs = map of_char xs"

definition cstr :: "mem \<Rightarrow> nat \<Rightarrow> u8 list \<Rightarrow> bool" where
  "cstr m p xs \<longleftrightarrow> (\<forall>i<length xs. m (p + i) = xs ! i) \<and> m (p + length xs) = 0 \<and> 0 \<notin> set xs"

definition chr :: "u8 \<Rightarrow> int" where
  "chr c = sint c"

definition ch :: "char \<Rightarrow> u8" where
  "ch c = of_char c"

section \<open>Memory\<close>

fun memcmp :: "mem \<Rightarrow> nat \<Rightarrow> nat \<Rightarrow> nat \<Rightarrow> int" where
  "memcmp m p1 p2 0 = 0"
| "memcmp m p1 p2 (Suc n) =
     (if m p1 \<noteq> m p2 then (if m p1 < m p2 then -1 else 1) else memcmp m (p1 + 1) (p2 + 1) n)"

text \<open>\<^verbatim>\<open>rep movsb\<close> and \<^verbatim>\<open>rep stosb\<close> with the direction flag clear.\<close>

fun memcpy :: "mem \<Rightarrow> nat \<Rightarrow> nat \<Rightarrow> nat \<Rightarrow> mem" where
  "memcpy m d s 0 = m"
| "memcpy m d s (Suc n) = memcpy (m(d := m s)) (d + 1) (s + 1) n"

fun memset :: "mem \<Rightarrow> nat \<Rightarrow> u8 \<Rightarrow> nat \<Rightarrow> mem" where
  "memset m d c 0 = m"
| "memset m d c (Suc n) = memset (m(d := c)) (d + 1) c n"

text \<open>\<^verbatim>\<open>*(size_t*) d = *(size_t*) s\<close>: eight bytes are read, then eight bytes are written.\<close>

definition copy_word :: "mem \<Rightarrow> nat \<Rightarrow> nat \<Rightarrow> mem" where
  "copy_word m d s = (\<lambda>a. if d \<le> a \<and> a < d + 8 then m (s + (a - d)) else m a)"

text \<open>The loops of \<^verbatim>\<open>memmove\<close>. The alignment loops return early (\<open>Inl\<close>) when the count runs out.\<close>

fun align_up_loop :: "mem \<Rightarrow> nat \<Rightarrow> nat \<Rightarrow> nat \<Rightarrow> mem + (mem \<times> nat \<times> nat \<times> nat)" where
  "align_up_loop m d s n =
     (if d mod 8 \<noteq> 0 then
        (case n of 0 \<Rightarrow> Inl m | Suc n' \<Rightarrow> align_up_loop (m(d := m s)) (d + 1) (s + 1) n')
      else Inr (m, d, s, n))"

fun words_up_loop :: "mem \<Rightarrow> nat \<Rightarrow> nat \<Rightarrow> nat \<Rightarrow> mem \<times> nat \<times> nat \<times> nat" where
  "words_up_loop m d s n =
     (if 8 \<le> n then words_up_loop (copy_word m d s) (d + 8) (s + 8) (n - 8) else (m, d, s, n))"

fun align_down_loop :: "mem \<Rightarrow> nat \<Rightarrow> nat \<Rightarrow> nat \<Rightarrow> mem + (mem \<times> nat)" where
  "align_down_loop m d s n =
     (if (d + n) mod 8 \<noteq> 0 then
        (case n of 0 \<Rightarrow> Inl m | Suc n' \<Rightarrow> align_down_loop (m(d + n' := m (s + n'))) d s n')
      else Inr (m, n))"

fun words_down_loop :: "mem \<Rightarrow> nat \<Rightarrow> nat \<Rightarrow> nat \<Rightarrow> mem \<times> nat" where
  "words_down_loop m d s n =
     (if 8 \<le> n then words_down_loop (copy_word m (d + (n - 8)) (s + (n - 8))) d s (n - 8) else (m, n))"

fun bytes_down_loop :: "mem \<Rightarrow> nat \<Rightarrow> nat \<Rightarrow> nat \<Rightarrow> mem" where
  "bytes_down_loop m d s 0 = m"
| "bytes_down_loop m d s (Suc n) = bytes_down_loop (m(d + n := m (s + n))) d s n"

declare align_up_loop.simps [simp del] words_up_loop.simps [simp del]
  align_down_loop.simps [simp del] words_down_loop.simps [simp del]

definition memmove :: "mem \<Rightarrow> nat \<Rightarrow> nat \<Rightarrow> nat \<Rightarrow> mem" where
  "memmove m d s n =
     (if d = s then m
      else if s + n \<le> d \<or> d + n \<le> s then memcpy m d s n
      else if d < s then
        (if s mod 8 = d mod 8 then
           (case align_up_loop m d s n of
              Inl m \<Rightarrow> m
            | Inr (m, d, s, n) \<Rightarrow> (case words_up_loop m d s n of (m, d, s, n) \<Rightarrow> memcpy m d s n))
         else memcpy m d s n)
      else
        (if s mod 8 = d mod 8 then
           (case align_down_loop m d s n of
              Inl m \<Rightarrow> m
            | Inr (m, n) \<Rightarrow> (case words_down_loop m d s n of (m, n) \<Rightarrow> bytes_down_loop m d s n))
         else bytes_down_loop m d s n))"

section \<open>Strings\<close>

partial_function (option) strlen_loop :: "mem \<Rightarrow> nat \<Rightarrow> nat option" where
  [code]: "strlen_loop m s = (if m s \<noteq> 0 then strlen_loop m (s + 1) else Some s)"

definition strlen :: "mem \<Rightarrow> nat \<Rightarrow> nat option" where
  "strlen m str = map_option (\<lambda>s. s - str) (strlen_loop m str)"

partial_function (option) strcmp :: "mem \<Rightarrow> nat \<Rightarrow> nat \<Rightarrow> int option" where
  [code]: "strcmp m str1 str2 =
     (if m str1 \<noteq> m str2 then Some (chr (m str1) - chr (m str2))
      else if m str1 = 0 then Some 0
      else strcmp m (str1 + 1) (str2 + 1))"

fun strncmp :: "mem \<Rightarrow> nat \<Rightarrow> nat \<Rightarrow> nat \<Rightarrow> int" where
  "strncmp m str1 str2 0 = 0"
| "strncmp m str1 str2 (Suc n) =
     (if m str1 \<noteq> m str2 then chr (m str1) - chr (m str2)
      else if m str1 = 0 then 0
      else strncmp m (str1 + 1) (str2 + 1) n)"

fun strncpy :: "mem \<Rightarrow> nat \<Rightarrow> nat \<Rightarrow> nat \<Rightarrow> mem" where
  "strncpy m dest src 0 = m"
| "strncpy m dest src (Suc n) =
     (if m src \<noteq> 0 then strncpy (m(dest := m src)) (dest + 1) (src + 1) n else memset m dest 0 (Suc n))"

text \<open>\<^verbatim>\<open>basename\<close>: trailing slashes are overwritten with 0, then the start of the last component is searched.
  The literal \<^verbatim>\<open>"."\<close>, returned for a null or empty string, is the result \<open>None\<close> in the first component.\<close>

fun strip_slashes :: "mem \<Rightarrow> nat \<Rightarrow> nat \<Rightarrow> mem \<times> nat" where
  "strip_slashes m str 0 = (m, 0)"
| "strip_slashes m str (Suc i) =
     (if m (str + Suc i) = ch CHR ''/'' then strip_slashes (m(str + Suc i := 0)) str i else (m, Suc i))"

fun last_component :: "mem \<Rightarrow> nat \<Rightarrow> nat \<Rightarrow> nat" where
  "last_component m str 0 = 0"
| "last_component m str (Suc i) =
     (if m (str + i) \<noteq> ch CHR ''/'' then last_component m str i else Suc i)"

definition basename :: "mem \<Rightarrow> nat \<Rightarrow> (nat option \<times> mem) option" where
  "basename m str =
     (if str = 0 \<or> m str = 0 then Some (None, m)
      else do {
        len \<leftarrow> strlen m str;
        let (m, i) = strip_slashes m str (len - 1);
        Some (Some (str + last_component m str i), m)
      })"

section \<open>Moving memory\<close>

text \<open>The effect \<^verbatim>\<open>memmove\<close> is to have: all bytes are read before any is written.\<close>

definition moved :: "mem \<Rightarrow> nat \<Rightarrow> nat \<Rightarrow> nat \<Rightarrow> mem" where
  "moved m d s n = (\<lambda>a. if d \<le> a \<and> a < d + n then m (s + (a - d)) else m a)"

lemma moved_0 [simp]: "moved m d s 0 = m"
  by (auto simp: moved_def fun_eq_iff)

lemma copy_word_moved: "copy_word m d s = moved m d s 8"
  by (simp add: copy_word_def moved_def)

lemma moved_up:
  assumes "d < s \<or> s + n \<le> d" "k \<le> n"
  shows "moved (moved m d s k) (d + k) (s + k) (n - k) = moved m d s n"
  using assms by (auto simp: moved_def fun_eq_iff)

lemma moved_down:
  assumes "s < d" "k \<le> n"
  shows "moved (moved m (d + k) (s + k) (n - k)) d s k = moved m d s n"
  using assms by (auto simp: moved_def fun_eq_iff)

lemma upd_moved: "m(d := m s) = moved m d s (Suc 0)"
  by (auto simp: moved_def fun_eq_iff)

lemma memcpy_moved: "d < s \<or> s + n \<le> d \<Longrightarrow> memcpy m d s n = moved m d s n"
proof (induction m d s n rule: memcpy.induct)
  case (2 m d s n)
  then have "memcpy (m(d := m s)) (d + 1) (s + 1) n = moved (moved m d s (Suc 0)) (d + 1) (s + 1) n"
    by (auto simp: upd_moved)
  also have "\<dots> = moved m d s (Suc n)" using moved_up [of d s "Suc n" 1 m] 2(2) by simp
  finally show ?case by simp
qed simp

lemma align_up_moved:
  assumes "d < s"
  shows "case align_up_loop m d s n of
      Inl m' \<Rightarrow> m' = moved m d s n
    | Inr (m', d', s', n') \<Rightarrow> \<exists>k\<le>n. m' = moved m d s k \<and> d' = d + k \<and> s' = s + k \<and> n' = n - k"
  using assms
proof (induction n arbitrary: m d s)
  case 0
  then show ?case by (subst align_up_loop.simps) simp
next
  case (Suc n)
  show ?case
  proof (cases "d mod 8 = 0")
    case True
    then show ?thesis by (subst align_up_loop.simps) (auto intro: exI [of _ 0])
  next
    case False
    have eq: "moved (moved m d s (Suc 0)) (Suc d) (Suc s) k = moved m d s (Suc k)" if "k \<le> n" for k
      using moved_up [of d s "Suc k" 1 m] Suc.prems that by simp
    have "case align_up_loop (m(d := m s)) (Suc d) (Suc s) n of
      Inl m' \<Rightarrow> m' = moved (m(d := m s)) (Suc d) (Suc s) n
    | Inr (m', d', s', n') \<Rightarrow>
        \<exists>k\<le>n. m' = moved (m(d := m s)) (Suc d) (Suc s) k \<and> d' = Suc d + k \<and> s' = Suc s + k \<and> n' = n - k"
      by (rule Suc.IH) (use Suc.prems in simp)
    then show ?thesis
      using False unfolding upd_moved
      by (subst align_up_loop.simps)
        (auto simp: upd_moved eq split: sum.splits intro!: exI [of _ "Suc _"])
  qed
qed

lemma words_up_moved:
  assumes "d < s"
  shows "\<exists>k\<le>n. words_up_loop m d s n = (moved m d s k, d + k, s + k, n - k)"
  using assms
proof (induction m d s n rule: words_up_loop.induct)
  case (1 m d s n)
  show ?case
  proof (cases "8 \<le> n")
    case True
    then obtain k where k: "k \<le> n - 8"
        "words_up_loop (copy_word m d s) (d + 8) (s + 8) (n - 8) =
           (moved (copy_word m d s) (d + 8) (s + 8) k, d + 8 + k, s + 8 + k, n - 8 - k)"
      using 1 by auto
    have "moved (copy_word m d s) (d + 8) (s + 8) k = moved m d s (8 + k)"
      using moved_up [of d s "8 + k" 8 m] 1(2) by (simp add: copy_word_moved)
    then show ?thesis
      using k True by (subst words_up_loop.simps) (auto intro!: exI [of _ "8 + k"])
  qed (subst words_up_loop.simps, auto intro!: exI [of _ 0])
qed

lemma align_down_moved:
  assumes "s < d"
  shows "case align_down_loop m d s n of
      Inl m' \<Rightarrow> m' = moved m d s n
    | Inr (m', n') \<Rightarrow> n' \<le> n \<and> m' = moved m (d + n') (s + n') (n - n')"
  using assms
proof (induction n arbitrary: m)
  case 0
  then show ?case by (subst align_down_loop.simps) simp
next
  case (Suc n)
  show ?case
  proof (cases "(d + Suc n) mod 8 = 0")
    case True
    then show ?thesis by (subst align_down_loop.simps) auto
  next
    case False
    have eq: "moved (moved m (d + n) (s + n) (Suc 0)) (d + k) (s + k) (n - k) = moved m (d + k) (s + k) (Suc n - k)"
      if "k \<le> n" for k
      using moved_down [of "s + k" "d + k" "n - k" "Suc n - k" m] Suc.prems that
      by (simp add: Suc_diff_le)
    have "case align_down_loop (m(d + n := m (s + n))) d s n of
      Inl m' \<Rightarrow> m' = moved (m(d + n := m (s + n))) d s n
    | Inr (m', n') \<Rightarrow> n' \<le> n \<and> m' = moved (m(d + n := m (s + n))) (d + n') (s + n') (n - n')"
      by (rule Suc.IH) (rule Suc.prems)
    then show ?thesis
      using False eq [of 0] unfolding upd_moved
      by (subst align_down_loop.simps) (auto simp: upd_moved eq split: sum.splits)
  qed
qed

lemma words_down_moved:
  assumes "s < d"
  shows "case words_down_loop m d s n of (m', n') \<Rightarrow> n' \<le> n \<and> m' = moved m (d + n') (s + n') (n - n')"
  using assms
proof (induction m d s n rule: words_down_loop.induct)
  case (1 m d s n)
  show ?case
  proof (cases "8 \<le> n")
    case True
    obtain m' n' where w: "words_down_loop (copy_word m (d + (n - 8)) (s + (n - 8))) d s (n - 8) = (m', n')"
      by force
    have n': "n' \<le> n - 8" "m' = moved (copy_word m (d + (n - 8)) (s + (n - 8))) (d + n') (s + n') (n - 8 - n')"
      using 1 True w by auto
    have "d + n' + (n - 8 - n') = d + (n - 8)" "s + n' + (n - 8 - n') = s + (n - 8)" "n - n' - (n - 8 - n') = 8"
      using n'(1) True by auto
    then have "m' = moved m (d + n') (s + n') (n - n')"
      using moved_down [of "s + n'" "d + n'" "n - 8 - n'" "n - n'" m] 1(2) n' by (simp add: copy_word_moved)
    then show ?thesis using True w n'(1) by (subst words_down_loop.simps) simp
  qed (subst words_down_loop.simps, simp)
qed

lemma bytes_down_moved: "s < d \<Longrightarrow> bytes_down_loop m d s n = moved m d s n"
proof (induction m d s n rule: bytes_down_loop.induct)
  case (2 m d s n)
  then show ?case using moved_down [of s d n "Suc n" m] by (simp add: upd_moved)
qed simp

lemma words_up_bytes:
  assumes "d < s"
  shows "(case words_up_loop m d s n of (m, d, s, n) \<Rightarrow> memcpy m d s n) = moved m d s n"
proof -
  obtain k where "k \<le> n" "words_up_loop m d s n = (moved m d s k, d + k, s + k, n - k)"
    using words_up_moved [OF assms] by blast
  then show ?thesis using assms by (simp add: memcpy_moved moved_up)
qed

lemma words_down_bytes:
  assumes "s < d"
  shows "(case words_down_loop m d s n of (m, n) \<Rightarrow> bytes_down_loop m d s n) = moved m d s n"
  using words_down_moved [OF assms, of n m] assms by (auto simp: bytes_down_moved moved_down)

section \<open>Reading strings\<close>

lemma cstr_Nil: "cstr m p [] \<longleftrightarrow> m p = 0"
  by (simp add: cstr_def)

lemma cstr_Cons: "cstr m p (x # xs) \<longleftrightarrow> m p = x \<and> x \<noteq> 0 \<and> cstr m (Suc p) xs"
  by (auto simp: cstr_def All_less_Suc2)

lemmas cstr_simps = cstr_Nil cstr_Cons

lemma strlen_loop_cstr: "cstr m p xs \<Longrightarrow> strlen_loop m p = Some (p + length xs)"
  by (induction xs arbitrary: p) (subst strlen_loop.simps, simp add: cstr_simps)+

lemma strlen_cstr: "cstr m p xs \<Longrightarrow> strlen m p = Some (length xs)"
  by (simp add: strlen_def strlen_loop_cstr)

text \<open>The sign of a comparison: lexicographic order of the bytes read as signed numbers, with the
  terminating 0 as the end of a string.\<close>

fun str_compare :: "u8 list \<Rightarrow> u8 list \<Rightarrow> int" where
  "str_compare [] [] = 0"
| "str_compare [] (y # ys) = - chr y"
| "str_compare (x # xs) [] = chr x"
| "str_compare (x # xs) (y # ys) = (if x = y then str_compare xs ys else chr x - chr y)"

lemma chr_0 [simp]: "chr 0 = 0"
  by (simp add: chr_def)

lemma chr_inj: "chr x = chr y \<longleftrightarrow> x = y"
  by (simp add: chr_def signed_word_eqI) (metis signed_word_eqI)

lemma str_compare_0: "0 \<notin> set xs \<Longrightarrow> 0 \<notin> set ys \<Longrightarrow> str_compare xs ys = 0 \<longleftrightarrow> xs = ys"
  by (induction xs ys rule: str_compare.induct) (auto simp: chr_inj chr_inj [of _ 0, simplified])

lemma strcmp_compare: "cstr m p xs \<Longrightarrow> cstr m q ys \<Longrightarrow> strcmp m p q = Some (str_compare xs ys)"
  by (induction xs ys arbitrary: p q rule: str_compare.induct)
    (subst strcmp.simps, auto simp: cstr_simps)+

lemma strncmp_compare:
  "cstr m p xs \<Longrightarrow> cstr m q ys \<Longrightarrow> strncmp m p q n = str_compare (take n xs) (take n ys)"
proof (induction n arbitrary: p q xs ys)
  case 0
  then show ?case by simp
next
  case (Suc n)
  then show ?case by (cases xs; cases ys) (auto simp: cstr_simps)
qed

section \<open>Properties\<close>

text \<open>C33: \<^verbatim>\<open>memmove\<close>, with its word-wise loops for overlapping regions of equal alignment, has the effect of
  reading all bytes before writing any, whatever the overlap.\<close>

theorem memmove_moves:
  "memmove m d s n = (\<lambda>a. if d \<le> a \<and> a < d + n then m (s + (a - d)) else m a)"
proof -
  have "memmove m d s n = moved m d s n"
  proof (cases "d = s \<or> s + n \<le> d \<or> d + n \<le> s")
    case True
    then show ?thesis
      by (cases "n = 0") (auto simp: memmove_def memcpy_moved moved_def fun_eq_iff)
  next
    case False
    then consider "d < s" | "s < d" by linarith
    then show ?thesis
    proof cases
      case 1
      then show ?thesis
        using False align_up_moved [OF 1, where n = n and m = m] moved_up [of d s n _ m]
        by (auto simp: memmove_def memcpy_moved words_up_bytes split: sum.splits)
    next
      case 2
      then show ?thesis
        using False align_down_moved [OF 2, where n = n and m = m] moved_down [OF 2, of _ n m]
        by (auto simp: memmove_def bytes_down_moved words_down_bytes split: sum.splits)
    qed
  qed
  then show ?thesis by (simp add: moved_def)
qed

text \<open>\<^verbatim>\<open>strcmp\<close> returns on any two strings, with 0 exactly if they are equal, and \<^verbatim>\<open>strncmp\<close> with 0
  exactly if their first \<open>n\<close> bytes are.\<close>

theorem strcmp_equal:
  assumes "cstr m p xs" "cstr m q ys"
  shows "(\<exists>r. strcmp m p q = Some r \<and> (r = 0 \<longleftrightarrow> xs = ys)) \<and> (strncmp m p q n = 0 \<longleftrightarrow> take n xs = take n ys)"
proof -
  have "0 \<notin> set xs" "0 \<notin> set ys" using assms by (auto simp: cstr_def)
  moreover from this have "0 \<notin> set (take n xs)" "0 \<notin> set (take n ys)" by (meson in_set_takeD)+
  ultimately show ?thesis
    using strcmp_compare [OF assms] strncmp_compare [OF assms] str_compare_0 by auto
qed

theorem strcmp_equal_witness:
  "strncmp ((\<lambda>_. 0)(1 := 104, 2 := 105, 4 := 104)) 1 4 1 = 0 \<and>
   strcmp ((\<lambda>_. 0)(1 := 104, 2 := 105, 4 := 104)) 1 4 \<noteq> Some 0"
proof -
  let ?m = "(\<lambda>_. 0)(1 := 104, 2 := 105, 4 := 104) :: mem"
  have "cstr ?m 1 [104, 105]" "cstr ?m 4 [104]" by (simp_all add: cstr_simps)
  from strcmp_equal [OF this, of 1] show ?thesis by auto
qed

end
