(* ===== verification/Cstring.thy ===== *)
theory Cstring
  imports Kstring
begin

text \<open>
  The C library's string functions: \<^verbatim>\<open>libc/src/string\<close>. Memory and strings are as in \<open>Kstring\<close>, and the
  functions whose code is the same as the kernel's are those of \<open>Kstring\<close>. A null result is \<open>None\<close>;
  for functions that may run on past the end of an unterminated string this is below another
  \<open>option\<close> whose value \<open>None\<close> is not returning. A function that writes returns the new memory.
\<close>

text \<open>The code of these functions is, line by line, that of the kernel's.\<close>

definition libc_memcpy :: "mem \<Rightarrow> nat \<Rightarrow> nat \<Rightarrow> nat \<Rightarrow> mem" where "libc_memcpy = memcpy"
definition libc_memmove :: "mem \<Rightarrow> nat \<Rightarrow> nat \<Rightarrow> nat \<Rightarrow> mem" where "libc_memmove = memmove"
definition libc_memset :: "mem \<Rightarrow> nat \<Rightarrow> u8 \<Rightarrow> nat \<Rightarrow> mem" where "libc_memset = memset"
definition libc_strlen :: "mem \<Rightarrow> nat \<Rightarrow> nat option" where "libc_strlen = strlen"
definition libc_strcmp :: "mem \<Rightarrow> nat \<Rightarrow> nat \<Rightarrow> int option" where "libc_strcmp = strcmp"
definition strcoll :: "mem \<Rightarrow> nat \<Rightarrow> nat \<Rightarrow> int option" where "strcoll m str1 str2 = libc_strcmp m str1 str2"

fun libc_memcmp :: "mem \<Rightarrow> nat \<Rightarrow> nat \<Rightarrow> nat \<Rightarrow> int" where
  "libc_memcmp m p1 p2 0 = 0"
| "libc_memcmp m p1 p2 (Suc n) =
     (if m p1 \<noteq> m p2 then (if chr (m p1) < chr (m p2) then -1 else 1)
      else libc_memcmp m (p1 + 1) (p2 + 1) n)"

definition memchr :: "mem \<Rightarrow> nat \<Rightarrow> u8 \<Rightarrow> nat \<Rightarrow> nat option" where
  "memchr m s c n = map_option (\<lambda>i. s + i) (find (\<lambda>i. m (s + i) = c) [0..<n])"

partial_function (option) stpcpy :: "mem \<Rightarrow> nat \<Rightarrow> nat \<Rightarrow> (nat \<times> mem) option" where
  [code]: "stpcpy m str1 str2 =
     (if m str2 \<noteq> 0 then stpcpy (m(str1 := m str2)) (str1 + 1) (str2 + 1)
      else Some (str1, m(str1 := 0)))"

fun stpncpy :: "mem \<Rightarrow> nat \<Rightarrow> nat \<Rightarrow> nat \<Rightarrow> nat \<times> mem" where
  "stpncpy m str1 str2 0 = (str1, m)"
| "stpncpy m str1 str2 (Suc n) =
     (if m str2 \<noteq> 0 then stpncpy (m(str1 := m str2)) (str1 + 1) (str2 + 1) n
      else (str1, memset m str1 0 (Suc n)))"

partial_function (option) strcat_loop :: "mem \<Rightarrow> nat \<Rightarrow> nat \<Rightarrow> mem option" where
  [code]: "strcat_loop m dest src =
     (let m' = m(dest := m src) in
      if m' src = 0 then Some m' else strcat_loop m' (dest + 1) (src + 1))"

definition strcat :: "mem \<Rightarrow> nat \<Rightarrow> nat \<Rightarrow> mem option" where
  "strcat m dest src = do { len \<leftarrow> strlen m dest; strcat_loop m (dest + len) src }"

partial_function (option) strchr :: "mem \<Rightarrow> nat \<Rightarrow> u8 \<Rightarrow> nat option option" where
  [code]: "strchr m str c =
     (if m str = c then Some (Some str)
      else if m str = 0 then Some None
      else strchr m (str + 1) c)"

partial_function (option) strcpy :: "mem \<Rightarrow> nat \<Rightarrow> nat \<Rightarrow> mem option" where
  [code]: "strcpy m dest src =
     (if m src \<noteq> 0 then strcpy (m(dest := m src)) (dest + 1) (src + 1) else Some (m(dest := 0)))"

text \<open>The inner loop of \<^verbatim>\<open>strcspn\<close> and \<^verbatim>\<open>strpbrk\<close>: is the byte among the characters of a string?\<close>

partial_function (option) byte_in :: "mem \<Rightarrow> u8 \<Rightarrow> nat \<Rightarrow> bool option" where
  [code]: "byte_in m c characters =
     (if m characters = 0 then Some False
      else if c = m characters then Some True
      else byte_in m c (characters + 1))"

partial_function (option) strcspn_loop :: "mem \<Rightarrow> nat \<Rightarrow> nat \<Rightarrow> nat \<Rightarrow> nat option" where
  [code]: "strcspn_loop m str characters result =
     (if m (str + result) \<noteq> 0 then do {
        found \<leftarrow> byte_in m (m (str + result)) characters;
        if found then Some result else strcspn_loop m str characters (result + 1)
      } else Some result)"

definition strcspn :: "mem \<Rightarrow> nat \<Rightarrow> nat \<Rightarrow> nat option" where
  "strcspn m str characters = strcspn_loop m str characters 0"

fun strncat_loop :: "mem \<Rightarrow> nat \<Rightarrow> nat \<Rightarrow> nat \<Rightarrow> mem" where
  "strncat_loop m dest src 0 = m(dest := 0)"
| "strncat_loop m dest src (Suc n) =
     (if m src \<noteq> 0 then strncat_loop (m(dest := m src)) (dest + 1) (src + 1) n else m(dest := 0))"

definition strncat :: "mem \<Rightarrow> nat \<Rightarrow> nat \<Rightarrow> nat \<Rightarrow> mem option" where
  "strncat m dest src n = map_option (\<lambda>d. strncat_loop m (dest + d) src n) (strlen m dest)"

fun libc_strncmp :: "mem \<Rightarrow> nat \<Rightarrow> nat \<Rightarrow> nat \<Rightarrow> int" where
  "libc_strncmp m str1 str2 0 = 0"
| "libc_strncmp m str1 str2 (Suc n) =
     (let delta = chr (m str1) - chr (m str2) in
      if delta \<noteq> 0 then delta
      else if m str1 = 0 then 0
      else libc_strncmp m (str1 + 1) (str2 + 1) n)"

fun libc_strncpy :: "mem \<Rightarrow> nat \<Rightarrow> nat \<Rightarrow> nat \<Rightarrow> mem" where
  "libc_strncpy m dest src 0 = m"
| "libc_strncpy m dest src (Suc n) =
     (let m' = m(dest := m src) in
      if m' src = 0 then m' else libc_strncpy m' (dest + 1) (src + 1) n)"

fun strnlen :: "mem \<Rightarrow> nat \<Rightarrow> nat \<Rightarrow> nat" where
  "strnlen m str 0 = 0"
| "strnlen m str (Suc n) = (if m str \<noteq> 0 then Suc (strnlen m (str + 1) n) else 0)"

partial_function (option) strpbrk :: "mem \<Rightarrow> nat \<Rightarrow> nat \<Rightarrow> nat option option" where
  [code]: "strpbrk m str1 str2 =
     (if m str1 \<noteq> 0 then do {
        found \<leftarrow> byte_in m (m str1) str2;
        if found then Some (Some str1) else strpbrk m (str1 + 1) str2
      } else Some None)"

fun strrchr_loop :: "mem \<Rightarrow> nat \<Rightarrow> u8 \<Rightarrow> nat \<Rightarrow> nat option" where
  "strrchr_loop m str c 0 = None"
| "strrchr_loop m str c (Suc len) =
     (if m (str + len) = c then Some (str + len) else strrchr_loop m str c len)"

definition strrchr :: "mem \<Rightarrow> nat \<Rightarrow> u8 \<Rightarrow> nat option option" where
  "strrchr m str c = map_option (\<lambda>len. strrchr_loop m str c len) (strlen m str)"

partial_function (option) strspn_loop :: "mem \<Rightarrow> nat \<Rightarrow> nat \<Rightarrow> nat \<Rightarrow> nat option" where
  [code]: "strspn_loop m str1 str2 len =
     (if m str1 \<noteq> 0 then do {
        p \<leftarrow> strchr m str2 (m str1);
        if p = None then Some len else strspn_loop m (str1 + 1) str2 (len + 1)
      } else Some len)"

definition strspn :: "mem \<Rightarrow> nat \<Rightarrow> nat \<Rightarrow> nat option" where
  "strspn m str1 str2 = strspn_loop m str1 str2 0"

partial_function (option) strstr :: "mem \<Rightarrow> nat \<Rightarrow> nat \<Rightarrow> nat option option" where
  [code]: "strstr m haystack needle =
     (if m haystack \<noteq> 0 then
        (if m haystack = m needle then do {
           len \<leftarrow> strlen m needle;
           if libc_strncmp m haystack needle len = 0 then Some (Some haystack)
           else strstr m (haystack + 1) needle
         } else strstr m (haystack + 1) needle)
      else Some None)"

text \<open>\<^verbatim>\<open>strtok_r\<close>: the argument 0 is the null pointer. The result is the token, the new save pointer and the
  memory.\<close>

definition strtok_r :: "mem \<Rightarrow> nat \<Rightarrow> nat \<Rightarrow> nat \<Rightarrow> (nat option \<times> nat \<times> mem) option" where
  "strtok_r m str separators saveptr = do {
     let str = (if str = 0 then saveptr else str);
     n \<leftarrow> strspn m str separators;
     let str = str + n;
     if m str = 0 then Some (None, str, m)
     else do {
       let token = str;
       p \<leftarrow> strpbrk m token separators;
       case p of
         None \<Rightarrow> do {
           e \<leftarrow> strchr m token 0;
           Some (Some token, (case e of None \<Rightarrow> 0 | Some e \<Rightarrow> e), m)
         }
       | Some p \<Rightarrow> Some (Some token, p + 1, m(p := 0))
     }
   }"

text \<open>\<^verbatim>\<open>strtok\<close> keeps the save pointer in a static variable.\<close>

definition strtok :: "mem \<Rightarrow> nat \<Rightarrow> nat \<Rightarrow> nat \<Rightarrow> (nat option \<times> nat \<times> mem) option" where
  "strtok m str separators static_next =
     strtok_r m str separators (if str \<noteq> 0 then 0 else static_next)"

fun strxfrm :: "mem \<Rightarrow> nat \<Rightarrow> nat \<Rightarrow> nat \<Rightarrow> nat \<Rightarrow> nat \<times> mem" where
  "strxfrm m dest src i 0 = (i, m)"
| "strxfrm m dest src i (Suc k) =
     (if m src \<noteq> 0 then strxfrm (m(dest := m src)) (dest + 1) (src + 1) (i + 1) k
      else (i, m(dest := 0)))"

section \<open>Searching\<close>

lemma cstr_drop: "cstr m p xs \<Longrightarrow> n \<le> length xs \<Longrightarrow> cstr m (p + n) (drop n xs)"
proof (induction n arbitrary: p xs)
  case (Suc n)
  then obtain x ys where "xs = x # ys" by (cases xs) auto
  then show ?case using Suc.IH [of "Suc p" ys] Suc.prems by (simp add: cstr_simps)
qed simp

lemma cstr_nonzero: "cstr m p xs \<Longrightarrow> 0 \<notin> set xs"
  by (simp add: cstr_def)

lemma byte_in_cstr: "cstr m q ys \<Longrightarrow> c \<noteq> 0 \<Longrightarrow> byte_in m c q = Some (c \<in> set ys)"
  by (induction ys arbitrary: q) (subst byte_in.simps, auto simp: cstr_simps)+

lemma strchr_cstr:
  "cstr m q ys \<Longrightarrow> strchr m q c =
     Some (if c \<in> set ys \<or> c = 0 then Some (q + length (takeWhile (\<lambda>y. y \<noteq> c) ys)) else None)"
  by (induction ys arbitrary: q) (subst strchr.simps, auto simp: cstr_simps)+

lemma strspn_loop_cstr:
  "cstr m p xs \<Longrightarrow> cstr m q ys \<Longrightarrow>
   strspn_loop m p q n = Some (n + length (takeWhile (\<lambda>x. x \<in> set ys) xs))"
  by (induction xs arbitrary: p n) (subst strspn_loop.simps, auto simp: cstr_simps strchr_cstr)+

lemma strspn_cstr:
  "cstr m p xs \<Longrightarrow> cstr m q ys \<Longrightarrow> strspn m p q = Some (length (takeWhile (\<lambda>x. x \<in> set ys) xs))"
  by (simp add: strspn_def strspn_loop_cstr)

lemma strcspn_loop_cstr:
  "cstr m (p + n) xs \<Longrightarrow> cstr m q ys \<Longrightarrow>
   strcspn_loop m p q n = Some (n + length (takeWhile (\<lambda>x. x \<notin> set ys) xs))"
  by (induction xs arbitrary: n) (subst strcspn_loop.simps, auto simp: cstr_simps byte_in_cstr)+

lemma strcspn_cstr:
  "cstr m p xs \<Longrightarrow> cstr m q ys \<Longrightarrow> strcspn m p q = Some (length (takeWhile (\<lambda>x. x \<notin> set ys) xs))"
  by (simp add: strcspn_def strcspn_loop_cstr)

lemma strpbrk_cstr:
  "cstr m p xs \<Longrightarrow> cstr m q ys \<Longrightarrow>
   strpbrk m p q = Some (if \<exists>x\<in>set xs. x \<in> set ys
     then Some (p + length (takeWhile (\<lambda>x. x \<notin> set ys) xs)) else None)"
  by (induction xs arbitrary: p) (subst strpbrk.simps, auto simp: cstr_simps byte_in_cstr)+

lemma strnlen_cstr: "cstr m p xs \<Longrightarrow> strnlen m p n = min n (length xs)"
proof (induction n arbitrary: p xs)
  case (Suc n)
  then show ?case using Suc.IH [of "Suc p" "tl xs"] by (cases xs) (auto simp: cstr_simps)
qed simp

lemma libc_strncmp_eq: "libc_strncmp m p q n = strncmp m p q n"
  by (induction m p q n rule: libc_strncmp.induct) (auto simp: chr_inj)

lemma strcpy_cstr:
  assumes "cstr m src xs" "{dest..dest + length xs} \<inter> {src..src + length xs} = {}"
  shows "\<exists>m'. strcpy m dest src = Some m' \<and> cstr m' dest xs \<and> cstr m' src xs \<and>
    (\<forall>a. a \<notin> {dest..dest + length xs} \<longrightarrow> m' a = m a)"
  using assms
proof (induction xs arbitrary: m dest src)
  case Nil
  then show ?case by (subst strcpy.simps) (auto simp: cstr_simps)
next
  case (Cons x xs)
  let ?m = "m(dest := m src)"
  have src: "m src = x" "x \<noteq> 0" "cstr m (Suc src) xs" using Cons.prems(1) by (auto simp: cstr_simps)
  have dis: "{Suc dest..Suc dest + length xs} \<inter> {Suc src..Suc src + length xs} = {}" "dest \<notin> {Suc src..Suc src + length xs}"
      "src \<notin> {Suc dest..Suc dest + length xs}" "dest \<noteq> src"
    using Cons.prems(2) by (auto simp: disjoint_iff)
  have "cstr ?m (Suc src) xs" using src(3) dis(2) by (auto simp: cstr_def)
  from Cons.IH [OF this dis(1)] obtain m' where m': "strcpy ?m (Suc dest) (Suc src) = Some m'"
      "cstr m' (Suc dest) xs" "cstr m' (Suc src) xs" "\<forall>a. a \<notin> {Suc dest..Suc dest + length xs} \<longrightarrow> m' a = ?m a"
    by blast
  have "m' dest = x" "m' src = x" using m'(4) dis(3,4) src(1) by auto
  then show ?case
    using m' src by (subst strcpy.simps) (auto simp: cstr_simps)
qed

fun first_occurrence :: "u8 list \<Rightarrow> u8 list \<Rightarrow> nat option" where
  "first_occurrence ys [] = None"
| "first_occurrence ys (x # xs) =
     (if take (length ys) (x # xs) = ys then Some 0 else map_option Suc (first_occurrence ys xs))"

lemma strstr_cstr:
  assumes "cstr m p xs" "cstr m q ys"
  shows "strstr m p q = Some (if ys = [] then None else map_option (\<lambda>i. p + i) (first_occurrence ys xs))"
  using assms(1)
proof (induction xs arbitrary: p)
  case Nil
  then show ?case by (subst strstr.simps) (simp add: cstr_simps)
next
  case (Cons x xs)
  have z: "0 \<notin> set (x # xs)" "0 \<notin> set ys" using Cons.prems assms(2) by (auto dest: cstr_nonzero)
  then have z': "0 \<notin> set (take n (x # xs))" for n by (meson in_set_takeD)
  have cmp: "libc_strncmp m p q (length ys) = 0 \<longleftrightarrow> take (length ys) (x # xs) = ys"
    using strncmp_compare [OF Cons.prems assms(2), of "length ys"] str_compare_0 [OF z' z(2)]
    by (simp add: libc_strncmp_eq)
  have IH: "strstr m (Suc p) q = Some (if ys = [] then None else map_option (\<lambda>i. Suc p + i) (first_occurrence ys xs))"
    using Cons by (simp add: cstr_simps)
  have x: "m p = x" "x \<noteq> 0" using Cons.prems by (auto simp: cstr_simps)
  show ?case
  proof (cases ys)
    case Nil
    then show ?thesis using IH x assms(2) by (subst strstr.simps) (simp add: cstr_simps)
  next
    case (Cons y ys')
    have "m q = y" using assms(2) Cons by (simp add: cstr_simps)
    moreover have "take (length ys) (x # xs) \<noteq> ys" if "x \<noteq> y" using that Cons by simp
    ultimately show ?thesis
      using IH x cmp Cons strlen_cstr [OF assms(2)]
      by (subst strstr.simps) (cases "first_occurrence ys xs", auto)
  qed
qed

section \<open>Error messages\<close>

definition EOVERFLOW :: int where "EOVERFLOW = 20"
definition ERANGE :: int where "ERANGE = 21"

text \<open>\<^verbatim>\<open>strerror\<close>: the message, and the value \<^verbatim>\<open>errno\<close> is set to, if any.\<close>

definition strerror :: "int \<Rightarrow> string \<times> int option" where
  "strerror errnum =
     (case map_of
        [(0, ''No error''), (EAGAIN, ''Resource temporarily unavailable''), (EBADF, ''Bad file descriptor''),
         (ECHILD, ''No child processes''), (EEXIST, ''File exists''), (EFAULT, ''Bad address''),
         (EIO, ''I/O error''), (EINVAL, ''Invalid argument''), (EISDIR, ''Is a directory''),
         (EMFILE, ''Too many files open in system''), (ENAMETOOLONG, ''Name too long''),
         (ENOENT, ''No such file or directory''), (ENOEXEC, ''Executable file format error''),
         (ENOMEM, ''Not enough space''), (ENOSYS, ''Syscall not supported''), (ENOTDIR, ''Not a directory''),
         (ENOTTY, ''Unsupported ioctl for device''), (EPERM, ''Operation not permitted''),
         (ESPIPE, ''Invalid seek''), (EOVERFLOW, ''Value too large for supplied data type''),
         (ERANGE, ''Result too large'')] errnum of
        Some msg \<Rightarrow> (msg, None)
      | None \<Rightarrow> (''Unknown error'', Some EINVAL))"

section \<open>Properties\<close>

lemma cstr_cut:
  assumes "cstr m p xs" "n < length xs"
  shows "cstr (m(p + n := 0)) p (take n xs)" "cstr (m(p + n := 0)) (p + Suc n) (drop (Suc n) xs)"
proof -
  show "cstr (m(p + n := 0)) p (take n xs)"
    using assms by (auto simp: cstr_def min_def dest: in_set_takeD)
  have "cstr m (p + Suc n) (drop (Suc n) xs)" by (rule cstr_drop) (use assms in auto)
  then show "cstr (m(p + n := 0)) (p + Suc n) (drop (Suc n) xs)" by (auto simp: cstr_def)
qed

lemma length_takeWhile_less: "\<exists>x\<in>set xs. \<not> P x \<Longrightarrow> length (takeWhile P xs) < length xs"
  by (induction xs) auto

text \<open>C34: \<^verbatim>\<open>strtok_r\<close> on a string skips leading separators and, if anything is left, returns a pointer to a
  string that is the longest run without separators, terminates it in place, and leaves the save
  pointer at the rest of the string; if nothing is left it returns null. No other byte changes.\<close>

theorem strtok_r_token:
  assumes "cstr m p xs" "cstr m q ys" "p \<noteq> 0"
  shows "let rest = dropWhile (\<lambda>x. x \<in> set ys) xs; tok = takeWhile (\<lambda>x. x \<notin> set ys) rest in
    if rest = [] then strtok_r m p q sv = Some (None, p + length xs, m)
    else \<exists>t sv' m'. strtok_r m p q sv = Some (Some t, sv', m') \<and> t = p + (length xs - length rest) \<and>
      cstr m' t tok \<and> cstr m' sv' (drop (Suc (length tok)) rest) \<and>
      (\<forall>a. a \<noteq> t + length tok \<longrightarrow> m' a = m a)"
proof -
  define rest where "rest = dropWhile (\<lambda>x. x \<in> set ys) xs"
  define n where "n = length (takeWhile (\<lambda>x. x \<in> set ys) xs)"
  define tok where "tok = takeWhile (\<lambda>x. x \<notin> set ys) rest"
  have rest: "rest = drop n xs" by (simp add: rest_def n_def dropWhile_eq_drop)
  have n: "n \<le> length xs" "length xs - length rest = n"
    using length_takeWhile_le [of "\<lambda>x. x \<in> set ys" xs] by (auto simp: n_def rest)
  have r: "cstr m (p + n) rest" unfolding rest by (rule cstr_drop [OF assms(1) n(1)])
  note sp = strspn_cstr [OF assms(1,2), folded n_def]
  note br = strpbrk_cstr [OF r assms(2), folded tok_def]
  show ?thesis
  proof (cases "rest = []")
    case True
    then have "m (p + n) = 0" "n = length xs" using r n by (auto simp: cstr_simps rest)
    then show ?thesis using True sp assms(3) by (simp add: strtok_r_def rest_def)
  next
    case False
    then have nz: "m (p + n) \<noteq> 0" using r by (cases rest) (auto simp: cstr_simps)
    show ?thesis
    proof (cases "\<exists>x\<in>set rest. x \<in> set ys")
      case True
      have lt: "length tok < length rest" unfolding tok_def by (rule length_takeWhile_less) (use True in auto)
      have tk: "take (length tok) rest = tok" unfolding tok_def by (simp add: takeWhile_eq_take [symmetric])
      note cut = cstr_cut [OF r lt, unfolded tk]
      have "strtok_r m p q sv = Some (Some (p + n), p + n + length tok + 1, m(p + n + length tok := 0))"
        using sp br True nz assms(3) by (simp add: strtok_r_def Let_def)
      then show ?thesis
        using False cut n(2) by (auto simp: Let_def rest_def [symmetric] tok_def [symmetric])
    next
      case F: False
      then have tok: "tok = rest" unfolding tok_def by (simp add: takeWhile_eq_all_conv)
      have tw: "takeWhile (\<lambda>y. y \<noteq> 0) rest = rest"
        using cstr_nonzero [OF r] by (auto simp: takeWhile_eq_all_conv)
      have "strchr m (p + n) 0 = Some (Some (p + n + length rest))"
        using strchr_cstr [OF r, of 0] unfolding tw by simp
      then have "strtok_r m p q sv = Some (Some (p + n), p + n + length rest, m)"
        using sp br F nz assms(3) by (simp add: strtok_r_def Let_def)
      moreover have "cstr m (p + n + length rest) []" using r by (simp add: cstr_def)
      ultimately show ?thesis
        using False r n(2) tok by (auto simp: Let_def rest_def [symmetric] tok_def [symmetric])
    qed
  qed
qed

theorem strtok_r_token_witness:
  "\<exists>t sv' m'. strtok_r ((\<lambda>_. 0)(1 := 32, 2 := 97, 3 := 98, 4 := 32, 5 := 99, 9 := 32)) 1 9 0 = Some (Some t, sv', m') \<and>
     cstr m' t [97, 98] \<and> cstr m' sv' [99]"
proof -
  let ?m = "(\<lambda>_. 0)(1 := 32, 2 := 97, 3 := 98, 4 := 32, 5 := 99, 9 := 32) :: mem"
  have "cstr ?m 1 [32, 97, 98, 32, 99]" "cstr ?m 9 [32]" by (simp_all add: cstr_simps)
  from strtok_r_token [OF this, of 0] show ?thesis by auto
qed

end
