(* ===== verification/Hashmap.thy ===== *)
theory Hashmap
  imports Kstring "HOL-Library.Sublist"
begin

text \<open>
  The kernel's hash map from strings to pointers: \<^verbatim>\<open>kernel/src/utils/hashmap.c\<close>. Keys are strings
  without their terminating 0. The chain of a bucket, a singly linked list that no other structure
  points into, is a list; \<^verbatim>\<open>strncmp(a, b, n) == 0\<close> is \<open>take n a = take n b\<close> (theorem \<open>strcmp_equal\<close> of
  \<open>Kstring\<close>). A null map is \<open>None\<close>. Destroying a map only frees memory and is left out.
\<close>

record 'v hashmap =
  hm_entries :: "(u8 list \<times> 'v) list list"

abbreviation hm_size :: "'v hashmap \<Rightarrow> nat" where
  "hm_size m \<equiv> length (hm_entries m)"

definition hash_function :: "u8 list \<Rightarrow> u32" where
  "hash_function key = fold (\<lambda>c hash. ucast c + push_bit 6 hash + push_bit 16 hash - hash) key 0"

definition hashmap_create :: "nat \<Rightarrow> 'v hashmap" where
  "hashmap_create sz = \<lparr>hm_entries = replicate sz []\<rparr>"

definition bucket_of :: "'v hashmap \<Rightarrow> u8 list \<Rightarrow> nat" where
  "bucket_of m key = unat (hash_function key) mod hm_size m"

fun chain_set :: "u8 list \<Rightarrow> nat \<Rightarrow> 'v \<Rightarrow> (u8 list \<times> 'v) list \<Rightarrow> (u8 list \<times> 'v) list" where
  "chain_set key key_size v [] = [(key, v)]"
| "chain_set key key_size v ((k, w) # es) =
     (if take key_size k = take key_size key then (k, v) # es else (k, w) # chain_set key key_size v es)"

fun chain_get :: "u8 list \<Rightarrow> nat \<Rightarrow> (u8 list \<times> 'v) list \<Rightarrow> 'v option" where
  "chain_get key key_size [] = None"
| "chain_get key key_size ((k, w) # es) =
     (if take key_size k = take key_size key then Some w else chain_get key key_size es)"

definition hashmap_set :: "'v hashmap option \<Rightarrow> u8 list \<Rightarrow> nat \<Rightarrow> 'v \<Rightarrow> bool \<times> 'v hashmap option" where
  "hashmap_set hm key key_size v =
     (case hm of
        None \<Rightarrow> (False, None)
      | Some m \<Rightarrow>
          let h = bucket_of m key in
          (True, Some (m\<lparr>hm_entries := (hm_entries m)[h := chain_set key key_size v (hm_entries m ! h)]\<rparr>)))"

definition hashmap_get :: "'v hashmap option \<Rightarrow> u8 list \<Rightarrow> nat \<Rightarrow> 'v option" where
  "hashmap_get hm key key_size =
     (case hm of
        None \<Rightarrow> None
      | Some m \<Rightarrow> chain_get key key_size (hm_entries m ! bucket_of m key))"

definition hashmap_remove :: "'v hashmap option \<Rightarrow> u8 list \<Rightarrow> nat \<Rightarrow> bool" where
  "hashmap_remove hm key key_size = True"

text \<open>All callers pass the length of the key.\<close>

definition map_get :: "'v hashmap option \<Rightarrow> u8 list \<Rightarrow> 'v option" where
  "map_get hm key = hashmap_get hm key (length key)"

definition map_put :: "'v hashmap option \<Rightarrow> u8 list \<Rightarrow> 'v \<Rightarrow> 'v hashmap option" where
  "map_put hm key v = snd (hashmap_set hm key (length key) v)"

section \<open>Chains\<close>

lemma take_length_prefix: "take (length key) k = key \<longleftrightarrow> prefix key k"
  by (auto simp: prefix_def) (metis append_take_drop_id)

lemma chain_get_find:
  "chain_get key (length key) es = map_option snd (find (\<lambda>(k, w). prefix key k) es)"
  by (induction es) (auto simp: take_length_prefix)

lemma chain_get_set_same: "chain_get key (length key) (chain_set key (length key) v es) = Some v"
  by (induction es) (auto simp: take_length_prefix)

lemma chain_get_set_other:
  assumes "\<not> prefix key key'" "\<not> prefix key' key"
  shows "chain_get key' (length key') (chain_set key (length key) v es) = chain_get key' (length key') es"
  using assms by (induction es) (auto simp: take_length_prefix dest: prefix_same_cases)

section \<open>The interface of a string map\<close>

text \<open>
  What the clients (directories, the table of file systems, the command line) rely on: a value that
  was set is found, and setting one key does not change what is found for a key it does not
  conflict with.
\<close>

locale string_map =
  fixes get :: "'m \<Rightarrow> 'k \<Rightarrow> 'v option"
    and put :: "'m \<Rightarrow> 'k \<Rightarrow> 'v \<Rightarrow> 'm"
    and good :: "'m \<Rightarrow> bool"
    and conflict :: "'k \<Rightarrow> 'k \<Rightarrow> bool"
  assumes get_put_same: "good m \<Longrightarrow> get (put m k v) k = Some v"
    and get_put_other: "good m \<Longrightarrow> k \<noteq> k' \<Longrightarrow> \<not> conflict k k' \<Longrightarrow> get (put m k v) k' = get m k'"
    and good_put: "good m \<Longrightarrow> good (put m k v)"
begin

lemma get_put_list_other:
  "good m \<Longrightarrow> k \<notin> fst ` set kvs \<Longrightarrow> \<forall>k'\<in>fst ` set kvs. \<not> conflict k' k \<Longrightarrow>
   get (fold (\<lambda>(k, v) m. put m k v) kvs m) k = get m k"
  by (induction kvs arbitrary: m) (auto simp: good_put get_put_other)

lemma get_put_list:
  "good m \<Longrightarrow> distinct (map fst kvs) \<Longrightarrow>
   \<forall>k\<in>fst ` set kvs. \<forall>k'\<in>fst ` set kvs. k \<noteq> k' \<longrightarrow> \<not> conflict k k' \<Longrightarrow> (k, v) \<in> set kvs \<Longrightarrow>
   get (fold (\<lambda>(k, v) m. put m k v) kvs m) k = Some v"
proof (induction kvs arbitrary: m)
  case Nil
  then show ?case by simp
next
  case (Cons kv kvs)
  obtain k1 v1 where kv: "kv = (k1, v1)" by force
  show ?case
  proof (cases "(k, v) = kv")
    case True
    then have "k \<notin> fst ` set kvs" "\<forall>k'\<in>fst ` set kvs. \<not> conflict k' k"
      using Cons.prems(2,3) by (auto simp: kv)
    then show ?thesis
      using True get_put_list_other [of "put m k v" k kvs] good_put get_put_same Cons.prems(1)
      by (simp add: kv)
  next
    case False
    then show ?thesis using Cons good_put by (auto simp: kv)
  qed
qed

end

definition hm_good :: "'v hashmap option \<Rightarrow> bool" where
  "hm_good hm \<longleftrightarrow> (\<exists>m. hm = Some m \<and> 0 < hm_size m)"

definition key_conflict :: "u8 list \<Rightarrow> u8 list \<Rightarrow> bool" where
  "key_conflict k k' \<longleftrightarrow> prefix k k' \<or> prefix k' k"

lemma map_get_put_same: "hm_good m \<Longrightarrow> map_get (map_put m k v) k = Some v"
  by (auto simp: hm_good_def map_get_def map_put_def hashmap_set_def hashmap_get_def Let_def
      bucket_of_def chain_get_set_same)

lemma map_get_put_other:
  assumes "hm_good m" "\<not> key_conflict k k'"
  shows "map_get (map_put m k v) k' = map_get m k'"
  using assms
  by (cases "bucket_of (the m) k = bucket_of (the m) k'")
    (auto simp: hm_good_def map_get_def map_put_def hashmap_set_def hashmap_get_def Let_def
      bucket_of_def chain_get_set_other key_conflict_def)

lemma hm_good_put: "hm_good m \<Longrightarrow> hm_good (map_put m k v)"
  by (auto simp: hm_good_def map_put_def hashmap_set_def Let_def)

interpretation dict: string_map map_get map_put hm_good key_conflict
  by unfold_locales (simp_all add: map_get_put_same map_get_put_other hm_good_put)

section \<open>Properties\<close>

text \<open>C40: a hash map holds every key of a list of entries with their values, provided no key of the
  list is the beginning of another.\<close>

theorem hashmap_holds_entries:
  assumes "0 < sz" "distinct (map fst kvs)"
    "\<forall>k\<in>fst ` set kvs. \<forall>k'\<in>fst ` set kvs. k \<noteq> k' \<longrightarrow> \<not> prefix k k'" "(k, v) \<in> set kvs"
  shows "map_get (fold (\<lambda>(k, v) m. map_put m k v) kvs (Some (hashmap_create sz))) k = Some v"
  by (rule dict.get_put_list) (use assms in \<open>auto simp: hm_good_def hashmap_create_def key_conflict_def\<close>)

theorem hashmap_holds_entries_witness:
  "map_get (fold (\<lambda>(k, v) m. map_put m k v) [([97], 1 :: nat), ([98, 97], 2)] (Some (hashmap_create 20))) [98, 97]
     = Some 2"
  using hashmap_holds_entries [of 20 "[([97], 1 :: nat), ([98, 97], 2)]" "[98, 97]" 2] by simp

text \<open>The comparison stops at the length of the given key, so a key and a key that extends it are
  not kept apart when they fall into the same bucket: looking up the shorter one finds the longer
  one, and setting it replaces the value of the longer one.\<close>

theorem hashmap_prefix_confusion:
  assumes "prefix k k'" "k \<noteq> k'" "bucket_of m k = bucket_of m k'" "bucket_of m k < hm_size m"
    "hm_entries m ! bucket_of m k = []"
  shows "map_get (map_put (Some m) k' v) k = Some v \<and>
    map_get (map_put (map_put (Some m) k' v) k w) k' = Some w"
  using assms
  by (auto simp: map_get_def map_put_def hashmap_get_def hashmap_set_def Let_def bucket_of_def
      take_length_prefix)

theorem hashmap_prefix_confusion_witness:
  "map_get (map_put (Some (hashmap_create 1)) [97, 98] (7 :: nat)) [97] = Some 7"
proof -
  have "bucket_of (hashmap_create 1 :: nat hashmap) k = 0" for k
    by (simp add: bucket_of_def hashmap_create_def)
  then show ?thesis
    using hashmap_prefix_confusion [of "[97]" "[97, 98]" "hashmap_create 1 :: nat hashmap" 7]
    by (auto simp: hashmap_create_def)
qed

end
