(* ===== verification/Vfs.thy ===== *)
theory Vfs
  imports Hashmap Spinlock
begin

text \<open>
  The virtual file system and the file systems below it: \<^verbatim>\<open>kernel/src/fs/vfs.c\<close>, \<^verbatim>\<open>tmpfs.c\<close>, \<^verbatim>\<open>devfs.c\<close>. Nodes
  live in a store \<open>nodes\<close>, a pointer to a node is its number there and 0 is the null pointer; new
  nodes get the next unused number. A function pointer of a node or of a file system is the name of
  the set of functions it belongs to (\<open>file_ops\<close>, \<open>mount_fn\<close>). Names and paths are strings without the
  terminating 0.

  The allocator is seen as a number \<open>mem_left\<close> of allocations that succeed before it returns null;
  allocations whose result the code does not test (copies of names, hash maps and their entries) are
  taken to succeed. The value \<open>None\<close> stands for not returning: following a null pointer, a lock that is
  never released, a cycle of links. Sizes and offsets are 64-bit words, read signed where the code
  compares an \<^verbatim>\<open>off_t\<close>.
\<close>

definition SLASH :: u8 where "SLASH = 47"

definition S_IFMT :: u32 where "S_IFMT = 0x0f000"
definition S_IFBLK :: u32 where "S_IFBLK = 0x01000"
definition S_IFCHR :: u32 where "S_IFCHR = 0x08000"
definition S_IFREG :: u32 where "S_IFREG = 0x03000"
definition S_IFDIR :: u32 where "S_IFDIR = 0x05000"

definition S_ISBLK :: "u32 \<Rightarrow> bool" where "S_ISBLK m \<longleftrightarrow> m AND S_IFMT = S_IFBLK"
definition S_ISCHR :: "u32 \<Rightarrow> bool" where "S_ISCHR m \<longleftrightarrow> m AND S_IFMT = S_IFCHR"
definition S_ISREG :: "u32 \<Rightarrow> bool" where "S_ISREG m \<longleftrightarrow> m AND S_IFMT = S_IFREG"
definition S_ISDIR :: "u32 \<Rightarrow> bool" where "S_ISDIR m \<longleftrightarrow> m AND S_IFMT = S_IFDIR"

definition makedev :: "u16 \<Rightarrow> u16 \<Rightarrow> u16" where
  "makedev maj mnr = (push_bit 8 maj AND 0xff00) OR (mnr AND 0x00ff)"

record timespec =
  tv_sec :: int
  tv_nsec :: int

record stat =
  st_dev :: u16
  st_ino :: u64
  st_mode :: u32
  st_rdev :: u16
  st_size :: u64
  st_blksize :: u64
  st_blocks :: u64
  st_atim :: timespec
  st_mtim :: timespec
  st_ctim :: timespec

datatype file_ops = StubOps | TmpfsOps | DevOps nat

record tmp_node_metadata =
  tm_capacity :: u64
  tm_data :: "nat \<Rightarrow> u8"

record vfs_node =
  vn_name :: cstring
  vn_stat :: stat
  vn_refcount :: u64
  vn_parent :: nat
  vn_mountpoint :: nat
  vn_link :: nat
  vn_children :: "nat hashmap option"
  vn_fs :: nat
  vn_private :: "tmp_node_metadata option"
  vn_lock :: u64
  vn_ops :: file_ops

datatype mount_fn = tmpfs_mount_fn | devfs_mount_fn

record vfs_filesystem =
  fs_create :: "mount_fn option"
  inode_counter :: u64
  fs_dev :: u16

record vfs =
  nodes :: "nat \<Rightarrow> vfs_node"
  next_node :: nat
  vfs_root :: nat
  vfs_filesystems :: "mount_fn hashmap option"
  filesystems :: "nat \<Rightarrow> vfs_filesystem"
  next_fs :: nat
  tmpfs_minor :: u8
  devfs_root :: nat
  time_realtime :: timespec
  mem_left :: nat
  stale :: "nat \<Rightarrow> u8"

definition zero_time :: timespec where "zero_time = \<lparr>tv_sec = 0, tv_nsec = 0\<rparr>"

definition zero_stat :: stat where
  "zero_stat = \<lparr>st_dev = 0, st_ino = 0, st_mode = 0, st_rdev = 0, st_size = 0, st_blksize = 0, st_blocks = 0,
     st_atim = zero_time, st_mtim = zero_time, st_ctim = zero_time\<rparr>"

definition upd_node :: "nat \<Rightarrow> (vfs_node \<Rightarrow> vfs_node) \<Rightarrow> 'a vfs_scheme \<Rightarrow> 'a vfs_scheme" where
  "upd_node n f s = s\<lparr>nodes := (nodes s)(n := f (nodes s n))\<rparr>"

definition take_mem :: "'a vfs_scheme \<Rightarrow> bool \<times> 'a vfs_scheme" where
  "take_mem s = (if mem_left s = 0 then (False, s) else (True, s\<lparr>mem_left := mem_left s - 1\<rparr>))"

text \<open>The stubs a node has unless its file system replaces them.\<close>

definition read_stub :: int where "read_stub = - EPERM"
definition write_stub :: int where "write_stub = - EPERM"
definition ioctl_stub :: int where "ioctl_stub = - ENOTTY"
definition truncate_stub :: int where "truncate_stub = - EPERM"
definition sync_stub :: int where "sync_stub = 0"

section \<open>Nodes and paths\<close>

definition vfs_create_node :: "nat \<Rightarrow> nat \<Rightarrow> cstring \<Rightarrow> bool \<Rightarrow> 'a vfs_scheme \<Rightarrow> nat \<times> 'a vfs_scheme" where
  "vfs_create_node fs parent name is_dir s =
     (case take_mem s of
        (False, s) \<Rightarrow> (0, s)
      | (True, s) \<Rightarrow>
          (next_node s,
           s\<lparr>next_node := Suc (next_node s),
             nodes := (nodes s)(next_node s :=
               \<lparr>vn_name = name, vn_stat = zero_stat, vn_refcount = 0, vn_parent = parent, vn_mountpoint = 0,
                vn_link = 0, vn_children = (if is_dir then Some (hashmap_create 128) else None), vn_fs = fs,
                vn_private = None, vn_lock = 0, vn_ops = StubOps\<rparr>)\<rparr>))"

partial_function (option) vfs_reduce_node :: "'a vfs_scheme \<Rightarrow> nat \<Rightarrow> nat option" where
  [code]: "vfs_reduce_node s node =
     (if node = 0 then None
      else if vn_link (nodes s node) \<noteq> 0 then vfs_reduce_node s (vn_link (nodes s node))
      else if vn_mountpoint (nodes s node) \<noteq> 0 then vfs_reduce_node s (vn_mountpoint (nodes s node))
      else Some node)"

definition is_dir :: "'a vfs_scheme \<Rightarrow> nat \<Rightarrow> bool" where
  "is_dir s n \<longleftrightarrow> S_ISDIR (st_mode (vn_stat (nodes s n)))"

definition create_dotentries :: "nat \<Rightarrow> nat \<Rightarrow> 'a vfs_scheme \<Rightarrow> 'a vfs_scheme option" where
  "create_dotentries parent node s =
     (let fs = vn_fs (nodes s node);
          (dot, s) = vfs_create_node fs node (lit ''.'') False s;
          (dotdot, s) = vfs_create_node fs node (lit ''..'') False s
      in if dot = 0 \<or> dotdot = 0 then None
         else
           let s = upd_node dot (\<lambda>n. n\<lparr>vn_link := node\<rparr>) s;
               s = upd_node dotdot (\<lambda>n. n\<lparr>vn_link := parent\<rparr>) s;
               s = upd_node node (\<lambda>n. n\<lparr>vn_children := map_put (vn_children n) (lit ''.'') dot\<rparr>) s
           in Some (upd_node node (\<lambda>n. n\<lparr>vn_children := map_put (vn_children n) (lit ''..'') dotdot\<rparr>) s))"

text \<open>
  The copy of a path component: a block of at most 2048 bytes is cleared by the allocator, so the
  copy is terminated; a larger block is not, and the name runs on into what the memory held.
\<close>

definition elem_str :: "'a vfs_scheme \<Rightarrow> cstring \<Rightarrow> cstring" where
  "elem_str s elem =
     (if length elem < 2048 then elem
      else elem @ takeWhile (\<lambda>b. b \<noteq> 0) (map (stale s) [0..<8192]))"

text \<open>
  The loop of \<^verbatim>\<open>path2node\<close>, on the part \<open>rest\<close> of the path that starts at the current index. The result
  is the pair of parent and node, with 0 for null.
\<close>

definition next_rest :: "cstring \<Rightarrow> cstring" where
  "next_rest rest = dropWhile (\<lambda>c. c = SLASH) (dropWhile (\<lambda>c. c \<noteq> SLASH) rest)"

lemma length_next_rest: "rest \<noteq> [] \<Longrightarrow> length (next_rest rest) < length rest"
proof -
  assume "rest \<noteq> []"
  then obtain c cs where r: "rest = c # cs" by (cases rest) auto
  have "length (dropWhile P (dropWhile Q cs)) < length (c # cs)" for P Q
    using length_dropWhile_le [of P "dropWhile Q cs"] length_dropWhile_le [of Q cs] by simp
  moreover have "length (dropWhile P cs) < length (c # cs)" for P
    using length_dropWhile_le [of P cs] by simp
  ultimately show ?thesis by (auto simp: next_rest_def r)
qed

function path_loop :: "'a vfs_scheme \<Rightarrow> bool \<Rightarrow> nat \<Rightarrow> cstring \<Rightarrow> (nat \<times> nat) option" where
  "path_loop s ask_for_dir current rest = do {
     let elem = takeWhile (\<lambda>c. c \<noteq> SLASH) rest;
     let rest' = next_rest rest;
     current \<leftarrow> vfs_reduce_node s current;
     case map_get (vn_children (nodes s current)) (elem_str s elem) of
       None \<Rightarrow> Some (if rest' = [] then (current, 0) else (0, 0))
     | Some new_node \<Rightarrow> do {
         new_node \<leftarrow> vfs_reduce_node s new_node;
         if rest' = [] then
           Some (if ask_for_dir \<and> \<not> is_dir s new_node then (current, 0) else (current, new_node))
         else if \<not> is_dir s new_node then Some (0, 0)
         else path_loop s ask_for_dir new_node rest'
       }
   }"
  by pat_completeness auto
termination
proof (relation "measure (\<lambda>(s, ask, c, rest). length rest)")
  fix ask :: bool and rest' rest :: cstring
  show "wf (measure (\<lambda>(s :: 'a vfs_scheme, ask :: bool, c :: nat, rest :: cstring). length rest))" by simp
next
  fix s :: "'a vfs_scheme" and ask :: bool and current :: nat and rest elem rest' :: cstring
    and cur v new :: nat
  assume "rest' = next_rest rest" "rest' \<noteq> []"
  then show "((s, ask, new, rest'), s, ask, current, rest) \<in>
      measure (\<lambda>(s, ask, c, rest). length rest)"
    using length_next_rest [of rest] by (cases "rest = []") (auto simp: next_rest_def)
qed

declare path_loop.simps [simp del]

definition path2node :: "'a vfs_scheme \<Rightarrow> nat \<Rightarrow> cstring \<Rightarrow> (nat \<times> nat) option" where
  "path2node s parent path =
     (if path = [] then Some (0, 0)
      else do {
        let ask_for_dir = (last path = SLASH);
        current \<leftarrow> vfs_reduce_node s parent;
        if hd path = SLASH then do {
          current \<leftarrow> vfs_reduce_node s (vfs_root s);
          let rest = dropWhile (\<lambda>c. c = SLASH) path;
          if rest = [] then Some (current, current) else path_loop s ask_for_dir current rest
        } else path_loop s ask_for_dir current path
      })"

definition vfs_get_node :: "'a vfs_scheme \<Rightarrow> nat \<Rightarrow> cstring \<Rightarrow> nat option" where
  "vfs_get_node s parent path = map_option snd (path2node s parent path)"

text \<open>\<^verbatim>\<open>basename\<close> on a string: trailing slashes are cut off, but never the first character.\<close>

definition base_name :: "cstring \<Rightarrow> cstring" where
  "base_name path =
     (if path = [] then lit ''.''
      else
        let ys = hd path # rev (dropWhile (\<lambda>c. c = SLASH) (rev (tl path)))
        in if length ys = 1 then ys else rev (takeWhile (\<lambda>c. c \<noteq> SLASH) (rev ys)))"

section \<open>tmpfs\<close>

text \<open>\<^verbatim>\<open>tmpfs_create\<close>, with its two allocations for a regular file.\<close>

definition tmpfs_create :: "nat \<Rightarrow> nat \<Rightarrow> cstring \<Rightarrow> u32 \<Rightarrow> 'a vfs_scheme \<Rightarrow> nat \<times> 'a vfs_scheme" where
  "tmpfs_create fs parent name mode s =
     (let (n, s) = vfs_create_node fs parent name (S_ISDIR mode) s in
      if n = 0 then (0, s)
      else
        let (ok, s) = (if S_ISREG mode then
                         (let (ok, s) = take_mem s in if ok then take_mem s else (False, s))
                       else (True, s))
        in if \<not> ok then (0, s)
           else
             let priv = (if S_ISREG mode then Some \<lparr>tm_capacity = 4096, tm_data = stale s\<rparr> else None);
                 f = filesystems s fs;
                 t = time_realtime s;
                 s = upd_node n (\<lambda>nd. nd\<lparr>vn_private := priv, vn_ops := TmpfsOps,
                       vn_stat := zero_stat\<lparr>st_dev := fs_dev f, st_ino := inode_counter f, st_mode := mode,
                         st_size := 0, st_blksize := 512, st_blocks := 0,
                         st_atim := t, st_mtim := t, st_ctim := t\<rparr>\<rparr>) s
             in (n, s\<lparr>filesystems := (filesystems s)(fs := f\<lparr>inode_counter := inode_counter f + 1\<rparr>)\<rparr>))"

definition tmpfs_mount :: "nat \<Rightarrow> cstring \<Rightarrow> 'a vfs_scheme \<Rightarrow> nat \<times> 'a vfs_scheme" where
  "tmpfs_mount parent name s =
     (let f = next_fs s;
          s = s\<lparr>next_fs := Suc f, tmpfs_minor := tmpfs_minor s + 1,
                filesystems := (filesystems s)(f := \<lparr>fs_create = Some tmpfs_mount_fn, inode_counter = 1,
                  fs_dev = makedev 0 (ucast (tmpfs_minor s))\<rparr>)\<rparr>
      in tmpfs_create f parent name S_IFDIR s)"

text \<open>
  Reading and writing the data of a node. \<^verbatim>\<open>tmpfs_read\<close> returns the bytes copied to the buffer and the
  result; a count that was reduced below zero is a huge \<^verbatim>\<open>size_t\<close>, and copying it does not return.
\<close>

definition file_size :: "'a vfs_scheme \<Rightarrow> nat \<Rightarrow> u64" where
  "file_size s n = st_size (vn_stat (nodes s n))"

definition tmpfs_read :: "nat \<Rightarrow> u64 \<Rightarrow> u64 \<Rightarrow> 'a vfs_scheme \<Rightarrow> (u8 list \<times> int \<times> 'a vfs_scheme) option" where
  "tmpfs_read n offset count s =
     (case vn_private (nodes s n) of
        None \<Rightarrow> None
      | Some md \<Rightarrow>
          let actual = (if sint (file_size s n) \<le> sint (offset + count)
                        then count - ((offset + count) - file_size s n) else count)
          in if sint actual < 0 then None
             else Some (map (\<lambda>i. tm_data md (unat offset + i)) [0..<unat actual], sint actual,
                        upd_node n (\<lambda>nd. nd\<lparr>vn_stat := (vn_stat nd)\<lparr>st_atim := time_realtime s\<rparr>\<rparr>) s))"

text \<open>The doubling loops, which run on a word that becomes 0 when it overflows.\<close>

partial_function (option) grow_beyond :: "u64 \<Rightarrow> u64 \<Rightarrow> u64 option" where
  [code]: "grow_beyond need capacity = (if capacity \<le> need then grow_beyond need (capacity * 2) else Some capacity)"

partial_function (option) grow_to :: "u64 \<Rightarrow> u64 \<Rightarrow> u64 option" where
  [code]: "grow_to need capacity = (if capacity < need then grow_to need (capacity * 2) else Some capacity)"

text \<open>\<^verbatim>\<open>krealloc\<close> keeps the first \<open>capacity\<close> bytes of the data.\<close>

definition regrow :: "'a vfs_scheme \<Rightarrow> u64 \<Rightarrow> tmp_node_metadata \<Rightarrow> tmp_node_metadata" where
  "regrow s cap md =
     \<lparr>tm_capacity = cap, tm_data = (\<lambda>i. if i < unat (tm_capacity md) then tm_data md i else stale s i)\<rparr>"

definition store_bytes :: "nat \<Rightarrow> u8 list \<Rightarrow> (nat \<Rightarrow> u8) \<Rightarrow> nat \<Rightarrow> u8" where
  "store_bytes off xs d = (\<lambda>i. if off \<le> i \<and> i < off + length xs then xs ! (i - off) else d i)"

definition blocks_of :: "u64 \<Rightarrow> u64 \<Rightarrow> u64" where
  "blocks_of sz blksize = DIV_CEIL sz blksize"

text \<open>The part of \<^verbatim>\<open>tmpfs_write\<close> after the buffer is large enough.\<close>

definition tmpfs_put :: "nat \<Rightarrow> u8 list \<Rightarrow> u64 \<Rightarrow> tmp_node_metadata \<Rightarrow> 'a vfs_scheme \<Rightarrow> 'a vfs_scheme" where
  "tmpfs_put n buf offset md s =
     (let need = offset + of_nat (length buf);
          md = md\<lparr>tm_data := store_bytes (unat offset) buf (tm_data md)\<rparr>;
          st = vn_stat (nodes s n);
          st = (if sint (st_size st) \<le> sint need
                then st\<lparr>st_size := need, st_blocks := blocks_of need (st_blksize st)\<rparr> else st);
          st = st\<lparr>st_atim := time_realtime s, st_mtim := time_realtime s\<rparr>
      in upd_node n (\<lambda>nd. nd\<lparr>vn_private := Some md, vn_stat := st\<rparr>) s)"

definition tmpfs_write :: "nat \<Rightarrow> u8 list \<Rightarrow> u64 \<Rightarrow> 'a vfs_scheme \<Rightarrow> (int \<times> 'a vfs_scheme) option" where
  "tmpfs_write n buf offset s =
     (case vn_private (nodes s n) of
        None \<Rightarrow> None
      | Some md \<Rightarrow> do {
          let count = of_nat (length buf);
          let need = offset + count;
          if tm_capacity md \<le> need then do {
            cap \<leftarrow> grow_beyond need (tm_capacity md);
            let (ok, s) = take_mem s;
            Some (if ok then (sint count, tmpfs_put n buf offset (regrow s cap md) s) else (- ENOMEM, s))
          } else Some (sint count, tmpfs_put n buf offset md s)
        })"

text \<open>\<^verbatim>\<open>tmpfs_truncate\<close>; \<^verbatim>\<open>(size_t) length\<close> of a negative length is huge.\<close>

definition tmpfs_truncate :: "nat \<Rightarrow> u64 \<Rightarrow> 'a vfs_scheme \<Rightarrow> (int \<times> 'a vfs_scheme) option" where
  "tmpfs_truncate n len s =
     (case vn_private (nodes s n) of
        None \<Rightarrow> None
      | Some md \<Rightarrow> do {
          (r, s) \<leftarrow> (if tm_capacity md < len then do {
                       cap \<leftarrow> grow_to len (tm_capacity md);
                       let (ok, s) = take_mem s;
                       Some (if ok then Some (regrow s cap md) else None, s)
                     } else Some (Some md, s));
          case r of
            None \<Rightarrow> Some (- ENOMEM, s)
          | Some md \<Rightarrow>
              let st = vn_stat (nodes s n);
                  st = st\<lparr>st_size := len, st_blocks := blocks_of len (st_blksize st),
                          st_atim := time_realtime s, st_mtim := time_realtime s\<rparr>
              in Some (0, upd_node n (\<lambda>nd. nd\<lparr>vn_private := Some md, vn_stat := st\<rparr>) s)
        })"

section \<open>Mounting and creating\<close>

definition devfs_mount :: "'a vfs_scheme \<Rightarrow> nat \<times> 'a vfs_scheme" where
  "devfs_mount s = (devfs_root s, s)"

definition vfs_mount ::
    "nat \<Rightarrow> cstring \<Rightarrow> cstring \<Rightarrow> cstring \<Rightarrow> 'a vfs_scheme \<Rightarrow> (bool \<times> 'a vfs_scheme) option" where
  "vfs_mount parent source target fs_name s =
     (case map_get (vfs_filesystems s) fs_name of
        None \<Rightarrow> Some (False, s)
      | Some fs_mount \<Rightarrow> do {
          src_ok \<leftarrow> (if source = [] then Some True
                     else do { (_, n) \<leftarrow> path2node s parent source; Some (n \<noteq> 0 \<and> \<not> is_dir s n) });
          if \<not> src_ok then Some (False, s)
          else do {
            (rparent, rnode) \<leftarrow> path2node s parent target;
            if rnode = 0 then Some (False, s)
            else if rnode \<noteq> vfs_root s \<and> \<not> is_dir s rnode then Some (False, s)
            else do {
              let (mount_node, s) = (case fs_mount of
                    tmpfs_mount_fn \<Rightarrow> tmpfs_mount rparent (base_name target) s
                  | devfs_mount_fn \<Rightarrow> devfs_mount s);
              if mount_node = 0 then Some (False, s)
              else do {
                let s = upd_node rnode (\<lambda>n. n\<lparr>vn_mountpoint := mount_node\<rparr>) s;
                s \<leftarrow> create_dotentries rparent mount_node s;
                Some (True, s)
              }
            }
          }
        })"

text \<open>\<^verbatim>\<open>fs->create\<close> of a tmpfs; devfs has none, and calling its null pointer does not return.\<close>

definition call_create :: "nat \<Rightarrow> nat \<Rightarrow> cstring \<Rightarrow> u32 \<Rightarrow> 'a vfs_scheme \<Rightarrow> (nat \<times> 'a vfs_scheme) option" where
  "call_create fs parent name mode s =
     (case fs_create (filesystems s fs) of
        Some tmpfs_mount_fn \<Rightarrow> Some (tmpfs_create fs parent name mode s)
      | _ \<Rightarrow> None)"

definition vfs_create :: "nat \<Rightarrow> cstring \<Rightarrow> u32 \<Rightarrow> 'a vfs_scheme \<Rightarrow> (nat \<times> 'a vfs_scheme) option" where
  "vfs_create parent name mode s = do {
     (rparent, rnode) \<leftarrow> path2node s parent name;
     if rparent = 0 then Some (0, s)
     else if rnode \<noteq> 0 then Some (0, s)
     else do {
       let fs = vn_fs (nodes s rparent);
       l \<leftarrow> spinlock_acquire (vn_lock (nodes s parent));
       let s = upd_node parent (\<lambda>n. n\<lparr>vn_lock := l\<rparr>) s;
       let new_name = base_name name;
       (new_node, s) \<leftarrow> call_create fs rparent new_name mode s;
       let ok = (vn_children (nodes s rparent) \<noteq> None);
       let s = upd_node rparent (\<lambda>n. n\<lparr>vn_children := map_put (vn_children n) new_name new_node\<rparr>) s;
       if \<not> ok then Some (0, upd_node parent (\<lambda>n. n\<lparr>vn_lock := spinlock_release (vn_lock n)\<rparr>) s)
       else if new_node = 0 then None
       else do {
         s \<leftarrow> (if is_dir s new_node then create_dotentries rparent new_node s else Some s);
         Some (new_node, upd_node parent (\<lambda>n. n\<lparr>vn_lock := spinlock_release (vn_lock n)\<rparr>) s)
       }
     }
   }"

definition vfs_register_filesystem :: "cstring \<Rightarrow> mount_fn \<Rightarrow> 'a vfs_scheme \<Rightarrow> bool \<times> 'a vfs_scheme" where
  "vfs_register_filesystem name f s =
     (case hashmap_set (vfs_filesystems s) name (length name) f of (ok, m) \<Rightarrow> (ok, s\<lparr>vfs_filesystems := m\<rparr>))"

definition vfs_init :: "'a vfs_scheme \<Rightarrow> 'a vfs_scheme" where
  "vfs_init s =
     (let (root, s) = vfs_create_node 0 0 [] False s
      in s\<lparr>vfs_root := root, vfs_filesystems := Some (hashmap_create 20)\<rparr>)"

definition tmpfs_init :: "'a vfs_scheme \<Rightarrow> 'a vfs_scheme" where
  "tmpfs_init s = snd (vfs_register_filesystem (lit ''tmpfs'') tmpfs_mount_fn s)"

text \<open>devfs: the file system object is number 0 of the store, its \<^verbatim>\<open>create\<close> is null.\<close>

definition devfs_init :: "'a vfs_scheme \<Rightarrow> 'a vfs_scheme" where
  "devfs_init s =
     (let (root, s) = vfs_create_node 0 0 (lit ''dev'') True s;
          t = time_realtime s;
          s = upd_node root (\<lambda>n. n\<lparr>vn_stat := zero_stat\<lparr>st_dev := makedev 0 1, st_mode := S_IFDIR, st_blksize := 4096,
                st_atim := t, st_mtim := t, st_ctim := t\<rparr>\<rparr>) s
      in snd (vfs_register_filesystem (lit ''devfs'') devfs_mount_fn (s\<lparr>devfs_root := root\<rparr>)))"

definition devfs_create_device :: "cstring \<Rightarrow> 'a vfs_scheme \<Rightarrow> (nat \<times> 'a vfs_scheme) option" where
  "devfs_create_device name s = do {
     found \<leftarrow> vfs_get_node s (devfs_root s) name;
     if found \<noteq> 0 then Some (0, s)
     else do {
       let (dev_node, s) = vfs_create_node 0 (devfs_root s) name False s;
       if dev_node = 0 then None
       else do {
         l \<leftarrow> spinlock_acquire (vn_lock (nodes s (devfs_root s)));
         Some (dev_node,
           upd_node (devfs_root s)
             (\<lambda>n. n\<lparr>vn_children := map_put (vn_children n) name dev_node, vn_lock := spinlock_release l\<rparr>) s)
       }
     }
   }"

section \<open>Directory entries and path names\<close>

record dirent =
  d_ino :: u64
  d_reclen :: nat
  d_type :: nat
  d_name :: cstring

definition DIRENT_SIZE :: nat where "DIRENT_SIZE = 16"

definition dirent_type :: "u32 \<Rightarrow> nat" where
  "dirent_type mode =
     (let m = mode AND S_IFMT in
      if m = S_IFREG then 1 else if m = S_IFDIR then 2 else if m = S_IFCHR then 3
      else if m = S_IFBLK then 4 else 0)"

definition ent_len :: "'a vfs_scheme \<Rightarrow> nat \<Rightarrow> nat" where
  "ent_len s child = DIRENT_SIZE + length (vn_name (nodes s child)) + 1"

definition dirent_of :: "'a vfs_scheme \<Rightarrow> nat \<Rightarrow> nat \<Rightarrow> dirent" where
  "dirent_of s child reduced =
     \<lparr>d_ino = st_ino (vn_stat (nodes s reduced)), d_reclen = ent_len s child,
      d_type = dirent_type (st_mode (vn_stat (nodes s reduced))), d_name = vn_name (nodes s child)\<rparr>"

text \<open>The first pass of \<^verbatim>\<open>vfs_getdents\<close>: the length of the entries behind the offset.\<close>

definition dents_length :: "'a vfs_scheme \<Rightarrow> int \<Rightarrow> nat list \<Rightarrow> nat" where
  "dents_length s offset children =
     snd (fold (\<lambda>child (iter, total).
            let iter = iter + ent_len s child
            in (iter, if offset < int iter then total + ent_len s child else total)) children (0, 0))"

text \<open>
  The second pass over one chain; \<open>writes\<close> collects the entries stored in the buffer with their
  offsets. An entry is stored before the test whether the buffer is full, and the \<^verbatim>\<open>break\<close> only leaves
  the chain.
\<close>

fun dents_chain ::
    "'a vfs_scheme \<Rightarrow> int \<Rightarrow> nat \<Rightarrow> nat list \<Rightarrow> nat \<times> nat \<times> (nat \<times> dirent) list \<Rightarrow>
     (nat \<times> nat \<times> (nat \<times> dirent) list) option" where
  "dents_chain s offset actual [] acc = Some acc"
| "dents_chain s offset actual (child # rest) (iter, read, writes) = do {
     reduced \<leftarrow> vfs_reduce_node s child;
     let iter = iter + ent_len s child;
     if int iter \<le> offset then dents_chain s offset actual rest (iter, read, writes)
     else
       let writes = writes @ [(read, dirent_of s child reduced)] in
       if actual \<le> read then Some (iter, read, writes)
       else dents_chain s offset actual rest (iter, read + ent_len s child, writes)
   }"

fun dents_buckets ::
    "'a vfs_scheme \<Rightarrow> int \<Rightarrow> nat \<Rightarrow> nat list list \<Rightarrow> nat \<times> nat \<times> (nat \<times> dirent) list \<Rightarrow>
     (nat \<times> nat \<times> (nat \<times> dirent) list) option" where
  "dents_buckets s offset actual [] acc = Some acc"
| "dents_buckets s offset actual (b # bs) acc = do {
     acc \<leftarrow> dents_chain s offset actual b acc;
     dents_buckets s offset actual bs acc
   }"

definition vfs_getdents ::
    "nat \<Rightarrow> int \<Rightarrow> nat \<Rightarrow> 'a vfs_scheme \<Rightarrow> (int \<times> (nat \<times> dirent) list \<times> 'a vfs_scheme) option" where
  "vfs_getdents node offset count s =
     (if \<not> is_dir s node then Some (- ENOTDIR, [], s)
      else case vn_children (nodes s node) of
        None \<Rightarrow> None
      | Some hm \<Rightarrow> do {
          let buckets = map (map snd) (hm_entries hm);
          let total = dents_length s offset (concat buckets);
          if total = 0 then Some (0, [], s)
          else do {
            (iter, read, writes) \<leftarrow> dents_buckets s offset (min total count) buckets (0, 0, []);
            Some (int read, writes,
              upd_node node (\<lambda>n. n\<lparr>vn_stat := (vn_stat n)\<lparr>st_atim := time_realtime s\<rparr>\<rparr>) s)
          }
        })"

text \<open>\<^verbatim>\<open>strncpy\<close> of a name to an offset of the buffer: at most \<open>n\<close> bytes, padded with 0.\<close>

definition put_name :: "nat \<Rightarrow> cstring \<Rightarrow> nat \<Rightarrow> mem \<Rightarrow> mem" where
  "put_name off name n b =
     (\<lambda>a. if off \<le> a \<and> a < off + n then (if a - off < length name then name ! (a - off) else 0) else b a)"

partial_function (option) vfs_get_pathname ::
    "'a vfs_scheme \<Rightarrow> nat \<Rightarrow> mem \<Rightarrow> u64 \<Rightarrow> (u64 \<times> mem) option" where
  [code]: "vfs_get_pathname s node buffer len =
     (if node = vfs_root s then
        Option.bind (vfs_reduce_node s node) (\<lambda>r.
          let pathname = vn_name (nodes s r)
          in Some (of_nat (length pathname), put_name 0 pathname (unat len) buffer))
      else
        Option.bind
          (if vn_parent (nodes s node) \<noteq> vfs_root s \<and> vn_parent (nodes s node) \<noteq> 0 then
             Option.bind (vfs_reduce_node s (vn_parent (nodes s node))) (\<lambda>parent.
               if parent \<noteq> vfs_root s \<and> parent \<noteq> 0 then
                 Option.bind (vfs_get_pathname s parent buffer (len - 1))
                   (\<lambda>(offset, buffer). Some (offset + 1, buffer(unat offset := SLASH)))
               else Some (0, buffer))
           else Some (0, buffer))
          (\<lambda>(offset, buffer).
             let name = vn_name (nodes s node) in
             if name \<noteq> lit ''/'' then
               Some (of_nat (length name) + offset, put_name (unat offset) name (unat (len - offset)) buffer)
             else Some (offset, buffer)))"

section \<open>Path resolution\<close>

text \<open>The reference for \<^verbatim>\<open>path2node\<close>: the components of a path are its maximal parts without slashes, and
  they are looked up one after the other.\<close>

fun pieces :: "cstring \<Rightarrow> cstring list" where
  "pieces [] = [[]]"
| "pieces (c # cs) =
     (if c = SLASH then [] # pieces cs
      else case pieces cs of [] \<Rightarrow> [[c]] | p # ps \<Rightarrow> (c # p) # ps)"

definition components :: "cstring \<Rightarrow> cstring list" where
  "components path = filter (\<lambda>p. p \<noteq> []) (pieces path)"

definition lookup_child :: "'a vfs_scheme \<Rightarrow> nat \<Rightarrow> cstring \<Rightarrow> nat option" where
  "lookup_child s dir elem = map_get (vn_children (nodes s dir)) (elem_str s elem)"

fun resolve :: "'a vfs_scheme \<Rightarrow> bool \<Rightarrow> nat \<Rightarrow> cstring list \<Rightarrow> (nat \<times> nat) option" where
  "resolve s must_be_dir dir [] = Some (dir, dir)"
| "resolve s must_be_dir dir (c # cs) = do {
     dir \<leftarrow> vfs_reduce_node s dir;
     case lookup_child s dir c of
       None \<Rightarrow> Some (if cs = [] then (dir, 0) else (0, 0))
     | Some n \<Rightarrow> do {
         n \<leftarrow> vfs_reduce_node s n;
         if cs = [] then Some (dir, if must_be_dir \<and> \<not> is_dir s n then 0 else n)
         else if is_dir s n then resolve s must_be_dir n cs else Some (0, 0)
       }
   }"

lemma pieces_ne [simp]: "pieces cs \<noteq> []"
  by (induction cs) (auto split: list.split)

lemma pieces_takeWhile:
  "pieces path = takeWhile (\<lambda>c. c \<noteq> SLASH) path #
     (case dropWhile (\<lambda>c. c \<noteq> SLASH) path of [] \<Rightarrow> [] | _ # rest \<Rightarrow> pieces rest)"
  by (induction path) auto

lemma components_Slash: "components (SLASH # path) = components path"
  by (simp add: components_def)

lemma components_skip: "components (dropWhile (\<lambda>c. c = SLASH) path) = components path"
  by (induction path) (simp_all add: components_Slash)

lemma components_rest:
  assumes "rest \<noteq> []" "hd rest \<noteq> SLASH"
  shows "components rest = takeWhile (\<lambda>c. c \<noteq> SLASH) rest # components (next_rest rest)"
proof -
  have ne: "takeWhile (\<lambda>c. c \<noteq> SLASH) rest \<noteq> []" using assms by (cases rest) auto
  show ?thesis
  proof (cases "dropWhile (\<lambda>c. c \<noteq> SLASH) rest")
    case Nil
    have "components rest = [takeWhile (\<lambda>c. c \<noteq> SLASH) rest]"
      unfolding components_def by (subst pieces_takeWhile) (simp add: Nil ne)
    moreover have "next_rest rest = []" by (simp add: next_rest_def Nil)
    ultimately show ?thesis by (simp add: components_def)
  next
    case (Cons c r)
    then have "c = SLASH" using hd_dropWhile [of "\<lambda>c. c \<noteq> SLASH" rest] by auto
    then have "next_rest rest = dropWhile (\<lambda>c. c = SLASH) r" by (simp add: next_rest_def Cons)
    moreover have "components rest = takeWhile (\<lambda>c. c \<noteq> SLASH) rest # components r"
      unfolding components_def by (subst pieces_takeWhile) (simp add: Cons ne)
    ultimately show ?thesis by (simp add: components_skip)
  qed
qed

lemma components_Nil_iff: "path = [] \<or> hd path \<noteq> SLASH \<Longrightarrow> components path = [] \<longleftrightarrow> path = []"
  using components_rest [of path] by (cases "path = []") (auto simp: components_def)

lemma next_rest_hd: "next_rest rest \<noteq> [] \<Longrightarrow> hd (next_rest rest) \<noteq> SLASH"
  unfolding next_rest_def using hd_dropWhile [of "\<lambda>c. c = SLASH"] by fastforce

lemma path_loop_resolve:
  "rest \<noteq> [] \<Longrightarrow> hd rest \<noteq> SLASH \<Longrightarrow> path_loop s ask dir rest = resolve s ask dir (components rest)"
proof (induction s ask dir rest rule: path_loop.induct)
  case (1 s ask dir rest)
  have nil: "components (next_rest rest) = [] \<longleftrightarrow> next_rest rest = []"
    using components_Nil_iff [of "next_rest rest"] next_rest_hd [of rest] by blast
  show ?case
  proof (cases "vfs_reduce_node s dir")
    case None
    then show ?thesis by (subst path_loop.simps) (simp add: components_rest [OF 1(2,3)])
  next
    case (Some d)
    show ?thesis
    proof (cases "map_get (vn_children (nodes s d)) (elem_str s (takeWhile (\<lambda>c. c \<noteq> SLASH) rest))")
      case None
      then show ?thesis
        using Some nil
        by (subst path_loop.simps) (simp add: components_rest [OF 1(2,3)] lookup_child_def)
    next
      case n: (Some n)
      show ?thesis
        using Some n nil 1(1) [OF refl refl Some n] next_rest_hd [of rest]
        by (subst path_loop.simps)
          (auto simp: components_rest [OF 1(2,3)] lookup_child_def split: bind_splits option.split)
    qed
  qed
qed

section \<open>Creating and finding nodes\<close>

text \<open>Reductions only depend on links and mount points. In a closed store these lead to nodes of the
  store.\<close>

definition hm_values :: "'v hashmap option \<Rightarrow> 'v set" where
  "hm_values hm = (case hm of None \<Rightarrow> {} | Some m \<Rightarrow> snd ` (\<Union>b\<in>set (hm_entries m). set b))"

definition vfs_closed :: "'a vfs_scheme \<Rightarrow> bool" where
  "vfs_closed s \<longleftrightarrow> 0 < next_node s \<and>
     (\<forall>n<next_node s. vn_link (nodes s n) < next_node s \<and> vn_mountpoint (nodes s n) < next_node s \<and>
        hm_values (vn_children (nodes s n)) \<subseteq> {..<next_node s})"

definition same_links :: "'a vfs_scheme \<Rightarrow> 'a vfs_scheme \<Rightarrow> bool" where
  "same_links s s' \<longleftrightarrow>
     (\<forall>n<next_node s. vn_link (nodes s' n) = vn_link (nodes s n) \<and>
        vn_mountpoint (nodes s' n) = vn_mountpoint (nodes s n))"

lemma vfs_reduce_same:
  assumes "vfs_closed s" "same_links s s'"
  shows "vfs_reduce_node s n = Some r \<Longrightarrow> n < next_node s \<Longrightarrow> vfs_reduce_node s' n = Some r \<and> r < next_node s"
proof -
  let ?P = "\<lambda>t n r. t = s \<longrightarrow> n < next_node s \<longrightarrow> vfs_reduce_node s' n = Some r \<and> r < next_node s"
  have "?P t n r" if red: "vfs_reduce_node t n = Some r" for t n r
  proof (rule vfs_reduce_node.raw_induct [where P = ?P, OF _ red], intro impI)
    fix red t n r
    assume IH: "\<And>t n r. red t n = Some r \<Longrightarrow> ?P t n r"
      and step: "(if n = 0 then None
        else if vn_link (nodes t n) \<noteq> 0 then red t (vn_link (nodes t n))
        else if vn_mountpoint (nodes t n) \<noteq> 0 then red t (vn_mountpoint (nodes t n))
        else Some n) = Some r"
      and t: "t = s" and n: "n < next_node s"
    have "vn_link (nodes s n) < next_node s" "vn_mountpoint (nodes s n) < next_node s"
        "vn_link (nodes s' n) = vn_link (nodes s n)" "vn_mountpoint (nodes s' n) = vn_mountpoint (nodes s n)"
      using assms n by (auto simp: vfs_closed_def same_links_def)
    then show "vfs_reduce_node s' n = Some r \<and> r < next_node s"
      using IH step t n by (subst vfs_reduce_node.simps) (auto split: if_splits)
  qed
  then show "vfs_reduce_node s n = Some r \<Longrightarrow> n < next_node s \<Longrightarrow> vfs_reduce_node s' n = Some r \<and> r < next_node s"
    by blast
qed

lemma vfs_reduce_plain:
  "n \<noteq> 0 \<Longrightarrow> vn_link (nodes s n) = 0 \<Longrightarrow> vn_mountpoint (nodes s n) = 0 \<Longrightarrow> vfs_reduce_node s n = Some n"
  by (subst vfs_reduce_node.simps) simp

text \<open>A name that is a single component.\<close>

definition simple_name :: "cstring \<Rightarrow> bool" where
  "simple_name c \<longleftrightarrow> c \<noteq> [] \<and> SLASH \<notin> set c \<and> length c < 2048"

lemma simple_name_path:
  assumes "simple_name c"
  shows "components c = [c]" "base_name c = c" "hd c \<noteq> SLASH" "last c \<noteq> SLASH" "elem_str s c = c" "c \<noteq> []"
proof -
  have c: "c \<noteq> []" "\<forall>x\<in>set c. x \<noteq> SLASH" using assms by (auto simp: simple_name_def)
  show "c \<noteq> []" "hd c \<noteq> SLASH" "last c \<noteq> SLASH" using c by auto
  have tw: "takeWhile (\<lambda>c. c \<noteq> SLASH) c = c" "dropWhile (\<lambda>c. c \<noteq> SLASH) c = []" using c(2) by auto
  show "components c = [c]" unfolding components_def pieces_takeWhile [of c] tw by (simp add: c(1))
  show "elem_str s c = c" using assms by (simp add: elem_str_def simple_name_def)
  have "\<forall>x\<in>set (rev (tl c)). x \<noteq> SLASH" using c by (cases c) auto
  then have "dropWhile (\<lambda>x. x = SLASH) (rev (tl c)) = rev (tl c)" by (cases "rev (tl c)") auto
  moreover have "rev (takeWhile (\<lambda>c. c \<noteq> SLASH) (rev c)) = c"
    using c(2) takeWhile_eq_all_conv [of "\<lambda>c. c \<noteq> SLASH" "rev c"] by (metis rev_rev_ident set_rev)
  ultimately show "base_name c = c" using c(1) by (simp add: base_name_def Let_def)
qed

lemma path2node_simple:
  assumes "simple_name c"
  shows "path2node s parent c = do { d \<leftarrow> vfs_reduce_node s parent; resolve s False d [c] }"
  using simple_name_path [OF assms] by (simp add: path2node_def path_loop_resolve)

section \<open>Data of a tmpfs file\<close>

definition file_bytes :: "'a vfs_scheme \<Rightarrow> nat \<Rightarrow> u8 list" where
  "file_bytes s n =
     (case vn_private (nodes s n) of
        None \<Rightarrow> []
      | Some md \<Rightarrow> map (tm_data md) [0..<unat (file_size s n)])"

definition file_ok :: "'a vfs_scheme \<Rightarrow> nat \<Rightarrow> bool" where
  "file_ok s n \<longleftrightarrow>
     (\<exists>md. vn_private (nodes s n) = Some md \<and> 0 < tm_capacity md \<and> unat (tm_capacity md) < 2 ^ 62 \<and>
        unat (file_size s n) \<le> unat (tm_capacity md))"

lemma file_cong:
  "vn_private (nodes s' n) = vn_private (nodes s n) \<Longrightarrow> st_size (vn_stat (nodes s' n)) = st_size (vn_stat (nodes s n)) \<Longrightarrow>
   file_ok s' n = file_ok s n \<and> file_bytes s' n = file_bytes s n"
  by (auto simp: file_ok_def file_bytes_def file_size_def split: option.split)

lemma sint_diff:
  assumes "unat (a :: u64) < 2 ^ 63" "unat b < 2 ^ 63"
  shows "sint (a - b) = int (unat a) - int (unat b)"
proof -
  have lt: "int (unat w) < 2 ^ 63" if "unat w < 2 ^ 63" for w :: u64
    using that by (metis of_nat_less_iff of_nat_numeral of_nat_power)
  have "sint (word_of_int k :: u64) = signed_take_bit 63 k" for k by (simp add: sint_sbintrunc')
  moreover have "a - b = word_of_int (int (unat a) - int (unat b))" by simp
  ultimately have "sint (a - b) = signed_take_bit 63 (int (unat a) - int (unat b))" by metis
  also have "\<dots> = int (unat a) - int (unat b)"
    using lt [OF assms(1)] lt [OF assms(2)] of_nat_0_le_iff [of "unat a"] of_nat_0_le_iff [of "unat b"]
    by (intro signed_take_bit_int_eq_self) linarith+
  finally show ?thesis .
qed

lemma sint_small: "unat (w :: u64) < 2 ^ 63 \<Longrightarrow> sint w = int (unat w)"
  using sint_diff [of w 0] by simp

lemma unat_double: "unat (w :: u64) < 2 ^ 62 \<Longrightarrow> unat (w * 2) = 2 * unat w"
  by (simp add: unat_word_ariths)

lemma unat_add_small: "unat (a :: u64) + unat b < 2 ^ 64 \<Longrightarrow> unat (a + b) = unat a + unat b"
  by (simp add: unat_word_ariths)

lemma grow_beyond_terminates:
  "0 < cap \<Longrightarrow> unat need < 2 ^ 61 \<Longrightarrow> unat cap < 2 ^ 62 \<Longrightarrow>
   \<exists>c. grow_beyond need cap = Some c \<and> need < c \<and> cap \<le> c \<and> unat c < 2 ^ 62"
proof (induction "unat need + 1 - unat cap" arbitrary: cap rule: less_induct)
  case less
  show ?case
  proof (cases "cap \<le> need")
    case True
    have d: "unat (cap * 2) = 2 * unat cap" using less.prems(3) by (rule unat_double)
    have "0 < unat cap" using less.prems(1) by (simp add: word_less_nat_alt)
    moreover have "unat cap \<le> unat need" using True by (simp add: word_le_nat_alt)
    ultimately have "\<exists>c. grow_beyond need (cap * 2) = Some c \<and> need < c \<and> cap * 2 \<le> c \<and> unat c < 2 ^ 62"
      using less.prems(2) by (intro less.hyps) (auto simp: d word_less_nat_alt)
    moreover have "cap \<le> cap * 2" by (simp add: word_le_nat_alt d)
    ultimately show ?thesis using True order_trans by (subst grow_beyond.simps) auto
  next
    case False
    then show ?thesis using less.prems by (subst grow_beyond.simps) auto
  qed
qed

lemma map_store_bytes:
  assumes "off \<le> n" "m = max n (off + length xs)"
  shows "map (store_bytes off xs d) [0..<m] =
    take off (map d [0..<n]) @ xs @ drop (off + length xs) (map d [0..<n])"
  using assms by (intro nth_equalityI) (auto simp: store_bytes_def nth_append max_def split: if_splits)

text \<open>A small file system for the examples: node 1 is an empty directory, node 2 a file of three bytes.\<close>

definition sample_node :: "nat hashmap option \<Rightarrow> u32 \<Rightarrow> u64 \<Rightarrow> tmp_node_metadata option \<Rightarrow> vfs_node" where
  "sample_node children mode sz priv =
     \<lparr>vn_name = [], vn_stat = zero_stat\<lparr>st_mode := mode, st_size := sz, st_blksize := 512\<rparr>, vn_refcount = 0,
      vn_parent = 0, vn_mountpoint = 0, vn_link = 0, vn_children = children, vn_fs = 1, vn_private = priv,
      vn_lock = 0, vn_ops = TmpfsOps\<rparr>"

definition sample_vfs :: vfs where
  "sample_vfs =
     \<lparr>nodes = (\<lambda>n. if n = 1 then sample_node (Some (hashmap_create 128)) S_IFDIR 0 None
                    else sample_node None S_IFREG 3 (Some \<lparr>tm_capacity = 4096, tm_data = (\<lambda>i. of_nat i)\<rparr>)),
      next_node = 3, vfs_root = 1, vfs_filesystems = None,
      filesystems = (\<lambda>_. \<lparr>fs_create = Some tmpfs_mount_fn, inode_counter = 1, fs_dev = 0\<rparr>),
      next_fs = 2, tmpfs_minor = 1, devfs_root = 0, time_realtime = zero_time, mem_left = 10, stale = (\<lambda>_. 0)\<rparr>"

lemma sample_simps:
  "vn_link (nodes sample_vfs n) = 0" "vn_mountpoint (nodes sample_vfs n) = 0" "vn_lock (nodes sample_vfs n) = 0"
  "vn_children (nodes sample_vfs n) = (if n = 1 then Some (hashmap_create 128) else None)"
  "fs_create (filesystems sample_vfs f) = Some tmpfs_mount_fn" "mem_left sample_vfs = 10" "next_node sample_vfs = 3"
  "vfs_root sample_vfs = 1" "n \<noteq> 1 \<Longrightarrow> file_size sample_vfs n = 3"
  "n \<noteq> 1 \<Longrightarrow> vn_private (nodes sample_vfs n) = Some \<lparr>tm_capacity = 4096, tm_data = (\<lambda>i. of_nat i)\<rparr>"
  by (simp_all add: sample_vfs_def sample_node_def file_size_def)

lemma sample_reduce: "n \<noteq> 0 \<Longrightarrow> vfs_reduce_node sample_vfs n = Some n"
  by (rule vfs_reduce_plain) (simp_all add: sample_simps)

lemma sample_file: "file_ok sample_vfs 2" "file_bytes sample_vfs 2 = [0, 1, 2]"
  by (simp_all add: file_ok_def file_bytes_def sample_simps upt_rec)

lemma sample_dir: "vfs_closed sample_vfs" "hm_good (vn_children (nodes sample_vfs 1))"
  "map_get (vn_children (nodes sample_vfs 1)) (lit ''a'') = None" "simple_name (lit ''a'')"
  by (simp_all add: vfs_closed_def sample_simps hm_values_def hm_good_def hashmap_create_def map_get_def
      hashmap_get_def bucket_of_def simple_name_def lit_def SLASH_def)

text \<open>C29: path2node looks the components of a path up one after the other, starting from the root for
  an absolute path and from the given directory otherwise; repeated and trailing slashes only matter
  in that a path that ends in a slash must name a directory.\<close>

theorem path2node_resolves:
  assumes "path \<noteq> []"
  shows "path2node s parent path = do {
    d \<leftarrow> vfs_reduce_node s parent;
    d \<leftarrow> (if hd path = SLASH then vfs_reduce_node s (vfs_root s) else Some d);
    resolve s (last path = SLASH) d (components path)
  }"
proof (cases "hd path = SLASH")
  case True
  define rest where "rest = dropWhile (\<lambda>c. c = SLASH) path"
  have hd: "rest = [] \<or> hd rest \<noteq> SLASH" using hd_dropWhile [of "\<lambda>c. c = SLASH" path] by (auto simp: rest_def)
  have comps: "components path = components rest" by (simp add: rest_def components_skip)
  show ?thesis
  proof (cases "rest = []")
    case r: True
    then have "components path = []" using comps by (simp add: components_def)
    then show ?thesis
      using True r [unfolded rest_def] assms by (simp add: path2node_def del: dropWhile_eq_Nil_conv)
  next
    case False
    then have "path_loop s ask d rest = resolve s ask d (components path)" for ask d
      using path_loop_resolve hd comps by metis
    then show ?thesis
      using True False assms unfolding path2node_def rest_def [symmetric] by (simp add: Let_def)
  qed
next
  case False
  then show ?thesis using assms by (simp add: path2node_def path_loop_resolve [OF assms False])
qed

theorem path2node_resolves_witness:
  "path2node sample_vfs 1 (lit ''//'') = Some (1, 1)"
  using path2node_resolves [of "lit ''//''" sample_vfs 1]
  by (simp add: lit_def SLASH_def sample_reduce sample_simps components_def)

lemma tmpfs_put_splices:
  assumes md: "vn_private (nodes s n) = Some md" "unat (file_size s n) \<le> unat (tm_capacity md)"
    and t: "nodes t = nodes s"
    and off: "unat offset \<le> unat (file_size s n)"
    and need: "offset + of_nat (length buf) < tm_capacity md'" "unat offset + length buf < 2 ^ 61"
    and cap: "tm_capacity md \<le> tm_capacity md'" "unat (tm_capacity md') < 2 ^ 62"
    and d: "\<And>i. i < unat (tm_capacity md) \<Longrightarrow> tm_data md' i = tm_data md i"
  shows "file_ok (tmpfs_put n buf offset md' t) n \<and>
    (\<forall>m. m \<noteq> n \<longrightarrow> nodes (tmpfs_put n buf offset md' t) m = nodes s m) \<and>
    file_bytes (tmpfs_put n buf offset md' t) n =
      take (unat offset) (file_bytes s n) @ buf @ drop (unat offset + length buf) (file_bytes s n)"
proof -
  let ?s' = "tmpfs_put n buf offset md' t" and ?need = "offset + of_nat (length buf)"
  have cnt: "unat (of_nat (length buf) :: u64) = length buf" using need(2) by (simp add: unat_of_nat)
  have nd: "unat ?need = unat offset + length buf"
    using need(2) by (subst unat_add_small) (simp_all add: cnt)
  have "unat (file_size s n) < 2 ^ 63" using md(2) cap by (simp add: word_le_nat_alt)
  then have "sint (file_size s n) \<le> sint ?need \<longleftrightarrow> unat (file_size s n) \<le> unat offset + length buf"
    using need(2) by (subst (1 2) sint_small) (simp_all only: nd of_nat_le_iff, simp_all)
  then have sz: "unat (file_size ?s' n) = max (unat (file_size s n)) (unat offset + length buf)"
    by (auto simp: tmpfs_put_def upd_node_def file_size_def Let_def nd max_def t)
  have "file_bytes ?s' n = map (store_bytes (unat offset) buf (tm_data md')) [0..<unat (file_size ?s' n)]"
    by (simp add: file_bytes_def tmpfs_put_def Let_def upd_node_def)
  also have "\<dots> = take (unat offset) (map (tm_data md') [0..<unat (file_size s n)]) @ buf @
      drop (unat offset + length buf) (map (tm_data md') [0..<unat (file_size s n)])"
    by (rule map_store_bytes [OF off sz])
  also have "map (tm_data md') [0..<unat (file_size s n)] = file_bytes s n"
    using d md by (simp add: file_bytes_def)
  finally have "file_bytes ?s' n =
      take (unat offset) (file_bytes s n) @ buf @ drop (unat offset + length buf) (file_bytes s n)" .
  moreover have "file_ok ?s' n"
    unfolding file_ok_def sz using cap md need(1) nd
    by (auto simp: tmpfs_put_def Let_def upd_node_def word_less_nat_alt word_le_nat_alt)
  ultimately show ?thesis by (simp add: tmpfs_put_def Let_def upd_node_def t)
qed

lemma tmpfs_write_lemma:
  assumes "file_ok s n" "unat offset \<le> length (file_bytes s n)" "unat offset + length buf < 2 ^ 61"
  shows "\<exists>r s'. tmpfs_write n buf offset s = Some (r, s') \<and> file_ok s' n \<and>
    (\<forall>m. m \<noteq> n \<longrightarrow> nodes s' m = nodes s m) \<and>
    (if r = - ENOMEM then mem_left s = 0 \<and> s' = s
     else r = int (length buf) \<and>
       file_bytes s' n = take (unat offset) (file_bytes s n) @ buf @ drop (unat offset + length buf) (file_bytes s n))"
proof -
  obtain md where md: "vn_private (nodes s n) = Some md" "0 < tm_capacity md" "unat (tm_capacity md) < 2 ^ 62"
      "unat (file_size s n) \<le> unat (tm_capacity md)"
    using assms(1) by (auto simp: file_ok_def)
  let ?need = "offset + of_nat (length buf)"
  have cnt: "unat (of_nat (length buf) :: u64) = length buf" using assms(3) by (simp add: unat_of_nat)
  have need: "unat ?need < 2 ^ 61" using assms(3) by (subst unat_add_small) (simp_all add: cnt)
  have scnt: "sint (of_nat (length buf) :: u64) = int (length buf)"
    using assms(3) by (subst sint_small) (simp_all add: cnt)
  have off: "unat offset \<le> unat (file_size s n)" using assms(2) by (simp add: file_bytes_def md(1))
  note put = tmpfs_put_splices [OF md(1,4) _ off _ assms(3)]
  show ?thesis
  proof (cases "tm_capacity md \<le> ?need")
    case True
    obtain cap where cap: "grow_beyond ?need (tm_capacity md) = Some cap" "?need < cap" "tm_capacity md \<le> cap" "unat cap < 2 ^ 62"
      using grow_beyond_terminates [OF md(2) need md(3)] by auto
    show ?thesis
    proof (cases "mem_left s = 0")
      case mem: True
      then have "tmpfs_write n buf offset s = Some (- ENOMEM, s)"
        using True cap(1) by (simp add: tmpfs_write_def md(1) Let_def take_mem_def)
      then show ?thesis using mem assms(1) by auto
    next
      case False
      define t where "t = s\<lparr>mem_left := mem_left s - 1\<rparr>"
      have "tmpfs_write n buf offset s = Some (int (length buf), tmpfs_put n buf offset (regrow t cap md) t)"
        using True cap(1) False by (simp add: tmpfs_write_def md(1) Let_def take_mem_def scnt t_def)
      then show ?thesis
        using put [of t "regrow t cap md"] cap by (auto simp: t_def regrow_def ENOMEM_def)
    qed
  next
    case False
    then have "tmpfs_write n buf offset s = Some (int (length buf), tmpfs_put n buf offset md s)"
      by (simp add: tmpfs_write_def md(1) Let_def scnt)
    then show ?thesis using put [of s md] False md by (auto simp: ENOMEM_def not_le)
  qed
qed

text \<open>C30: on a file of a tmpfs whose capacity is below 2^62, writing at an offset up to the end of the
  file (with offset plus length below 2^61) returns, either with ENOMEM and the file unchanged, or with
  the number of bytes written, the bytes of the file overwritten or extended from the offset on, the
  representation still sound and every other node unchanged.\<close>

theorem tmpfs_write_splices:
  assumes "file_ok s n" "unat offset \<le> length (file_bytes s n)" "unat offset + length buf < 2 ^ 61"
  shows "\<exists>r s'. tmpfs_write n buf offset s = Some (r, s') \<and> file_ok s' n \<and>
    (\<forall>m. m \<noteq> n \<longrightarrow> nodes s' m = nodes s m) \<and>
    (if r = - ENOMEM then mem_left s = 0 \<and> s' = s
     else r = int (length buf) \<and>
       file_bytes s' n = take (unat offset) (file_bytes s n) @ buf @ drop (unat offset + length buf) (file_bytes s n))"
  using assms by (rule tmpfs_write_lemma)

theorem tmpfs_write_splices_witness:
  "\<exists>s'. tmpfs_write 2 [7, 8] 2 sample_vfs = Some (2, s') \<and> file_bytes s' 2 = [0, 1, 7, 8]"
  using tmpfs_write_splices [of sample_vfs 2 2 "[7, 8]"]
  by (auto simp: sample_file sample_simps ENOMEM_def split: if_splits)

lemma tmpfs_read_lemma:
  assumes "file_ok s n" "unat offset + unat count < 2 ^ 63"
  shows "map_option (\<lambda>(bytes, r, s'). (bytes, r)) (tmpfs_read n offset count s) =
    (if unat offset \<le> length (file_bytes s n)
     then Some (take (unat count) (drop (unat offset) (file_bytes s n)),
                int (min (unat count) (length (file_bytes s n) - unat offset)))
     else None)"
proof -
  obtain md where md: "vn_private (nodes s n) = Some md" "unat (file_size s n) < 2 ^ 62"
    using assms(1) by (auto simp: file_ok_def)
  let ?sz = "unat (file_size s n)"
  have len: "length (file_bytes s n) = ?sz" by (simp add: file_bytes_def md(1))
  have sum: "unat (offset + count) = unat offset + unat count" using assms(2) by (intro unat_add_small) simp
  have cmp: "sint (file_size s n) \<le> sint (offset + count) \<longleftrightarrow> ?sz \<le> unat offset + unat count"
    using md(2) assms(2) by (subst (1 2) sint_small) (simp_all only: sum of_nat_le_iff, simp_all)
  have rest: "count - ((offset + count) - file_size s n) = file_size s n - offset" by simp
  have bytes: "map (\<lambda>i. tm_data md (unat offset + i)) [0..<k] = take k (drop (unat offset) (file_bytes s n))"
    if "unat offset + k \<le> ?sz" for k
    using that by (intro nth_equalityI) (auto simp: file_bytes_def md(1))
  have sdiff: "sint (file_size s n - offset) = int ?sz - int (unat offset)"
    using md(2) assms(2) by (intro sint_diff) simp_all
  show ?thesis
  proof (cases "unat offset \<le> ?sz")
    case True
    show ?thesis
    proof (cases "?sz \<le> unat offset + unat count")
      case inside: True
      have "unat (file_size s n - offset) = ?sz - unat offset"
        using True by (intro unat_sub) (simp add: word_le_nat_alt)
      then show ?thesis
        using True inside bytes [of "?sz - unat offset"]
        by (auto simp: tmpfs_read_def md(1) cmp rest sdiff len min_def of_nat_diff simp del: of_nat_unat)
    next
      case False
      have "sint count = int (unat count)" using assms(2) by (intro sint_small) simp
      then show ?thesis
        using True False bytes [of "unat count"]
        by (simp add: tmpfs_read_def md(1) cmp len min_def del: of_nat_unat)
    qed
  next
    case False
    then show ?thesis by (simp add: tmpfs_read_def md(1) cmp rest sdiff len del: of_nat_unat)
  qed
qed

text \<open>C31: reading a file of a tmpfs returns the bytes from the offset on, at most count of them and
  fewer at the end of the file; but at an offset behind the end of the file the number of bytes to
  copy becomes negative, a huge size_t, and the copy does not return.\<close>

theorem tmpfs_read_bytes:
  assumes "file_ok s n" "unat offset + unat count < 2 ^ 63"
  shows "map_option (\<lambda>(bytes, r, s'). (bytes, r)) (tmpfs_read n offset count s) =
    (if unat offset \<le> length (file_bytes s n)
     then Some (take (unat count) (drop (unat offset) (file_bytes s n)),
                int (min (unat count) (length (file_bytes s n) - unat offset)))
     else None)"
  using assms by (rule tmpfs_read_lemma)

theorem tmpfs_read_bytes_witness:
  "map_option (\<lambda>(bytes, r, s'). (bytes, r)) (tmpfs_read 2 1 100 sample_vfs) = Some ([1, 2], 2) \<and>
   tmpfs_read 2 4 100 sample_vfs = None"
  using tmpfs_read_bytes [of sample_vfs 2 1 100] tmpfs_read_bytes [of sample_vfs 2 4 100]
  by (simp add: sample_file)

section \<open>Creating a node\<close>

lemma chain_get_in: "chain_get key n es = Some v \<Longrightarrow> v \<in> snd ` set es"
  by (induction es) (auto split: if_splits)

lemma chain_set_values: "snd ` set (chain_set key n v es) \<subseteq> insert v (snd ` set es)"
  by (induction es) (force split: if_splits)+

lemma map_get_in: "hm_good hm \<Longrightarrow> map_get hm k = Some v \<Longrightarrow> v \<in> hm_values hm"
  by (force simp: hm_good_def map_get_def hashmap_get_def hm_values_def bucket_of_def dest!: chain_get_in)

lemma map_put_values: "hm_values (map_put hm k v) \<subseteq> insert v (hm_values hm)"
proof (cases hm)
  case (Some m)
  let ?h = "bucket_of m k"
  have "snd ` (\<Union>b\<in>set ((hm_entries m)[?h := chain_set k (length k) v (hm_entries m ! ?h)]). set b)
      \<subseteq> insert v (snd ` (\<Union>b\<in>set (hm_entries m). set b))"
  proof (cases "?h < hm_size m")
    case True
    then have "hm_entries m ! ?h \<in> set (hm_entries m)" by simp
    then have "snd ` set (chain_set k (length k) v (hm_entries m ! ?h)) \<subseteq> insert v (snd ` (\<Union>b\<in>set (hm_entries m). set b))"
      using chain_set_values [of k "length k" v "hm_entries m ! ?h"] by blast
    then show ?thesis using set_update_subset_insert [of "hm_entries m" ?h] by blast
  next
    case False
    then show ?thesis by (simp add: list_update_beyond subset_insertI)
  qed
  then show ?thesis by (simp add: Some map_put_def hashmap_set_def Let_def hm_values_def)
qed (simp add: map_put_def hashmap_set_def hm_values_def)

lemma hm_values_create [simp]: "hm_values (Some (hashmap_create k)) = {}"
  by (auto simp: hm_values_def hashmap_create_def)

text \<open>The node \<^verbatim>\<open>tmpfs_create\<close> makes, with the fields later steps look at.\<close>

lemma S_ISDIR_not_REG: "S_ISDIR m \<Longrightarrow> \<not> S_ISREG m"
  by (simp add: S_ISDIR_def S_ISREG_def S_IFDIR_def S_IFREG_def)

lemma tmpfs_create_new:
  assumes "3 \<le> mem_left s" "next_node s \<noteq> 0"
  shows "\<exists>nd s'. tmpfs_create fs parent name mode s = (next_node s, s') \<and>
    nodes s' = (nodes s)(next_node s := nd) \<and> next_node s' = Suc (next_node s) \<and>
    vn_link nd = 0 \<and> vn_mountpoint nd = 0 \<and> st_mode (vn_stat nd) = mode \<and> vn_name nd = name \<and>
    vn_children nd = (if S_ISDIR mode then Some (hashmap_create 128) else None) \<and>
    (S_ISDIR mode \<longrightarrow> 2 \<le> mem_left s') \<and> vfs_root s' = vfs_root s"
  using assms S_ISDIR_not_REG [of mode]
  by (cases "S_ISDIR mode"; cases "S_ISREG mode")
    (auto simp: tmpfs_create_def vfs_create_node_def take_mem_def upd_node_def Let_def)

lemma dot_buckets:
  "hash_function [46] = 46" "hash_function [46, 46] = 3017600" "lit ''.'' = [46]" "lit ''..'' = [46, 46]"
  by code_simp+

lemma dot_lookups:
  "map_get (map_put (map_put (Some (hashmap_create 128)) (lit ''.'') a) (lit ''..'') b) (lit ''.'') = Some a"
  "map_get (map_put (map_put (Some (hashmap_create 128)) (lit ''.'') a) (lit ''..'') b) (lit ''..'') = Some b"
  by (simp_all add: map_get_def map_put_def hashmap_get_def hashmap_set_def Let_def bucket_of_def
      hashmap_create_def dot_buckets)

lemma create_dotentries_new:
  assumes "2 \<le> mem_left s" "next_node s \<noteq> 0" "node < next_node s"
    "vn_children (nodes s node) = Some (hashmap_create 128)"
  shows "\<exists>s' dot dotdot hm. create_dotentries parent node s = Some s' \<and>
    nodes s' = (nodes s)(next_node s := dot, Suc (next_node s) := dotdot, node := (nodes s node)\<lparr>vn_children := hm\<rparr>) \<and>
    next_node s' = next_node s + 2 \<and> vfs_root s' = vfs_root s \<and>
    vn_link dot = node \<and> vn_link dotdot = parent \<and> vn_mountpoint dot = 0 \<and> vn_mountpoint dotdot = 0 \<and>
    vn_children dot = None \<and> vn_children dotdot = None \<and>
    hm_values hm \<subseteq> {next_node s, Suc (next_node s)} \<and>
    map_get hm (lit ''.'') = Some (next_node s) \<and> map_get hm (lit ''..'') = Some (Suc (next_node s))"
proof -
  let ?hm = "map_put (map_put (Some (hashmap_create 128)) (lit ''.'') (next_node s)) (lit ''..'') (Suc (next_node s))"
  let ?nd = "\<lambda>name l. \<lparr>vn_name = lit name, vn_stat = zero_stat, vn_refcount = 0, vn_parent = node,
      vn_mountpoint = 0, vn_link = l, vn_children = None, vn_fs = vn_fs (nodes s node),
      vn_private = None, vn_lock = 0, vn_ops = StubOps\<rparr>"
  have vals: "hm_values ?hm \<subseteq> {next_node s, Suc (next_node s)}"
    using map_put_values [of "Some (hashmap_create 128)" "lit ''.''" "next_node s"]
      map_put_values [of "map_put (Some (hashmap_create 128)) (lit ''.'') (next_node s)" "lit ''..''" "Suc (next_node s)"]
    by auto
  let ?s' = "s\<lparr>nodes := (nodes s)(next_node s := ?nd ''.'' node, Suc (next_node s) := ?nd ''..'' parent,
        node := (nodes s node)\<lparr>vn_children := ?hm\<rparr>),
      next_node := next_node s + 2, mem_left := mem_left s - 2\<rparr>"
  have "create_dotentries parent node s = Some ?s'"
    using assms
    by (auto simp: create_dotentries_def vfs_create_node_def take_mem_def upd_node_def Let_def fun_eq_iff)
  then show ?thesis
    using dot_lookups [of "next_node s" "Suc (next_node s)"] vals
    by - (rule exI [of _ ?s'], rule exI [of _ "?nd ''.'' node"], rule exI [of _ "?nd ''..'' parent"],
        rule exI [of _ ?hm], simp)
qed

lemma vfs_reduce_end:
  assumes "vfs_reduce_node s n = Some r"
  shows "r \<noteq> 0 \<and> vn_link (nodes s r) = 0 \<and> vn_mountpoint (nodes s r) = 0"
  by (rule vfs_reduce_node.raw_induct
      [where P = "\<lambda>s n r. r \<noteq> 0 \<and> vn_link (nodes s r) = 0 \<and> vn_mountpoint (nodes s r) = 0", OF _ assms])
    (auto split: if_splits)

lemma get_simple:
  assumes "vfs_reduce_node s d = Some d" "simple_name c"
  shows "vfs_get_node s d c =
    (case map_get (vn_children (nodes s d)) c of None \<Rightarrow> Some 0 | Some n \<Rightarrow> vfs_reduce_node s n)"
  using assms
  by (auto simp: vfs_get_node_def path2node_simple lookup_child_def simple_name_path(5) [OF assms(2)]
      split: option.split bind_splits)

lemma vfs_create_state:
  assumes "d < next_node s" "vfs_reduce_node s d = Some d" "hm_good (vn_children (nodes s d))"
    "vn_lock (nodes s d) = 0" "fs_create (filesystems s (vn_fs (nodes s d))) = Some tmpfs_mount_fn"
    "3 \<le> mem_left s" "simple_name c" "map_get (vn_children (nodes s d)) c = None"
  shows "\<exists>s'. vfs_create d c mode s = Some (next_node s, s') \<and>
    next_node s' = next_node s + (if S_ISDIR mode then 3 else 1) \<and>
    nodes s' d = (nodes s d)\<lparr>vn_children := map_put (vn_children (nodes s d)) c (next_node s), vn_lock := 0\<rparr> \<and>
    (\<forall>n<next_node s. n \<noteq> d \<longrightarrow> nodes s' n = nodes s n) \<and>
    vn_link (nodes s' (next_node s)) = 0 \<and> vn_mountpoint (nodes s' (next_node s)) = 0 \<and>
    st_mode (vn_stat (nodes s' (next_node s))) = mode \<and>
    hm_values (vn_children (nodes s' (next_node s))) \<subseteq> {..<next_node s'} \<and>
    (S_ISDIR mode \<longrightarrow>
       (\<forall>n. next_node s < n \<longrightarrow> n < next_node s + 3 \<longrightarrow> vn_mountpoint (nodes s' n) = 0 \<and> vn_children (nodes s' n) = None) \<and>
       vn_link (nodes s' (next_node s + 1)) = next_node s \<and> vn_link (nodes s' (next_node s + 2)) = d \<and>
       map_get (vn_children (nodes s' (next_node s))) (lit ''.'') = Some (next_node s + 1) \<and>
       map_get (vn_children (nodes s' (next_node s))) (lit ''..'') = Some (next_node s + 2))"
proof -
  have d: "d \<noteq> 0" "d \<noteq> next_node s" "next_node s \<noteq> 0" using vfs_reduce_end [OF assms(2)] assms(1) by auto
  have path: "path2node s d c = Some (d, 0)"
    using assms(2,8) by (simp add: path2node_simple [OF assms(7)] lookup_child_def simple_name_path(5) [OF assms(7)])
  define s1 where "s1 = upd_node d (\<lambda>n. n\<lparr>vn_lock := 1\<rparr>) s"
  have s1: "nodes s1 = (nodes s)(d := (nodes s d)\<lparr>vn_lock := 1\<rparr>)" "next_node s1 = next_node s" "mem_left s1 = mem_left s"
      "filesystems s1 = filesystems s"
    by (simp_all add: s1_def upd_node_def)
  obtain nd s2 where s2: "tmpfs_create (vn_fs (nodes s d)) d c mode s1 = (next_node s, s2)"
      "nodes s2 = (nodes s1)(next_node s := nd)" "next_node s2 = Suc (next_node s)"
      "vn_link nd = 0" "vn_mountpoint nd = 0" "st_mode (vn_stat nd) = mode"
      "vn_children nd = (if S_ISDIR mode then Some (hashmap_create 128) else None)" "S_ISDIR mode \<longrightarrow> 2 \<le> mem_left s2"
    using tmpfs_create_new [of s1 "vn_fs (nodes s d)" d c mode] assms(6) d by (auto simp: s1)
  define s3 where "s3 = upd_node d (\<lambda>n. n\<lparr>vn_children := map_put (vn_children n) c (next_node s)\<rparr>) s2"
  have s3: "nodes s3 = (nodes s)(d := (nodes s d)\<lparr>vn_lock := 1, vn_children := map_put (vn_children (nodes s d)) c (next_node s)\<rparr>,
      next_node s := nd)" "next_node s3 = Suc (next_node s)" "mem_left s3 = mem_left s2"
    using d by (auto simp: s3_def upd_node_def s2 s1 fun_eq_iff)
  have children: "vn_children (nodes s2 d) \<noteq> None" using assms(3) d by (auto simp: s2 s1 hm_good_def)
  have isd: "is_dir s3 (next_node s) = S_ISDIR mode" by (simp add: is_dir_def s3 s2)
  have eq: "vfs_create d c mode s = do {
      s \<leftarrow> (if S_ISDIR mode then create_dotentries d (next_node s) s3 else Some s3);
      Some (next_node s1, upd_node d (\<lambda>n. n\<lparr>vn_lock := spinlock_release (vn_lock n)\<rparr>) s) }"
    using children isd d assms(4,5) s2(1)
    by (auto simp: vfs_create_def path simple_name_path(2) [OF assms(7)] call_create_def s1_def [symmetric] s1(2,4)
        s3_def [symmetric])
  show ?thesis
  proof (cases "S_ISDIR mode")
    case True
    obtain s4 dot dotdot hm where s4: "create_dotentries d (next_node s) s3 = Some s4"
        "nodes s4 = (nodes s3)(Suc (next_node s) := dot, Suc (Suc (next_node s)) := dotdot,
           next_node s := nd\<lparr>vn_children := hm\<rparr>)"
        "next_node s4 = next_node s + 3" "vn_link dot = next_node s" "vn_link dotdot = d" "vn_mountpoint dot = 0"
        "vn_mountpoint dotdot = 0" "vn_children dot = None" "vn_children dotdot = None"
        "hm_values hm \<subseteq> {Suc (next_node s), Suc (Suc (next_node s))}"
        "map_get hm (lit ''.'') = Some (Suc (next_node s))" "map_get hm (lit ''..'') = Some (Suc (Suc (next_node s)))"
      using create_dotentries_new [of s3 "next_node s" d] s2(7,8) True by (auto simp: s3 numeral_3_eq_3)
    have "n = Suc (next_node s) \<or> n = Suc (Suc (next_node s))" if "next_node s < n" "n < next_node s + 3" for n
      using that by auto
    moreover define s5 where "s5 = upd_node d (\<lambda>n. n\<lparr>vn_lock := spinlock_release (vn_lock n)\<rparr>) s4"
    moreover have "nodes s5 d = (nodes s d)\<lparr>vn_children := map_put (vn_children (nodes s d)) c (next_node s), vn_lock := 0\<rparr>"
      using d assms(1) by (simp add: s5_def upd_node_def s4(2) s3(1) spinlock_release_def)
    moreover have "nodes s5 n = nodes s n" if "n < next_node s" "n \<noteq> d" for n
      using that by (simp add: s5_def upd_node_def s4(2) s3(1))
    moreover have "nodes s5 (next_node s) = nd\<lparr>vn_children := hm\<rparr>" "nodes s5 (Suc (next_node s)) = dot"
        "nodes s5 (Suc (Suc (next_node s))) = dotdot" "next_node s5 = next_node s + 3"
      using d assms(1) by (simp_all add: s5_def upd_node_def s4(2,3))
    moreover have "vfs_create d c mode s = Some (next_node s, s5)" by (simp add: eq True s4(1) s1(2) s5_def)
    ultimately show ?thesis
      using True s4(4-) s2(4-6) by (intro exI [of _ s5]) auto
  next
    case False
    then show ?thesis
      using d assms(1) s2 s3 by (auto simp: eq upd_node_def spinlock_release_def s1 hm_values_def)
  qed
qed

lemma vfs_closed_grow:
  assumes "vfs_closed s" "d < next_node s" "next_node s < next_node s'"
    and d: "nodes s' d = (nodes s d)\<lparr>vn_children := map_put (vn_children (nodes s d)) c (next_node s), vn_lock := l\<rparr>"
    and old: "\<And>n. n < next_node s \<Longrightarrow> n \<noteq> d \<Longrightarrow> nodes s' n = nodes s n"
    and new: "\<And>n. next_node s \<le> n \<Longrightarrow> n < next_node s' \<Longrightarrow> vn_link (nodes s' n) < next_node s' \<and>
      vn_mountpoint (nodes s' n) < next_node s' \<and> hm_values (vn_children (nodes s' n)) \<subseteq> {..<next_node s'}"
  shows "vfs_closed s'"
proof -
  have "vn_link (nodes s' n) < next_node s' \<and> vn_mountpoint (nodes s' n) < next_node s' \<and>
      hm_values (vn_children (nodes s' n)) \<subseteq> {..<next_node s'}" if "n < next_node s" for n
  proof -
    have "vn_link (nodes s n) < next_node s" "vn_mountpoint (nodes s n) < next_node s"
        "hm_values (vn_children (nodes s n)) \<subseteq> {..<next_node s}"
      using assms(1) that by (simp_all add: vfs_closed_def)
    then show ?thesis
      using map_put_values [of "vn_children (nodes s d)" c "next_node s"] assms(3) old [OF that]
      by (cases "n = d") (auto simp: d)
  qed
  then show ?thesis using new assms(3) unfolding vfs_closed_def by (metis gr_implies_not0 neq0_conv not_less)
qed

text \<open>C28: creating a new simple name in a directory of a tmpfs, with memory for its nodes, makes the
  next node of the store, with the given mode; the name then leads to it, a new directory's dot leads
  to itself and its dotdot to the directory, every name that neither extends the new one nor is
  extended by it leads where it did, and the store stays closed.\<close>

theorem vfs_create_then_get:
  assumes "vfs_closed s" "d < next_node s" "vfs_reduce_node s d = Some d" "hm_good (vn_children (nodes s d))"
    "vn_lock (nodes s d) = 0" "fs_create (filesystems s (vn_fs (nodes s d))) = Some tmpfs_mount_fn"
    "3 \<le> mem_left s" "simple_name c" "map_get (vn_children (nodes s d)) c = None"
  shows "\<exists>s'. vfs_create d c mode s = Some (next_node s, s') \<and> vfs_closed s' \<and> vn_lock (nodes s' d) = 0 \<and>
    vfs_get_node s' d c = Some (next_node s) \<and> st_mode (vn_stat (nodes s' (next_node s))) = mode \<and>
    (S_ISDIR mode \<longrightarrow> vfs_get_node s' (next_node s) (lit ''.'') = Some (next_node s) \<and>
       vfs_get_node s' (next_node s) (lit ''..'') = Some d) \<and>
    (\<forall>c' m. simple_name c' \<longrightarrow> \<not> key_conflict c c' \<longrightarrow> vfs_get_node s d c' = Some m \<longrightarrow>
       vfs_get_node s' d c' = Some m)"
proof -
  obtain s' where s': "vfs_create d c mode s = Some (next_node s, s')"
      "next_node s' = next_node s + (if S_ISDIR mode then 3 else 1)"
      "nodes s' d = (nodes s d)\<lparr>vn_children := map_put (vn_children (nodes s d)) c (next_node s), vn_lock := 0\<rparr>"
      "\<And>n. n < next_node s \<Longrightarrow> n \<noteq> d \<Longrightarrow> nodes s' n = nodes s n"
      "vn_link (nodes s' (next_node s)) = 0" "vn_mountpoint (nodes s' (next_node s)) = 0"
      "st_mode (vn_stat (nodes s' (next_node s))) = mode"
      "hm_values (vn_children (nodes s' (next_node s))) \<subseteq> {..<next_node s'}"
      "\<And>n. S_ISDIR mode \<Longrightarrow> next_node s < n \<Longrightarrow> n < next_node s + 3 \<Longrightarrow> vn_mountpoint (nodes s' n) = 0 \<and> vn_children (nodes s' n) = None"
      "S_ISDIR mode \<Longrightarrow> vn_link (nodes s' (next_node s + 1)) = next_node s \<and> vn_link (nodes s' (next_node s + 2)) = d \<and>
       map_get (vn_children (nodes s' (next_node s))) (lit ''.'') = Some (next_node s + 1) \<and>
       map_get (vn_children (nodes s' (next_node s))) (lit ''..'') = Some (next_node s + 2)"
    using vfs_create_state [OF assms(2-9), of mode] by (elim exE conjE) blast
  let ?new = "next_node s"
  have "same_links s s'" unfolding same_links_def
  proof (intro allI impI)
    fix n assume "n < ?new"
    then show "vn_link (nodes s' n) = vn_link (nodes s n) \<and> vn_mountpoint (nodes s' n) = vn_mountpoint (nodes s n)"
      by (cases "n = d") (simp_all add: s'(3,4))
  qed
  then have red: "vfs_reduce_node s' n = Some r" if "vfs_reduce_node s n = Some r" "n < ?new" for n r
    using vfs_reduce_same [OF assms(1)] that by blast
  have new: "vfs_reduce_node s' ?new = Some ?new"
    using assms(2) s'(5,6) by (intro vfs_reduce_plain) auto
  have get: "vfs_get_node s' d c' =
      (case map_get (map_put (vn_children (nodes s d)) c ?new) c' of None \<Rightarrow> Some 0 | Some n \<Rightarrow> vfs_reduce_node s' n)"
    if "simple_name c'" for c'
    using get_simple [OF red [OF assms(3,2)] that] by (simp add: s'(3))
  have val: "v < ?new" if "map_get (vn_children (nodes s d)) k = Some v" for k v
    using map_get_in [OF assms(4) that] assms(1,2) unfolding vfs_closed_def by blast
  have "vfs_get_node s' d c = Some ?new"
    using get [OF assms(8)] new by (simp add: map_get_put_same [OF assms(4)])
  moreover have "vfs_get_node s' d c' = Some m"
    if "simple_name c'" "\<not> key_conflict c c'" "vfs_get_node s d c' = Some m" for c' m
    using that(3) red val
    by (auto simp: get [OF that(1)] get_simple [OF assms(3) that(1)] map_get_put_other [OF assms(4) that(2)]
        split: option.splits)
  moreover have "vfs_get_node s' ?new (lit ''.'') = Some ?new \<and> vfs_get_node s' ?new (lit ''..'') = Some d"
    if "S_ISDIR mode"
  proof -
    have "simple_name (lit ''.'')" "simple_name (lit ''..'')"
      by (simp_all add: simple_name_def dot_buckets SLASH_def)
    then show ?thesis
      using s'(10) [OF that] new red [OF assms(3,2)] s'(5) assms(2)
      by (simp add: get_simple [OF new] vfs_reduce_node.simps [of s' "Suc ?new"] vfs_reduce_node.simps [of s' "Suc (Suc ?new)"]
          vfs_reduce_end [OF assms(3)])
  qed
  moreover have "vfs_closed s'"
  proof (rule vfs_closed_grow [OF assms(1,2) _ s'(3,4)])
    fix n assume "?new \<le> n" "n < next_node s'"
    then consider "n = ?new" | "S_ISDIR mode" "n = ?new + 1 \<or> n = ?new + 2"
      using s'(2) by (fastforce split: if_splits)
    then show "vn_link (nodes s' n) < next_node s' \<and> vn_mountpoint (nodes s' n) < next_node s' \<and>
        hm_values (vn_children (nodes s' n)) \<subseteq> {..<next_node s'}"
      by cases (use s'(2,5,6,8,10) s'(9) [of n] assms(2) in \<open>auto simp: hm_values_def\<close>)
  qed (simp_all add: s'(2))
  ultimately show ?thesis using s'(1,3,7) by auto
qed

theorem vfs_create_then_get_witness:
  "\<exists>s'. vfs_create 1 (lit ''a'') S_IFREG sample_vfs = Some (3, s') \<and> vfs_get_node s' 1 (lit ''a'') = Some 3"
  using vfs_create_then_get [OF sample_dir(1) _ _ sample_dir(2) _ _ _ sample_dir(4,3), of S_IFREG]
  by (auto simp: sample_simps sample_reduce)

end
