(* ===== verification/Rng.thy ===== *)
theory Rng
  imports Spinlock
begin

text \<open>
  The pseudo random number generator, \<^verbatim>\<open>kernel/src/utils/random.c\<close>. The words the hardware delivers for a seed
  (the timer and \<^verbatim>\<open>rdseed\<close> or \<^verbatim>\<open>rdrand\<close>) are arguments, and so are the old contents of the memory that
  holds a new generator. The lower mask is computed as in C: \<^verbatim>\<open>1 << 31\<close> is a negative \<^verbatim>\<open>int\<close>, and its
  conversion to 64 bits extends the sign.
\<close>

definition MT_SIZE :: nat where "MT_SIZE = 312"
definition MT_PERIOD :: nat where "MT_PERIOD = 156"
definition MT_LOWER_MASK :: u64 where "MT_LOWER_MASK = scast (push_bit 31 (1 :: u32)) - 1"
definition MT_UPPER_MASK :: u64 where "MT_UPPER_MASK = NOT MT_LOWER_MASK"

record rng_state =
  mt_state :: "u64 list"
  mt_index :: nat
  mt_lock :: u64

text \<open>One step of the loop that renews the state, which reads entries already renewed.\<close>

definition twist :: "nat \<Rightarrow> u64 list \<Rightarrow> u64 list" where
  "twist i st =
     (let x = (st ! i AND MT_UPPER_MASK) + (st ! ((i + 1) mod MT_SIZE) AND MT_LOWER_MASK);
          xa = drop_bit 1 x;
          xa = (if x AND 1 \<noteq> 0 then xa XOR 0xb5026f5aa96619e9 else xa)
      in st[i := st ! ((i + MT_PERIOD) mod MT_SIZE) XOR xa])"

definition renew :: "rng_state \<Rightarrow> rng_state" where
  "renew rng = rng\<lparr>mt_state := fold twist [0..<MT_SIZE - 1] (mt_state rng), mt_index := 0\<rparr>"

definition temper :: "u64 \<Rightarrow> u64" where
  "temper y =
     (let y = y XOR (drop_bit 29 y AND 0x5555555555555555);
          y = y XOR (drop_bit 17 y AND 0x71d67fffeda60000);
          y = y XOR (drop_bit 37 y AND 0xfff7eee000000000)
      in y XOR drop_bit 43 y)"

definition generate :: "rng_state \<Rightarrow> u64 \<times> rng_state" where
  "generate rng =
     (let rng = (if MT_SIZE \<le> mt_index rng then renew rng else rng)
      in (temper (mt_state rng ! mt_index rng), rng\<lparr>mt_index := mt_index rng + 1\<rparr>))"

definition get_hardware_rand :: "bool \<Rightarrow> bool \<Rightarrow> u64 \<Rightarrow> u64 \<Rightarrow> u64 \<Rightarrow> u64 \<Rightarrow> u64" where
  "get_hardware_rand use_rdseed use_rdrand rdseed rdrand hpet1 hpet2 =
     (if use_rdseed then rdseed
      else if use_rdrand then rdrand
      else (hpet1 * 0xffab4587becdf092) XOR (hpet2 * 0xbec79834da760912))"

definition rng_seed :: "u64 \<Rightarrow> u64 \<Rightarrow> rng_state \<Rightarrow> rng_state option" where
  "rng_seed hw seed rng = do {
     l \<leftarrow> spinlock_acquire (mt_lock rng);
     let st = (mt_state rng)[0 := seed * (seed XOR hw)];
     let st = fold (\<lambda>i st. st[i := 0x5851f42d4c957f2d * (st ! (i - 1) XOR drop_bit 62 (st ! (i - 1))) + of_nat i])
                [1..<MT_SIZE - 1] st;
     Some (rng\<lparr>mt_state := st, mt_index := MT_SIZE, mt_lock := spinlock_release l\<rparr>)
   }"

definition rng_create :: "u64 list \<Rightarrow> u64 \<Rightarrow> u64 \<Rightarrow> rng_state option" where
  "rng_create old hw hpet = rng_seed hw hpet \<lparr>mt_state = old, mt_index = MT_SIZE, mt_lock = 0\<rparr>"

definition rng_rand :: "rng_state \<Rightarrow> (u64 \<times> rng_state) option" where
  "rng_rand rng = do {
     l \<leftarrow> spinlock_acquire (mt_lock rng);
     let (value, rng) = generate (rng\<lparr>mt_lock := l\<rparr>);
     Some (value, rng\<lparr>mt_lock := spinlock_release (mt_lock rng)\<rparr>)
   }"

text \<open>The bytes of a value, lowest first, and the two loops of \<^verbatim>\<open>rng_rand_fill\<close>.\<close>

definition value_bytes :: "nat \<Rightarrow> u64 \<Rightarrow> u8 list" where
  "value_bytes n value = map (\<lambda>i. ucast (drop_bit (8 * i) value AND 0xff)) [0..<n]"

fun fill_loop :: "nat \<Rightarrow> rng_state \<Rightarrow> u8 list \<times> rng_state" where
  "fill_loop len rng =
     (if 8 \<le> len then
        let (value, rng) = generate rng;
            (rest, rng) = fill_loop (len - 8) rng
        in (value_bytes 8 value @ rest, rng)
      else if 0 < len then
        let (value, rng) = generate rng in (value_bytes len value, rng)
      else ([], rng))"

declare fill_loop.simps [simp del]

definition rng_rand_fill :: "nat \<Rightarrow> rng_state \<Rightarrow> (u8 list \<times> rng_state) option" where
  "rng_rand_fill count rng = do {
     l \<leftarrow> spinlock_acquire (mt_lock rng);
     let (bytes, rng) = fill_loop count (rng\<lparr>mt_lock := l\<rparr>);
     Some (bytes, rng\<lparr>mt_lock := spinlock_release (mt_lock rng)\<rparr>)
   }"

section \<open>The state of a generator\<close>

definition rng_ok :: "rng_state \<Rightarrow> bool" where
  "rng_ok rng \<longleftrightarrow> length (mt_state rng) = MT_SIZE \<and> mt_index rng \<le> MT_SIZE \<and> mt_lock rng = 0"

lemma length_fold_twist [simp]: "length (fold twist is st) = length st"
  by (induction "is" arbitrary: st) (simp_all add: twist_def Let_def)

lemma generate_keeps:
  assumes "length (mt_state rng) = MT_SIZE" "mt_index rng \<le> MT_SIZE" "generate rng = (v, rng')"
  shows "length (mt_state rng') = MT_SIZE \<and> mt_index rng' \<le> MT_SIZE \<and> mt_lock rng' = mt_lock rng"
  using assms by (auto simp: generate_def Let_def renew_def MT_SIZE_def split: if_splits)

text \<open>The index \<^term>\<open>generate\<close> reads is always inside the array.\<close>

lemma generate_in_bounds:
  "rng_ok rng \<Longrightarrow> mt_index (if MT_SIZE \<le> mt_index rng then renew rng else rng) < MT_SIZE"
  by (simp add: renew_def MT_SIZE_def)

lemma length_value_bytes [simp]: "length (value_bytes n v) = n"
  by (simp add: value_bytes_def)

lemma fill_loop_keeps:
  "length (mt_state rng) = MT_SIZE \<Longrightarrow> mt_index rng \<le> MT_SIZE \<Longrightarrow> fill_loop len rng = (bytes, rng') \<Longrightarrow>
   length bytes = len \<and> length (mt_state rng') = MT_SIZE \<and> mt_index rng' \<le> MT_SIZE \<and> mt_lock rng' = mt_lock rng"
proof (induction len rng arbitrary: bytes rng' rule: fill_loop.induct)
  case (1 len rng)
  obtain v rng1 where g: "generate rng = (v, rng1)" by force
  note k = generate_keeps [OF 1(2,3) g]
  show ?case
  proof (cases "8 \<le> len")
    case True
    obtain rest rng2 where f: "fill_loop (len - 8) rng1 = (rest, rng2)" by force
    have "bytes = value_bytes 8 v @ rest \<and> rng' = rng2"
      using 1(4) True by (subst (asm) fill_loop.simps) (simp add: g f)
    then show ?thesis using 1(1) [OF True g [symmetric] refl _ _ f] k True by simp
  next
    case False
    then have "bytes = (if 0 < len then value_bytes len v else []) \<and> rng' = (if 0 < len then rng1 else rng)"
      using 1(4) by (subst (asm) fill_loop.simps) (auto simp: g split: if_splits)
    then show ?thesis using k 1(2,3) by simp
  qed
qed

lemma rng_rand_fill_ok:
  assumes "rng_ok rng"
  shows "\<exists>bytes rng'. rng_rand_fill count rng = Some (bytes, rng') \<and> length bytes = count \<and> rng_ok rng'"
proof -
  obtain bytes rng' where f: "fill_loop count (rng\<lparr>mt_lock := 1\<rparr>) = (bytes, rng')" by force
  show ?thesis
    using assms fill_loop_keeps [OF _ _ f] by (simp add: rng_rand_fill_def rng_ok_def f)
qed

lemma rng_create_ok:
  assumes "length old = MT_SIZE"
  shows "\<exists>rng. rng_create old hw hpet = Some rng \<and> rng_ok rng"
proof -
  have "length (fold (\<lambda>i st. st[i := f i st]) is st) = length st" for f :: "nat \<Rightarrow> u64 list \<Rightarrow> u64" and "is" st
    by (induction "is" arbitrary: st) simp_all
  then show ?thesis using assms by (simp add: rng_create_def rng_seed_def rng_ok_def Let_def)
qed

text \<open>The lower mask is not the low 31 bits.\<close>

lemma MT_LOWER_MASK_value: "MT_LOWER_MASK = 0xFFFFFFFF7FFFFFFF"
  by (simp add: MT_LOWER_MASK_def)

end
