(* ===== verification/Vector.thy ===== *)
theory Vector
  imports Prelude
begin

text \<open>
  The kernel's growing array of pointers, \<^verbatim>\<open>kernel/src/utils/vector.c\<close>. A pointer is a 64-bit word; the slots
  are a function because the code reads and writes behind the allocated part: the slots from the
  capacity on are the memory that follows the array. All vectors of the kernel have elements of 8
  bytes, and \<^verbatim>\<open>data\<close> is an array of pointers, so the products \<^verbatim>\<open>elem_size * index\<close> in the code are indices,
  not offsets. A null vector is \<open>None\<close>. Destroying a vector only frees memory.
\<close>

definition VECTOR_INITIAL_CAPACITY :: nat where "VECTOR_INITIAL_CAPACITY = 4"
definition VECTOR_RESIZE_FACTOR :: nat where "VECTOR_RESIZE_FACTOR = 2"

record vector =
  v_elem_size :: nat
  v_size :: nat
  v_capacity :: nat
  v_data :: "nat \<Rightarrow> u64"

definition vector_create :: "nat \<Rightarrow> (nat \<Rightarrow> u64) \<Rightarrow> vector" where
  "vector_create elem_size old =
     \<lparr>v_elem_size = elem_size, v_size = 0, v_capacity = VECTOR_INITIAL_CAPACITY, v_data = old\<rparr>"

text \<open>The result of \<^verbatim>\<open>vector_get\<close> is the address of a slot; the model returns the number of the slot.\<close>

definition vector_get :: "vector option \<Rightarrow> nat \<Rightarrow> nat option" where
  "vector_get v index =
     (case v of
        None \<Rightarrow> None
      | Some v \<Rightarrow> if v_size v \<le> index then None else Some (v_elem_size v * index))"

definition vector_set :: "vector option \<Rightarrow> nat \<Rightarrow> u64 \<Rightarrow> bool \<times> vector option" where
  "vector_set v index val =
     (case v of
        None \<Rightarrow> (False, None)
      | Some v \<Rightarrow>
          if v_size v \<le> index then (False, Some v)
          else (True, Some (v\<lparr>v_data := (v_data v)(v_elem_size v * index := val)\<rparr>)))"

definition vector_pop_back :: "vector option \<Rightarrow> nat option \<times> vector option" where
  "vector_pop_back v =
     (case v of
        None \<Rightarrow> (None, None)
      | Some v \<Rightarrow> (Some (v_elem_size v * v_size v), Some (v\<lparr>v_size := (if v_size v = 0 then 2 ^ 64 - 1 else v_size v - 1)\<rparr>)))"

text \<open>
  \<^verbatim>\<open>memmove\<close> of \<open>n\<close> bytes from slot \<open>i + 1\<close> to slot \<open>i\<close>: the full slots among them move down by one, and of
  the slot after them only the low \<open>n mod 8\<close> bytes are replaced.
\<close>

definition shift_slots :: "nat \<Rightarrow> nat \<Rightarrow> (nat \<Rightarrow> u64) \<Rightarrow> nat \<Rightarrow> u64" where
  "shift_slots i n d =
     (\<lambda>j. if i \<le> j \<and> j < i + n div 8 then d (Suc j)
          else if j = i + n div 8 then
            (d (Suc j) AND mask (8 * (n mod 8))) OR (d j AND NOT (mask (8 * (n mod 8))))
          else d j)"

definition vector_remove :: "vector option \<Rightarrow> nat \<Rightarrow> bool \<times> vector option" where
  "vector_remove v index =
     (case v of
        None \<Rightarrow> (False, None)
      | Some w \<Rightarrow>
          if v_size w \<le> index then (False, v)
          else if index = v_size w - 1 then (True, snd (vector_pop_back v))
          else (True, Some (w\<lparr>v_data := shift_slots index (v_elem_size w * v_size w - index - 1) (v_data w),
                               v_size := v_size w - 1\<rparr>)))"

definition vector_remove_by_value :: "vector option \<Rightarrow> u64 \<Rightarrow> bool \<times> vector option" where
  "vector_remove_by_value v val =
     (case v of
        None \<Rightarrow> (False, None)
      | Some w \<Rightarrow>
          (case find (\<lambda>i. v_data w (v_elem_size w * i) = val) [0..<v_size w] of
             None \<Rightarrow> (False, v)
           | Some i \<Rightarrow> (True, snd (vector_remove v i))))"

text \<open>\<^verbatim>\<open>krealloc\<close> of a full array: the old slots are kept, \<open>fresh\<close> is what the new memory holds behind them.\<close>

definition vector_push_back :: "(nat \<Rightarrow> u64) \<Rightarrow> vector option \<Rightarrow> u64 \<Rightarrow> bool \<times> vector option" where
  "vector_push_back fresh v val =
     (case v of
        None \<Rightarrow> (False, None)
      | Some v \<Rightarrow>
          let v = (if v_size v = v_capacity v then
                     v\<lparr>v_capacity := v_capacity v * VECTOR_RESIZE_FACTOR,
                       v_data := (\<lambda>j. if j < v_size v then v_data v j else fresh j)\<rparr>
                   else v)
          in (True, Some (v\<lparr>v_data := (v_data v)(v_size v := val), v_size := v_size v + 1\<rparr>)))"

section \<open>Vectors as lists\<close>

definition vec_list :: "vector \<Rightarrow> u64 list" where
  "vec_list v = map (v_data v) [0..<v_size v]"

definition vec_ok :: "vector \<Rightarrow> bool" where
  "vec_ok v \<longleftrightarrow> v_elem_size v = 8 \<and> v_size v \<le> v_capacity v \<and> 0 < v_capacity v"

lemma vector_create_ok: "vec_ok (vector_create 8 old) \<and> vec_list (vector_create 8 old) = []"
  by (simp add: vec_ok_def vec_list_def vector_create_def VECTOR_INITIAL_CAPACITY_def)

lemma vector_push_back_appends:
  assumes "vec_ok v" "vector_push_back fresh (Some v) x = (b, Some v')"
  shows "b \<and> vec_ok v' \<and> vec_list v' = vec_list v @ [x]"
  using assms
  by (auto simp: vector_push_back_def vec_ok_def vec_list_def Let_def VECTOR_RESIZE_FACTOR_def split: if_splits)

lemma shift_slots_list:
  assumes "i < k"
  shows "map (shift_slots i (8 * Suc k - i - 1) d) [0..<k] = take i (map d [0..<k]) @ map d [Suc i..<Suc k]"
proof (intro nth_equalityI)
  fix j assume "j < length (map (shift_slots i (8 * Suc k - i - 1) d) [0..<k])"
  then have j: "j < k" by simp
  have "8 * (k - i) \<le> 8 * Suc k - i - 1" using assms by simp
  then have "k - i \<le> (8 * Suc k - i - 1) div 8" by linarith
  then have "k \<le> i + (8 * Suc k - i - 1) div 8" using assms by simp
  then show "map (shift_slots i (8 * Suc k - i - 1) d) [0..<k] ! j =
      (take i (map d [0..<k]) @ map d [Suc i..<Suc k]) ! j"
    using j assms by (auto simp: shift_slots_def nth_append simp del: upt_Suc)
qed (use assms in simp)

lemma vector_remove_list:
  assumes "vec_ok v" "i < v_size v"
  shows "\<exists>v'. vector_remove (Some v) i = (True, Some v') \<and> vec_ok v' \<and>
    vec_list v' = take i (vec_list v) @ drop (Suc i) (vec_list v)"
proof (cases "i = v_size v - 1")
  case True
  then show ?thesis
    using assms
    by (auto simp: vector_remove_def vector_pop_back_def vec_ok_def vec_list_def take_map)
next
  case False
  then obtain k where k: "v_size v = Suc k" "i < k" using assms(2) by (cases "v_size v") auto
  have "8 * Suc k - i - 1 = 7 + 8 * k - i" by simp
  then have "vec_list (v\<lparr>v_data := shift_slots i (8 * Suc k - i - 1) (v_data v), v_size := k\<rparr>) =
      take i (vec_list v) @ drop (Suc i) (vec_list v)"
    using shift_slots_list [OF k(2), of "v_data v"] k
    by (simp add: vec_list_def drop_map take_map del: upt_Suc)
  then show ?thesis
    using assms(1) k False by (auto simp: vector_remove_def vec_ok_def)
qed

text \<open>
  Removal by value compares every eighth slot. The first element is found; an element in another
  place is found only if the memory behind the array happens to hold it.
\<close>

lemma vector_remove_first:
  assumes "vec_ok v" "vec_list v = x # xs"
  shows "\<exists>v'. vector_remove_by_value (Some v) x = (True, Some v') \<and> vec_ok v' \<and> vec_list v' = xs"
proof -
  have sz: "0 < v_size v" "v_data v 0 = x" using assms(2) by (auto simp: vec_list_def upt_eq_Cons_conv)
  then have "find (\<lambda>i. v_data v (v_elem_size v * i) = x) [0..<v_size v] = Some 0"
    by (simp add: upt_conv_Cons)
  moreover obtain v' where "vector_remove (Some v) 0 = (True, Some v')" "vec_ok v'" "vec_list v' = xs"
    using vector_remove_list [OF assms(1) sz(1)] assms(2) by auto
  ultimately show ?thesis by (simp add: vector_remove_by_value_def)
qed

lemma vector_remove_missed:
  assumes "\<And>i. i < v_size v \<Longrightarrow> v_data v (v_elem_size v * i) \<noteq> x"
  shows "vector_remove_by_value (Some v) x = (False, Some v)"
proof -
  have "find (\<lambda>i. v_data v (v_elem_size v * i) = x) [0..<v_size v] = None"
    using assms by (auto simp: find_None_iff)
  then show ?thesis by (simp add: vector_remove_by_value_def)
qed

end
