(* ===== verification/Fd.thy ===== *)
theory Fd
  imports Vfs Rng Vector
begin

text \<open>
  Processes as the file layer sees them, file descriptors and the file system calls:
  \<^verbatim>\<open>kernel/src/fs/fd.c\<close>, \<^verbatim>\<open>kernel/src/utils/user_access.c\<close>, \<^verbatim>\<open>kernel/src/sys/syscalls/sc_file.c\<close>, with the record
  of \<^verbatim>\<open>kernel/include/sys/process.h\<close>. The state extends that of the file system by a store of processes, a
  store of file descriptors, the running process, its memory and the generator of the random device. Numbers of the stores stand for
  pointers, 0 is null.

  A system call takes its arguments from the registers \<^verbatim>\<open>rdi\<close>, \<^verbatim>\<open>rsi\<close>, \<^verbatim>\<open>rdx\<close> and leaves its result in
  \<^verbatim>\<open>rax\<close>; an argument of type \<^verbatim>\<open>int\<close> is the low half of the register read signed. Messages to the log
  are left out. User memory is taken to be mapped wherever a checked pointer leads.

  The functions of device nodes are an argument \<open>dv\<close>: the drivers are separate components.
\<close>

definition MAX_FDS :: nat where "MAX_FDS = 32"
definition PATH_MAX :: nat where "PATH_MAX = 4096"
definition PROCESS_BRK_BASE :: u64 where "PROCESS_BRK_BASE = 0x60000000000"
definition PROCESS_THREAD_STACK_TOP :: u64 where "PROCESS_THREAD_STACK_TOP = 0x70000000000"

definition O_PATH :: u32 where "O_PATH = 0x80"
definition O_RDONLY :: u32 where "O_RDONLY = 0"
definition O_WRONLY :: u32 where "O_WRONLY = 1"
definition O_RDWR :: u32 where "O_RDWR = 2"
definition O_ACCMODE :: u32 where "O_ACCMODE = 3 OR O_PATH"
definition O_CREAT :: u32 where "O_CREAT = 4"
definition O_DIRECTORY :: u32 where "O_DIRECTORY = 8"
definition O_TRUNC :: u32 where "O_TRUNC = 0x10"
definition O_APPEND :: u32 where "O_APPEND = 0x20"
definition O_EXCL :: u32 where "O_EXCL = 0x40"
definition O_NONBLOCK :: u32 where "O_NONBLOCK = 0x100"
definition O_CLOEXEC :: u32 where "O_CLOEXEC = 0x200"

definition FD_FLAGS_MASK :: u32 where "FD_FLAGS_MASK = O_CLOEXEC"
definition FILE_CREATION_FLAGS_MASK :: u32 where
  "FILE_CREATION_FLAGS_MASK = O_ACCMODE OR O_CREAT OR O_DIRECTORY OR O_TRUNC OR O_APPEND OR O_EXCL OR O_NONBLOCK"
definition FILE_FLAGS_MASK :: u32 where
  "FILE_FLAGS_MASK = FILE_CREATION_FLAGS_MASK OR FD_FLAGS_MASK"

lemmas open_flag_defs = O_PATH_def O_RDONLY_def O_WRONLY_def O_RDWR_def O_ACCMODE_def O_CREAT_def
  O_DIRECTORY_def O_TRUNC_def O_APPEND_def O_EXCL_def O_NONBLOCK_def O_CLOEXEC_def
  FD_FLAGS_MASK_def FILE_CREATION_FLAGS_MASK_def FILE_FLAGS_MASK_def

datatype process_state = PROCESS_RUNNING | PROCESS_WAITING | PROCESS_ZOMBIE

record process =
  pr_pid :: int
  pr_state :: process_state
  pr_name :: cstring
  pr_status :: int
  pr_pagemap :: u64
  pr_code_base :: u64
  pr_thread_stack_top :: u64
  pr_brk :: u64
  pr_brk_next :: u64
  pr_cwd :: nat
  pr_fd_lock :: u64
  pr_fds :: "nat list"
  pr_ticks :: timespec
  pr_parent :: nat
  pr_children :: "vector option"
  pr_threads :: "vector option"

record file_descriptor =
  fd_node :: nat
  fd_flags :: u32
  fd_refcount :: u64
  fd_offset :: u64
  fd_lock :: u64

record os = vfs +
  procs :: "nat \<Rightarrow> process"
  fds :: "nat \<Rightarrow> file_descriptor"
  next_fd :: nat
  running :: nat
  umem :: "u64 \<Rightarrow> u8"
  random_rng :: rng_state

definition upd_proc :: "nat \<Rightarrow> (process \<Rightarrow> process) \<Rightarrow> 'a os_scheme \<Rightarrow> 'a os_scheme" where
  "upd_proc p f s = s\<lparr>procs := (procs s)(p := f (procs s p))\<rparr>"

definition upd_fd :: "nat \<Rightarrow> (file_descriptor \<Rightarrow> file_descriptor) \<Rightarrow> 'a os_scheme \<Rightarrow> 'a os_scheme" where
  "upd_fd n f s = s\<lparr>fds := (fds s)(n := f (fds s n))\<rparr>"

text \<open>The functions of device nodes, by the number in \<^term>\<open>DevOps\<close>.\<close>

record 's device =
  dev_read :: "nat \<Rightarrow> u64 \<Rightarrow> u64 \<Rightarrow> u32 \<Rightarrow> 's \<Rightarrow> (u8 list \<times> int \<times> 's) option"
  dev_write :: "nat \<Rightarrow> u8 list \<Rightarrow> u64 \<Rightarrow> u32 \<Rightarrow> 's \<Rightarrow> (int \<times> 's) option"
  dev_ioctl :: "nat \<Rightarrow> u64 \<Rightarrow> u64 \<Rightarrow> 's \<Rightarrow> (int \<times> 's) option"
  dev_truncate :: "nat \<Rightarrow> u64 \<Rightarrow> 's \<Rightarrow> (int \<times> 's) option"
  dev_sync :: "nat \<Rightarrow> 's \<Rightarrow> (int \<times> 's) option"

type_synonym 'a devices = "nat \<Rightarrow> 'a os_scheme device"

definition node_read ::
    "'a devices \<Rightarrow> nat \<Rightarrow> u64 \<Rightarrow> u64 \<Rightarrow> u32 \<Rightarrow> 'a os_scheme \<Rightarrow> (u8 list \<times> int \<times> 'a os_scheme) option" where
  "node_read dv n offset count flags s =
     (case vn_ops (nodes s n) of
        StubOps \<Rightarrow> Some ([], read_stub, s)
      | TmpfsOps \<Rightarrow> tmpfs_read n offset count s
      | DevOps k \<Rightarrow> dev_read (dv k) n offset count flags s)"

definition node_write ::
    "'a devices \<Rightarrow> nat \<Rightarrow> u8 list \<Rightarrow> u64 \<Rightarrow> u32 \<Rightarrow> 'a os_scheme \<Rightarrow> (int \<times> 'a os_scheme) option" where
  "node_write dv n buf offset flags s =
     (case vn_ops (nodes s n) of
        StubOps \<Rightarrow> Some (write_stub, s)
      | TmpfsOps \<Rightarrow> tmpfs_write n buf offset s
      | DevOps k \<Rightarrow> dev_write (dv k) n buf offset flags s)"

definition node_ioctl ::
    "'a devices \<Rightarrow> nat \<Rightarrow> u64 \<Rightarrow> u64 \<Rightarrow> 'a os_scheme \<Rightarrow> (int \<times> 'a os_scheme) option" where
  "node_ioctl dv n request argp s =
     (case vn_ops (nodes s n) of
        DevOps k \<Rightarrow> dev_ioctl (dv k) n request argp s
      | _ \<Rightarrow> Some (ioctl_stub, s))"

definition node_truncate :: "'a devices \<Rightarrow> nat \<Rightarrow> u64 \<Rightarrow> 'a os_scheme \<Rightarrow> (int \<times> 'a os_scheme) option" where
  "node_truncate dv n len s =
     (case vn_ops (nodes s n) of
        StubOps \<Rightarrow> Some (truncate_stub, s)
      | TmpfsOps \<Rightarrow> tmpfs_truncate n len s
      | DevOps k \<Rightarrow> dev_truncate (dv k) n len s)"

definition node_sync :: "'a devices \<Rightarrow> nat \<Rightarrow> 'a os_scheme \<Rightarrow> (int \<times> 'a os_scheme) option" where
  "node_sync dv n s =
     (case vn_ops (nodes s n) of
        DevOps k \<Rightarrow> dev_sync (dv k) n s
      | _ \<Rightarrow> Some (sync_stub, s))"

section \<open>File descriptors\<close>

definition fd_create :: "nat \<Rightarrow> u32 \<Rightarrow> 'a os_scheme \<Rightarrow> nat \<times> 'a os_scheme" where
  "fd_create node flags s =
     (case take_mem s of
        (False, s) \<Rightarrow> (0, s)
      | (True, s) \<Rightarrow>
          let s = upd_node node (\<lambda>n. n\<lparr>vn_refcount := vn_refcount n + 1\<rparr>) s;
              fd = next_fd s
          in (fd, s\<lparr>next_fd := Suc fd,
                fds := (fds s)(fd := \<lparr>fd_node = node, fd_flags = flags AND FILE_FLAGS_MASK, fd_refcount = 1,
                  fd_offset = 0, fd_lock = 0\<rparr>)\<rparr>))"

definition lock_fds :: "nat \<Rightarrow> 'a os_scheme \<Rightarrow> 'a os_scheme option" where
  "lock_fds p s = do {
     l \<leftarrow> spinlock_acquire (pr_fd_lock (procs s p));
     Some (upd_proc p (\<lambda>q. q\<lparr>pr_fd_lock := l\<rparr>) s)
   }"

definition unlock_fds :: "nat \<Rightarrow> 'a os_scheme \<Rightarrow> 'a os_scheme" where
  "unlock_fds p s = upd_proc p (\<lambda>q. q\<lparr>pr_fd_lock := spinlock_release (pr_fd_lock q)\<rparr>) s"

definition fd_close :: "nat \<Rightarrow> int \<Rightarrow> 'a os_scheme \<Rightarrow> (int \<times> 'a os_scheme) option" where
  "fd_close p fdnum s =
     (if fdnum < 0 \<or> int MAX_FDS \<le> fdnum then Some (- EBADF, s)
      else do {
        s \<leftarrow> lock_fds p s;
        let fd = pr_fds (procs s p) ! nat fdnum;
        if fd = 0 then Some (- EBADF, unlock_fds p s)
        else do {
          let s = upd_fd fd (\<lambda>f. f\<lparr>fd_refcount := fd_refcount f - 1\<rparr>) s;
          let s = upd_proc p (\<lambda>q. q\<lparr>pr_fds := (pr_fds q)[nat fdnum := 0]\<rparr>) s;
          Some (0, unlock_fds p s)
        }
      })"

definition fd_from_fdnum :: "nat \<Rightarrow> int \<Rightarrow> 'a os_scheme \<Rightarrow> (nat \<times> 'a os_scheme) option" where
  "fd_from_fdnum p fdnum s =
     (if fdnum < 0 \<or> int MAX_FDS \<le> fdnum then Some (0, s)
      else do {
        s \<leftarrow> lock_fds p s;
        let fd = pr_fds (procs s p) ! nat fdnum;
        let s = (if fd \<noteq> 0 then upd_fd fd (\<lambda>f. f\<lparr>fd_refcount := fd_refcount f + 1\<rparr>) s else s);
        Some (fd, unlock_fds p s)
      })"

text \<open>The first free slot of a table from an index on; the length of the table if there is none.\<close>

function free_slot :: "nat list \<Rightarrow> nat \<Rightarrow> nat" where
  "free_slot t i = (if i < length t \<and> t ! i \<noteq> 0 then free_slot t (Suc i) else i)"
  by pat_completeness auto
termination by (relation "measure (\<lambda>(t, i). length t - i)") auto

declare free_slot.simps [simp del]

definition fd_alloc_fdnum :: "nat \<Rightarrow> nat \<Rightarrow> 'a os_scheme \<Rightarrow> (int \<times> 'a os_scheme) option" where
  "fd_alloc_fdnum p fd s = do {
     s \<leftarrow> lock_fds p s;
     let i = free_slot (pr_fds (procs s p)) 0;
     if i < MAX_FDS then
       Some (int i, unlock_fds p (upd_proc p (\<lambda>q. q\<lparr>pr_fds := (pr_fds q)[i := fd]\<rparr>) s))
     else Some (-1, unlock_fds p s)
   }"

text \<open>
  Duplicating a descriptor. The second half of \<^verbatim>\<open>fd_dup\<close> stores the copy \<open>fd\<close>. Indexing the table with a
  negative number or, for an exact number, beyond its end leaves the process record: \<open>None\<close>. The
  search ends at the number \<open>i\<close> where it broke off, and \<^verbatim>\<open>EMFILE\<close> is returned when that is the last slot.
\<close>

definition fd_dup_store ::
    "nat \<Rightarrow> nat \<Rightarrow> int \<Rightarrow> bool \<Rightarrow> nat \<Rightarrow> 'a os_scheme \<Rightarrow> (int \<times> 'a os_scheme) option" where
  "fd_dup_store old_fd new_process new_fdnum exact fd s =
     (let ref = upd_fd old_fd (\<lambda>f. f\<lparr>fd_refcount := fd_refcount f + 1\<rparr>);
          put = (\<lambda>i. upd_proc new_process (\<lambda>q. q\<lparr>pr_fds := (pr_fds q)[i := fd]\<rparr>)) in
      if new_fdnum < 0 then None
      else if \<not> exact then
        let i = free_slot (pr_fds (procs s new_process)) (nat new_fdnum) in
        if i = MAX_FDS - 1 then Some (- EMFILE, put i s)
        else if i < MAX_FDS then Some (int i, ref (put i s))
        else Some (new_fdnum, ref s)
      else if int MAX_FDS \<le> new_fdnum then None
      else do {
        s \<leftarrow> (if pr_fds (procs s new_process) ! nat new_fdnum \<noteq> 0
              then map_option snd (fd_close new_process new_fdnum s) else Some s);
        Some (new_fdnum, ref (put (nat new_fdnum) s))
      })"

definition fd_dup ::
    "nat \<Rightarrow> int \<Rightarrow> nat \<Rightarrow> int \<Rightarrow> bool \<Rightarrow> bool \<Rightarrow> 'a os_scheme \<Rightarrow> (int \<times> 'a os_scheme) option" where
  "fd_dup old_process old_fdnum new_process new_fdnum exact cloexec s =
     (if old_fdnum = new_fdnum \<and> old_process = new_process then Some (- EINVAL, s)
      else do {
        (old_fd, s) \<leftarrow> fd_from_fdnum old_process old_fdnum s;
        if old_fd = 0 then Some (- EBADF, s)
        else
          let (ok, s) = take_mem s in
          if \<not> ok then Some (- ENOMEM, s)
          else
            let fd = next_fd s;
                copy = fds s old_fd;
                copy = (if cloexec then copy\<lparr>fd_flags := fd_flags copy OR O_CLOEXEC\<rparr> else copy);
                s = s\<lparr>next_fd := Suc fd, fds := (fds s)(fd := copy)\<rparr>
            in fd_dup_store old_fd new_process new_fdnum exact fd s
      })"

section \<open>User memory\<close>

definition check_user_ptr :: "u64 \<Rightarrow> 'a os_scheme \<Rightarrow> bool" where
  "check_user_ptr ptr s \<longleftrightarrow> pr_code_base (procs s (running s)) \<le> ptr \<and> ptr < PROCESS_THREAD_STACK_TOP"

definition user_bytes :: "u64 \<Rightarrow> u64 \<Rightarrow> 'a os_scheme \<Rightarrow> u8 list" where
  "user_bytes a n s = map (\<lambda>i. umem s (a + of_nat i)) [0..<unat n]"

definition put_user :: "u64 \<Rightarrow> u8 list \<Rightarrow> 'a os_scheme \<Rightarrow> 'a os_scheme" where
  "put_user a bs s = s\<lparr>umem := fold (\<lambda>i m. m(a + of_nat i := bs ! i)) [0..<length bs] (umem s)\<rparr>"

partial_function (option) user_str :: "(u64 \<Rightarrow> u8) \<Rightarrow> u64 \<Rightarrow> cstring option" where
  [code]: "user_str m a =
     (if m a = 0 then Some [] else Option.bind (user_str m (a + 1)) (\<lambda>cs. Some (m a # cs)))"

definition copy_from_user :: "u64 \<Rightarrow> u64 \<Rightarrow> 'a os_scheme \<Rightarrow> u8 list option" where
  "copy_from_user usrc n s = (if \<not> check_user_ptr usrc s then None else Some (user_bytes usrc n s))"

definition copy_to_user :: "u64 \<Rightarrow> u8 list \<Rightarrow> 'a os_scheme \<Rightarrow> bool \<times> 'a os_scheme" where
  "copy_to_user udest bs s = (if \<not> check_user_ptr udest s then (False, s) else (True, put_user udest bs s))"

fun le_bytes :: "nat \<Rightarrow> int \<Rightarrow> u8 list" where
  "le_bytes 0 w = []"
| "le_bytes (Suc n) w = word_of_int w # le_bytes n (w div 256)"

definition timespec_bytes :: "timespec \<Rightarrow> u8 list" where
  "timespec_bytes t = le_bytes 8 (tv_sec t) @ le_bytes 8 (tv_nsec t)"

definition stat_bytes :: "stat \<Rightarrow> u8 list" where
  "stat_bytes st =
     le_bytes 8 (uint (st_dev st)) @ le_bytes 8 (uint (st_ino st)) @ le_bytes 4 (uint (st_mode st)) @
     le_bytes 4 (uint (st_rdev st)) @ le_bytes 8 (uint (st_size st)) @ le_bytes 8 (uint (st_blksize st)) @
     le_bytes 8 (uint (st_blocks st)) @ timespec_bytes (st_atim st) @ timespec_bytes (st_mtim st) @
     timespec_bytes (st_ctim st)"

text \<open>An entry of a directory in the user's buffer: the name follows the type directly, before the end
  of the padded structure.\<close>

definition dirent_bytes :: "dirent \<Rightarrow> u8 list" where
  "dirent_bytes e =
     le_bytes 8 (uint (d_ino e)) @ le_bytes 2 (int (d_reclen e)) @ le_bytes 1 (int (d_type e)) @ d_name e @ [0]"

section \<open>Tables of descriptors\<close>

definition fd_slot :: "'a os_scheme \<Rightarrow> nat \<Rightarrow> int \<Rightarrow> nat" where
  "fd_slot s p n = (if 0 \<le> n \<and> n < int MAX_FDS then pr_fds (procs s p) ! nat n else 0)"

definition fd_hold :: "nat \<Rightarrow> 'a os_scheme \<Rightarrow> 'a os_scheme" where
  "fd_hold fd s = (if fd = 0 then s else upd_fd fd (\<lambda>f. f\<lparr>fd_refcount := fd_refcount f + 1\<rparr>) s)"

text \<open>The invariant of the tables: 32 slots, each empty or with a descriptor that was made, and the locks
  of the tables free between two operations.\<close>

definition table_ok :: "nat \<Rightarrow> process \<Rightarrow> bool" where
  "table_ok bound q \<longleftrightarrow>
     length (pr_fds q) = MAX_FDS \<and> (\<forall>fd\<in>set (pr_fds q). fd < bound) \<and> pr_fd_lock q = 0"

definition os_ok :: "'a os_scheme \<Rightarrow> bool" where
  "os_ok s \<longleftrightarrow> 0 < next_fd s \<and> (\<forall>p. table_ok (next_fd s) (procs s p))"

lemma table_ok_mono: "table_ok b q \<Longrightarrow> b \<le> b' \<Longrightarrow> table_ok b' q"
  by (auto simp: table_ok_def)

lemma table_ok_put:
  "table_ok b q \<Longrightarrow> fd < b \<Longrightarrow> pr_fds q' = (pr_fds q)[i := fd] \<Longrightarrow> pr_fd_lock q' = pr_fd_lock q \<Longrightarrow> table_ok b q'"
  using set_update_subset_insert [of "pr_fds q" i fd] by (auto simp: table_ok_def)

lemma table_ok_cong: "pr_fds q' = pr_fds q \<Longrightarrow> pr_fd_lock q' = pr_fd_lock q \<Longrightarrow> table_ok b q' = table_ok b q"
  by (simp add: table_ok_def)

lemma relock [simp]: "pr_fd_lock q = 0 \<Longrightarrow> q\<lparr>pr_fd_lock := 0\<rparr> = q"
  by (cases q) simp

lemma upd_proc_upd_proc: "upd_proc p f (upd_proc p g s) = upd_proc p (\<lambda>q. f (g q)) s"
  by (simp add: upd_proc_def)

lemma upd_proc_id: "f (procs s p) = procs s p \<Longrightarrow> upd_proc p f s = s"
  by (simp add: upd_proc_def)

lemma upd_proc_cong: "f (procs s p) = g (procs s p) \<Longrightarrow> upd_proc p f s = upd_proc p g s"
  by (simp add: upd_proc_def)

lemma lock_fds_free: "pr_fd_lock (procs s p) = 0 \<Longrightarrow> lock_fds p s = Some (upd_proc p (\<lambda>q. q\<lparr>pr_fd_lock := 1\<rparr>) s)"
  by (simp add: lock_fds_def)

lemma unlock_upd: "unlock_fds p (upd_proc p f s) = upd_proc p (\<lambda>q. (f q)\<lparr>pr_fd_lock := 0\<rparr>) s"
  by (simp add: unlock_fds_def upd_proc_def spinlock_release_def)

lemma upd_fd_upd_proc: "upd_fd n f (upd_proc p g s) = upd_proc p g (upd_fd n f s)"
  by (simp add: upd_fd_def upd_proc_def)

lemma upd_simps [simp]:
  "procs (upd_proc p f s) = (procs s)(p := f (procs s p))" "procs (upd_fd n g s) = procs s"
  "fds (upd_proc p f s) = fds s" "fds (upd_fd n g s) = (fds s)(n := g (fds s n))"
  "nodes (upd_proc p f s) = nodes s" "nodes (upd_fd n g s) = nodes s"
  "next_fd (upd_proc p f s) = next_fd s" "next_fd (upd_fd n g s) = next_fd s"
  "running (upd_proc p f s) = running s" "running (upd_fd n g s) = running s"
  "umem (upd_proc p f s) = umem s" "umem (upd_fd n g s) = umem s"
  by (simp_all add: upd_proc_def upd_fd_def)

lemma fd_from_fdnum_eq:
  assumes "pr_fd_lock (procs s p) = 0"
  shows "fd_from_fdnum p n s = Some (fd_slot s p n, fd_hold (fd_slot s p n) s)"
  using assms
  by (simp add: fd_from_fdnum_def lock_fds_free fd_slot_def fd_hold_def unlock_upd upd_fd_upd_proc upd_proc_id
      Let_def)

lemma fd_close_eq:
  assumes "pr_fd_lock (procs s p) = 0"
  shows "fd_close p n s = Some (if fd_slot s p n = 0 then (- EBADF, s)
    else (0, upd_proc p (\<lambda>q. q\<lparr>pr_fds := (pr_fds q)[nat n := 0]\<rparr>)
      (upd_fd (fd_slot s p n) (\<lambda>f. f\<lparr>fd_refcount := fd_refcount f - 1\<rparr>) s)))"
  using assms
  by (auto simp: fd_close_def lock_fds_free fd_slot_def unlock_upd upd_fd_upd_proc upd_proc_upd_proc upd_proc_id
      intro!: upd_proc_cong)

lemma free_slot_spec:
  "i \<le> length t \<Longrightarrow> i \<le> free_slot t i \<and> free_slot t i \<le> length t \<and> (\<forall>j. i \<le> j \<longrightarrow> j < free_slot t i \<longrightarrow> t ! j \<noteq> 0) \<and>
   (free_slot t i < length t \<longrightarrow> t ! free_slot t i = 0)"
proof (induction t i rule: free_slot.induct)
  case (1 t i)
  show ?case
  proof (cases "i < length t \<and> t ! i \<noteq> 0")
    case True
    then have "free_slot t i = free_slot t (Suc i)" by (subst free_slot.simps) simp
    moreover have "Suc i \<le> free_slot t (Suc i) \<and> free_slot t (Suc i) \<le> length t \<and>
        (\<forall>j. Suc i \<le> j \<longrightarrow> j < free_slot t (Suc i) \<longrightarrow> t ! j \<noteq> 0) \<and>
        (free_slot t (Suc i) < length t \<longrightarrow> t ! free_slot t (Suc i) = 0)"
      using 1(1) True by simp
    ultimately show ?thesis using True by (metis Suc_leD Suc_leI le_neq_implies_less)
  next
    case False
    then show ?thesis using 1 by (subst (1 2 3 4 5) free_slot.simps) auto
  qed
qed

lemma fd_alloc_fdnum_eq:
  assumes "pr_fd_lock (procs s p) = 0" "free_slot (pr_fds (procs s p)) 0 = i"
  shows "fd_alloc_fdnum p fd s = Some (if i < MAX_FDS
    then (int i, upd_proc p (\<lambda>q. q\<lparr>pr_fds := (pr_fds q)[i := fd]\<rparr>) s) else (-1, s))"
  using assms
  by (auto simp: fd_alloc_fdnum_def lock_fds_free unlock_upd upd_proc_upd_proc upd_proc_id Let_def
      intro!: upd_proc_cong)

section \<open>The invariant\<close>

text \<open>A change that keeps the tables.\<close>

definition same_procs :: "'a os_scheme \<Rightarrow> 'a os_scheme \<Rightarrow> bool" where
  "same_procs s s' \<longleftrightarrow> next_fd s \<le> next_fd s' \<and>
     (\<forall>p. pr_fds (procs s' p) = pr_fds (procs s p) \<and> pr_fd_lock (procs s' p) = pr_fd_lock (procs s p))"

lemma same_procs_refl [simp]: "same_procs s s"
  by (simp add: same_procs_def)

lemma same_procs_trans: "same_procs s t \<Longrightarrow> same_procs t u \<Longrightarrow> same_procs s u"
  by (auto simp: same_procs_def)

lemma os_ok_same: "os_ok s \<Longrightarrow> same_procs s s' \<Longrightarrow> os_ok s'"
  unfolding os_ok_def same_procs_def by (metis order_less_le_trans table_ok_cong table_ok_mono)

lemma os_ok_slot:
  assumes "os_ok s"
  shows "fd_slot s p n < next_fd s"
proof -
  have "table_ok (next_fd s) (procs s p)" "0 < next_fd s" using assms by (simp_all add: os_ok_def)
  then show ?thesis by (auto simp: fd_slot_def table_ok_def nat_less_iff)
qed

lemma os_ok_put:
  assumes "os_ok s" "fd < next_fd s" "\<And>q. pr_fd_lock (f q) = pr_fd_lock q" "\<And>q. pr_fds (f q) = (pr_fds q)[i := fd]"
  shows "os_ok (upd_proc p f s)"
  using assms unfolding os_ok_def by (auto intro: table_ok_put)

lemma os_ok_lock: "os_ok s \<Longrightarrow> pr_fd_lock (procs s p) = 0"
  by (simp add: os_ok_def table_ok_def)

lemma os_ok_upd_fd: "os_ok s \<Longrightarrow> os_ok (upd_fd n f s)"
  by (simp add: os_ok_def)

lemma fd_close_ok:
  assumes "os_ok s" "fd_close p n s = Some (r, s')"
  shows "os_ok s' \<and> next_fd s' = next_fd s"
proof -
  have "0 < next_fd (upd_fd (fd_slot s p n) f s)" for f using assms(1) by (simp add: os_ok_def)
  then have "os_ok (upd_proc p (\<lambda>q. q\<lparr>pr_fds := (pr_fds q)[nat n := 0]\<rparr>) (upd_fd (fd_slot s p n) f s))" for f
    using assms(1) by (intro os_ok_put os_ok_upd_fd) simp_all
  then show ?thesis using assms by (auto simp: fd_close_eq os_ok_lock split: if_splits)
qed

lemma fd_alloc_fdnum_ok:
  "os_ok s \<Longrightarrow> fd < next_fd s \<Longrightarrow> fd_alloc_fdnum p fd s = Some (r, s') \<Longrightarrow> os_ok s' \<and> -1 \<le> r \<and> r < int MAX_FDS"
  by (auto simp: fd_alloc_fdnum_eq [OF os_ok_lock refl] split: if_splits intro!: os_ok_put)

lemma fd_hold_ok: "os_ok s \<Longrightarrow> os_ok (fd_hold fd s)"
  by (simp add: fd_hold_def os_ok_upd_fd)

lemma os_ok_new_fd: "os_ok s \<Longrightarrow> os_ok (s\<lparr>next_fd := Suc (next_fd s), fds := F\<rparr>)"
  by (auto simp: os_ok_def intro: table_ok_mono)

lemma os_ok_mem: "os_ok s \<Longrightarrow> take_mem s = (b, s') \<Longrightarrow> os_ok s'"
  by (auto simp: take_mem_def os_ok_def split: if_splits)

lemma fd_dup_store_ok:
  assumes "os_ok s" "fd < next_fd s" "fd_dup_store old p n exact fd s = Some (r, s')"
  shows "os_ok s'"
proof -
  have put: "os_ok (upd_proc p (\<lambda>q. q\<lparr>pr_fds := (pr_fds q)[i := fd]\<rparr>) t)"
    if "os_ok t" "next_fd t = next_fd s" for t :: "'a os_scheme" and i
    using that assms(2) by (intro os_ok_put) simp_all
  show ?thesis
    using assms(1,3)
    by (auto simp: fd_dup_store_def Let_def split: if_splits bind_splits
        intro!: os_ok_upd_fd put dest!: fd_close_ok [OF assms(1)])
qed

lemma fd_dup_ok:
  assumes "os_ok s" "fd_dup p n p' n' exact cloexec s = Some (r, s')"
  shows "os_ok s'"
proof (cases "n = n' \<and> p = p' \<or> fd_slot s p n = 0")
  case True
  then show ?thesis using assms by (auto simp: fd_dup_def fd_from_fdnum_eq os_ok_lock fd_hold_ok split: if_splits)
next
  case False
  obtain ok t where t: "take_mem (fd_hold (fd_slot s p n) s) = (ok, t)" by force
  then have "os_ok t" using os_ok_mem [OF fd_hold_ok] assms(1) by blast
  then show ?thesis
    using assms False
    by (auto simp: fd_dup_def fd_from_fdnum_eq os_ok_lock t Let_def split: if_splits
        dest!: fd_dup_store_ok [OF os_ok_new_fd, rotated 2])
qed

section \<open>Properties\<close>

text \<open>A state for examples: the file system of \<open>sample_vfs\<close>, one process with an open file in slot 0, and
  slots 1 to 30 taken as well when \<open>full\<close> is set.\<close>

definition sample_proc :: "bool \<Rightarrow> process" where
  "sample_proc full =
     \<lparr>pr_pid = 1, pr_state = PROCESS_RUNNING, pr_name = [], pr_status = 0, pr_pagemap = 0, pr_code_base = 0x400000,
      pr_thread_stack_top = PROCESS_THREAD_STACK_TOP, pr_brk = PROCESS_BRK_BASE, pr_brk_next = PROCESS_BRK_BASE,
      pr_cwd = 1, pr_fd_lock = 0, pr_fds = (if full then replicate 31 1 @ [0] else 1 # replicate 31 0),
      pr_ticks = zero_time, pr_parent = 0, pr_children = Some (vector_create 8 (\<lambda>_. 0)),
      pr_threads = Some (vector_create 8 (\<lambda>_. 0))\<rparr>"

definition sample_os :: "bool \<Rightarrow> os" where
  "sample_os full = vfs.extend sample_vfs
     \<lparr>procs = (\<lambda>_. sample_proc full),
      fds = (\<lambda>_. \<lparr>fd_node = 2, fd_flags = O_RDWR, fd_refcount = 1, fd_offset = 0, fd_lock = 0\<rparr>),
      next_fd = 2, running = 1, umem = (\<lambda>a. ucast a), random_rng = \<lparr>mt_state = replicate MT_SIZE 0, mt_index = MT_SIZE, mt_lock = 0\<rparr>\<rparr>"

lemma sample_os_simps:
  "procs (sample_os full) p = sample_proc full" "next_fd (sample_os full) = 2" "running (sample_os full) = 1"
  "nodes (sample_os full) = nodes sample_vfs" "mem_left (sample_os full) = 10" "umem (sample_os full) a = ucast a"
  "fds (sample_os full) n = \<lparr>fd_node = 2, fd_flags = O_RDWR, fd_refcount = 1, fd_offset = 0, fd_lock = 0\<rparr>"
  by (simp_all add: sample_os_def vfs.extend_def sample_vfs_def)

lemma sample_os_ok: "os_ok (sample_os full)" "fd_slot (sample_os full) p 0 = 1"
  by (auto simp: os_ok_def table_ok_def sample_os_simps sample_proc_def MAX_FDS_def fd_slot_def
      nth_append)

text \<open>C32: duplicating an open descriptor to the lowest free number from a given one on. A free slot below
  the last one gets a copy of the descriptor and its number is returned; when the last slot is the
  only free one it gets the copy but EMFILE is returned; and when no slot is free the given number is
  returned although nothing was stored.\<close>

theorem fd_dup_result:
  assumes "os_ok s" "fd_slot s p n \<noteq> 0" "0 < mem_left s" "0 \<le> n'" "n' < int MAX_FDS" "n \<noteq> n'"
    "i = free_slot (pr_fds (procs s p)) (nat n')"
  shows "\<exists>r s'. fd_dup p n p n' False cloexec s = Some (r, s') \<and>
    r = (if i < 31 then int i else if i = 31 then - EMFILE else n') \<and>
    pr_fds (procs s' p) = (if i < 32 then (pr_fds (procs s p))[i := next_fd s] else pr_fds (procs s p)) \<and>
    fd_node (fds s' (next_fd s)) = fd_node (fds s (fd_slot s p n)) \<and>
    fd_offset (fds s' (next_fd s)) = fd_offset (fds s (fd_slot s p n))"
proof -
  have "fd_slot s p n < next_fd s" by (rule os_ok_slot [OF assms(1)])
  moreover have "i \<le> MAX_FDS"
    using free_slot_spec [of "nat n'" "pr_fds (procs s p)"] assms(1,4,5,7)
    by (auto simp: os_ok_def table_ok_def nat_le_iff)
  ultimately show ?thesis
    using assms
    by (auto simp: fd_dup_def fd_from_fdnum_eq os_ok_lock fd_hold_def take_mem_def fd_dup_store_def Let_def
        MAX_FDS_def upd_fd_def upd_proc_def)
qed

theorem fd_dup_result_witness:
  "\<exists>s'. fd_dup 1 0 1 1 False False (sample_os True) = Some (- EMFILE, s') \<and> pr_fds (procs s' 1) ! 31 = 2"
proof -
  have "free_slot (replicate 31 1 @ [0]) 1 = 31" by code_simp
  then have "free_slot (pr_fds (procs (sample_os True) 1)) (nat 1) = 31"
    by (simp add: sample_os_simps sample_proc_def)
  then show ?thesis
    using fd_dup_result [of "sample_os True" 1 0 1 31 False] sample_os_ok [of True]
    by (auto simp: sample_os_simps MAX_FDS_def sample_proc_def nth_append)
qed

end
