(* ===== verification/Pseudo.thy ===== *)
theory Pseudo
  imports Fd
begin

text \<open>
  The pseudo devices null, zero, random and full: \<^verbatim>\<open>kernel/src/dev/char/pseudo.c\<close>. Their functions are device
  functions number 0. The generator of the random device is a field of the state.
\<close>

definition PSEUDO_MAJ :: u16 where "PSEUDO_MAJ = 1"
definition PSEUDO_NULL_MIN :: u16 where "PSEUDO_NULL_MIN = 0"
definition PSEUDO_ZERO_MIN :: u16 where "PSEUDO_ZERO_MIN = 1"
definition PSEUDO_RANDOM_MIN :: u16 where "PSEUDO_RANDOM_MIN = 2"
definition PSEUDO_FULL_MIN :: u16 where "PSEUDO_FULL_MIN = 3"

definition dev_minor :: "u16 \<Rightarrow> u16" where
  "dev_minor dev = dev AND 0x00ff"

definition rdev_of :: "'a os_scheme \<Rightarrow> nat \<Rightarrow> u16" where
  "rdev_of s n = st_rdev (vn_stat (nodes s n))"

definition pseudo_read ::
    "nat \<Rightarrow> u64 \<Rightarrow> u64 \<Rightarrow> u32 \<Rightarrow> 'a os_scheme \<Rightarrow> (u8 list \<times> int \<times> 'a os_scheme) option" where
  "pseudo_read n offset count flags s =
     (let m = dev_minor (rdev_of s n) in
      if m = PSEUDO_NULL_MIN then Some ([], 0, s)
      else if m = PSEUDO_ZERO_MIN \<or> m = PSEUDO_FULL_MIN then Some (replicate (unat count) 0, sint count, s)
      else if m = PSEUDO_RANDOM_MIN then do {
        (bytes, rng) \<leftarrow> rng_rand_fill (unat count) (random_rng s);
        Some (bytes, sint count, s\<lparr>random_rng := rng\<rparr>)
      }
      else Some ([], -1, s))"

definition pseudo_write ::
    "nat \<Rightarrow> u8 list \<Rightarrow> u64 \<Rightarrow> u32 \<Rightarrow> 'a os_scheme \<Rightarrow> (int \<times> 'a os_scheme) option" where
  "pseudo_write n buf offset flags s =
     (let m = dev_minor (rdev_of s n); count = int (length buf) in
      Some (if m = PSEUDO_NULL_MIN \<or> m = PSEUDO_ZERO_MIN \<or> m = PSEUDO_RANDOM_MIN then count
            else if m = PSEUDO_FULL_MIN then (if count = 0 then 0 else - ENOSPC)
            else -1, s))"

definition pseudo_device :: "'a os_scheme device" where
  "pseudo_device = \<lparr>dev_read = pseudo_read, dev_write = pseudo_write, dev_ioctl = (\<lambda>_ _ _ s. Some (ioctl_stub, s)),
     dev_truncate = (\<lambda>_ _ s. Some (truncate_stub, s)), dev_sync = (\<lambda>_ s. Some (sync_stub, s))\<rparr>"

text \<open>\<^verbatim>\<open>pseudo_init\<close>: one node after the other; a node that cannot be made is a panic.\<close>

definition pseudo_node :: "cstring \<Rightarrow> u16 \<Rightarrow> 'a os_scheme \<Rightarrow> 'a os_scheme option" where
  "pseudo_node name mnr s = do {
     (n, s) \<leftarrow> devfs_create_device name s;
     if n = 0 then None
     else
       let t = time_realtime s in
       Some (upd_node n (\<lambda>nd. nd\<lparr>vn_stat := zero_stat\<lparr>st_dev := makedev 0 1, st_mode := S_IFCHR, st_blksize := 4096,
           st_atim := t, st_mtim := t, st_ctim := t, st_rdev := makedev PSEUDO_MAJ mnr\<rparr>,
         vn_ops := DevOps 0\<rparr>) s)
   }"

definition pseudo_init :: "u64 list \<Rightarrow> u64 \<Rightarrow> u64 \<Rightarrow> 'a os_scheme \<Rightarrow> 'a os_scheme option" where
  "pseudo_init old hw hpet s = do {
     s \<leftarrow> pseudo_node (lit ''null'') PSEUDO_NULL_MIN s;
     s \<leftarrow> pseudo_node (lit ''zero'') PSEUDO_ZERO_MIN s;
     rng \<leftarrow> rng_create old hw hpet;
     s \<leftarrow> pseudo_node (lit ''random'') PSEUDO_RANDOM_MIN (s\<lparr>random_rng := rng\<rparr>);
     pseudo_node (lit ''full'') PSEUDO_FULL_MIN s
   }"

section \<open>Reading and writing\<close>

lemma dev_minor_makedev:
  "dev_minor (makedev PSEUDO_MAJ PSEUDO_NULL_MIN) = PSEUDO_NULL_MIN"
  "dev_minor (makedev PSEUDO_MAJ PSEUDO_ZERO_MIN) = PSEUDO_ZERO_MIN"
  "dev_minor (makedev PSEUDO_MAJ PSEUDO_RANDOM_MIN) = PSEUDO_RANDOM_MIN"
  "dev_minor (makedev PSEUDO_MAJ PSEUDO_FULL_MIN) = PSEUDO_FULL_MIN"
  by (simp_all add: dev_minor_def makedev_def PSEUDO_MAJ_def PSEUDO_NULL_MIN_def PSEUDO_ZERO_MIN_def
      PSEUDO_RANDOM_MIN_def PSEUDO_FULL_MIN_def)

text \<open>A read of a pseudo device either ends the file or fills the buffer.\<close>

lemma pseudo_read_length:
  assumes "rng_ok (random_rng s)" "pseudo_read n offset count flags s = Some (bytes, r, s')" "unat count < 2 ^ 63"
  shows "r = -1 \<and> bytes = [] \<or> r = int (length bytes) \<and> (bytes = [] \<or> length bytes = unat count)"
  using assms rng_rand_fill_ok [OF assms(1), of "unat count"] sint_small [OF assms(3)]
  by (auto simp: pseudo_read_def Let_def split: if_splits bind_splits)

end
