(* ===== verification/ScFile.thy ===== *)
theory ScFile
  imports Pseudo
begin

text \<open>
  The system calls on files, \<^verbatim>\<open>kernel/src/sys/syscalls/sc_file.c\<close>. The running process is \<open>running s\<close>. What is
  left of a division by a block size of 0 is a trap, \<open>None\<close>.
\<close>

definition rax :: "int \<Rightarrow> u64" where "rax v = word_of_int v"

definition int_arg :: "u64 \<Rightarrow> int" where "int_arg r = sint (ucast r :: u32)"

definition acc_mode :: "nat \<Rightarrow> 'a os_scheme \<Rightarrow> u32" where
  "acc_mode fd s = fd_flags (fds s fd) AND O_ACCMODE"

definition lock_node :: "nat \<Rightarrow> 'a os_scheme \<Rightarrow> 'a os_scheme option" where
  "lock_node n s = do {
     l \<leftarrow> spinlock_acquire (vn_lock (nodes s n));
     Some (upd_node n (\<lambda>nd. nd\<lparr>vn_lock := l\<rparr>) s)
   }"

definition unlock_node :: "nat \<Rightarrow> 'a os_scheme \<Rightarrow> 'a os_scheme" where
  "unlock_node n s = upd_node n (\<lambda>nd. nd\<lparr>vn_lock := spinlock_release (vn_lock nd)\<rparr>) s"

definition st_mode_of :: "nat \<Rightarrow> 'a os_scheme \<Rightarrow> u32" where
  "st_mode_of n s = st_mode (vn_stat (nodes s n))"

text \<open>The test of block devices that a count or an offset is a multiple of the block size.\<close>

definition blk_misaligned :: "nat \<Rightarrow> int \<Rightarrow> 'a os_scheme \<Rightarrow> bool option" where
  "blk_misaligned n v s =
     (if S_ISBLK (st_mode_of n s) then
        let b = sint (st_blksize (vn_stat (nodes s n))) in if b = 0 then None else Some (v mod b \<noteq> 0)
      else Some False)"

text \<open>The checks of a path argument that \<^verbatim>\<open>open\<close> and \<^verbatim>\<open>mkdir\<close> share: an error, or the path.\<close>

definition path_arg :: "u64 \<Rightarrow> 'a os_scheme \<Rightarrow> (int + cstring) option" where
  "path_arg path s =
     (if \<not> check_user_ptr path s then Some (Inl (- EFAULT))
      else if path = 0 \<or> umem s path = 0 then Some (Inl (- ENOENT))
      else do {
        str \<leftarrow> user_str (umem s) path;
        Some (if PATH_MAX \<le> length str then Inl (- ENAMETOOLONG) else Inr str)
      })"

definition syscall_open :: "'a devices \<Rightarrow> u64 \<Rightarrow> u64 \<Rightarrow> 'a os_scheme \<Rightarrow> (u64 \<times> 'a os_scheme) option" where
  "syscall_open dv rdi rsi s = do {
     let flags = (ucast rsi :: u32);
     let p = running s;
     arg \<leftarrow> path_arg rdi s;
     case arg of
       Inl e \<Rightarrow> Some (rax e, s)
     | Inr path \<Rightarrow> do {
         node \<leftarrow> vfs_get_node s (pr_cwd (procs s p)) path;
         if node \<noteq> 0 \<and> flags AND O_CREAT \<noteq> 0 \<and> flags AND O_EXCL \<noteq> 0 then Some (rax (- EINVAL), s)
         else do {
           (node, s) \<leftarrow> (if node = 0 \<and> flags AND O_CREAT \<noteq> 0 then vfs_create (pr_cwd (procs s p)) path S_IFREG s
                         else Some (node, s));
           if node = 0 then Some (rax (- ENOENT), s)
           else do {
             node \<leftarrow> vfs_reduce_node s node;
             if \<not> S_ISDIR (st_mode_of node s) \<and> flags AND O_DIRECTORY \<noteq> 0 then Some (rax (- ENOTDIR), s)
             else do {
               let (fd, s) = fd_create node flags s;
               if fd = 0 then Some (rax (- ENOMEM), s)
               else do {
                 (ret, s) \<leftarrow> (if flags AND O_TRUNC \<noteq> 0 \<and> S_ISREG (st_mode_of node s) then node_truncate dv node 0 s
                              else Some (0, s));
                 if ret < 0 then Some (rax ret, s)
                 else do {
                   (fdnum, s) \<leftarrow> fd_alloc_fdnum p fd s;
                   if fdnum = -1 then
                     Some (rax (- EMFILE), upd_node node (\<lambda>n. n\<lparr>vn_refcount := vn_refcount n - 1\<rparr>) s)
                   else
                     Some (rax fdnum,
                       if flags AND O_APPEND \<noteq> 0 then
                         upd_fd (pr_fds (procs s p) ! nat fdnum) (\<lambda>f. f\<lparr>fd_offset := file_size s node\<rparr>) s
                       else s)
                 }
               }
             }
           }
         }
       }
   }"

definition syscall_mkdir :: "u64 \<Rightarrow> 'a os_scheme \<Rightarrow> (u64 \<times> 'a os_scheme) option" where
  "syscall_mkdir rdi s = do {
     let p = running s;
     arg \<leftarrow> path_arg rdi s;
     case arg of
       Inl e \<Rightarrow> Some (rax e, s)
     | Inr path \<Rightarrow> do {
         node \<leftarrow> vfs_get_node s (pr_cwd (procs s p)) path;
         if node \<noteq> 0 then Some (rax (- EEXIST), s)
         else do {
           (node, s) \<leftarrow> vfs_create (pr_cwd (procs s p)) path S_IFDIR s;
           Some (if node = 0 then rax (- ENOENT) else 0, s)
         }
       }
   }"

definition syscall_close :: "u64 \<Rightarrow> 'a os_scheme \<Rightarrow> (u64 \<times> 'a os_scheme) option" where
  "syscall_close rdi s = do {
     (ret, s) \<leftarrow> fd_close (running s) (int_arg rdi) s;
     Some (rax ret, s)
   }"

definition syscall_read ::
    "'a devices \<Rightarrow> u64 \<Rightarrow> u64 \<Rightarrow> u64 \<Rightarrow> 'a os_scheme \<Rightarrow> (u64 \<times> 'a os_scheme) option" where
  "syscall_read dv rdi rsi rdx s =
     (if \<not> check_user_ptr rsi s then Some (rax (- EFAULT), s)
      else do {
        (fd, s) \<leftarrow> fd_from_fdnum (running s) (int_arg rdi) s;
        if fd = 0 then Some (rax (- EBADF), s)
        else if acc_mode fd s AND O_PATH \<noteq> 0 then Some (rax (- EBADF), s)
        else if acc_mode fd s \<noteq> O_RDWR \<and> acc_mode fd s \<noteq> O_RDONLY then Some (rax (- EPERM), s)
        else do {
          let node = fd_node (fds s fd);
          if S_ISDIR (st_mode_of node s) then Some (rax (- EISDIR), s)
          else do {
            bad \<leftarrow> blk_misaligned node (uint rdx) s;
            if bad then Some (rax (- EINVAL), s)
            else do {
              s \<leftarrow> lock_node node s;
              (bytes, n, s) \<leftarrow> node_read dv node (fd_offset (fds s fd)) rdx (fd_flags (fds s fd)) s;
              let s = unlock_node node (put_user rsi bytes s);
              Some (rax n, if 0 < n then upd_fd fd (\<lambda>f. f\<lparr>fd_offset := fd_offset f + word_of_int n\<rparr>) s else s)
            }
          }
        }
      })"

definition syscall_write ::
    "'a devices \<Rightarrow> u64 \<Rightarrow> u64 \<Rightarrow> u64 \<Rightarrow> 'a os_scheme \<Rightarrow> (u64 \<times> 'a os_scheme) option" where
  "syscall_write dv rdi rsi rdx s =
     (if \<not> check_user_ptr rsi s then Some (rax (- EFAULT), s)
      else do {
        (fd, s) \<leftarrow> fd_from_fdnum (running s) (int_arg rdi) s;
        if fd = 0 then Some (rax (- EBADF), s)
        else if acc_mode fd s AND O_PATH \<noteq> 0 then Some (rax (- EBADF), s)
        else if acc_mode fd s \<noteq> O_RDWR \<and> acc_mode fd s \<noteq> O_WRONLY then Some (rax (- EPERM), s)
        else do {
          let node = fd_node (fds s fd);
          if S_ISDIR (st_mode_of node s) then Some (rax (- EISDIR), s)
          else do {
            bad \<leftarrow> blk_misaligned node (uint rdx) s;
            if bad then Some (rax (- EINVAL), s)
            else do {
              s \<leftarrow> lock_node node s;
              (n, s) \<leftarrow> node_write dv node (user_bytes rsi rdx s) (fd_offset (fds s fd)) (fd_flags (fds s fd)) s;
              let s = unlock_node node s;
              Some (rax n, if 0 < n then upd_fd fd (\<lambda>f. f\<lparr>fd_offset := fd_offset f + word_of_int n\<rparr>) s else s)
            }
          }
        }
      })"

definition syscall_ioctl ::
    "'a devices \<Rightarrow> u64 \<Rightarrow> u64 \<Rightarrow> u64 \<Rightarrow> 'a os_scheme \<Rightarrow> (u64 \<times> 'a os_scheme) option" where
  "syscall_ioctl dv rdi rsi rdx s = do {
     (fd, s) \<leftarrow> fd_from_fdnum (running s) (int_arg rdi) s;
     if fd = 0 then Some (rax (- EBADF), s)
     else if acc_mode fd s AND O_PATH \<noteq> 0 then Some (rax (- EBADF), s)
     else do {
       let node = fd_node (fds s fd);
       s \<leftarrow> lock_node node s;
       (ret, s) \<leftarrow> node_ioctl dv node rsi rdx s;
       Some (rax ret, unlock_node node s)
     }
   }"

definition SEEK_SET :: int where "SEEK_SET = 0"
definition SEEK_CUR :: int where "SEEK_CUR = 1"
definition SEEK_END :: int where "SEEK_END = 2"

definition syscall_seek :: "u64 \<Rightarrow> u64 \<Rightarrow> u64 \<Rightarrow> 'a os_scheme \<Rightarrow> (u64 \<times> 'a os_scheme) option" where
  "syscall_seek rdi rsi rdx s = do {
     let whence = int_arg rdx;
     (fd, s) \<leftarrow> fd_from_fdnum (running s) (int_arg rdi) s;
     if fd = 0 then Some (rax (- EBADF), s)
     else if acc_mode fd s AND O_PATH \<noteq> 0 then Some (rax (- EBADF), s)
     else do {
       let node = fd_node (fds s fd);
       if S_ISDIR (st_mode_of node s) then Some (rax (- EISDIR), s)
       else do {
         bad \<leftarrow> blk_misaligned node (sint rsi) s;
         if bad then Some (rax (- EINVAL), s)
         else
           let target = (if whence = SEEK_CUR then Some (fd_offset (fds s fd) + rsi)
                         else if whence = SEEK_END then Some (rsi + file_size s node)
                         else if whence = SEEK_SET then Some rsi
                         else None)
           in case target of
                None \<Rightarrow> Some (rax (- EINVAL), s)
              | Some new_offset \<Rightarrow>
                  Some (if sint new_offset < 0 then (rax (- ESPIPE), s)
                        else (new_offset, upd_fd fd (\<lambda>f. f\<lparr>fd_offset := new_offset\<rparr>) s))
       }
     }
   }"

definition syscall_truncate ::
    "'a devices \<Rightarrow> u64 \<Rightarrow> u64 \<Rightarrow> 'a os_scheme \<Rightarrow> (u64 \<times> 'a os_scheme) option" where
  "syscall_truncate dv rdi rsi s = do {
     (fd, s) \<leftarrow> fd_from_fdnum (running s) (int_arg rdi) s;
     if fd = 0 then Some (rax (- EBADF), s)
     else if acc_mode fd s AND O_PATH \<noteq> 0 then Some (rax (- EBADF), s)
     else if acc_mode fd s \<noteq> O_RDWR \<and> acc_mode fd s \<noteq> O_WRONLY then Some (rax (- EPERM), s)
     else do {
       let node = fd_node (fds s fd);
       if S_ISDIR (st_mode_of node s) then Some (rax (- EISDIR), s)
       else do {
         s \<leftarrow> lock_node node s;
         (ret, s) \<leftarrow> node_truncate dv node rsi s;
         Some (rax ret, unlock_node node s)
       }
     }
   }"

definition F_DUPFD :: int where "F_DUPFD = 0"
definition F_DUPFD_CLOEXEC :: int where "F_DUPFD_CLOEXEC = 1"
definition F_GETFD :: int where "F_GETFD = 2"
definition F_SETFD :: int where "F_SETFD = 3"
definition F_GETFL :: int where "F_GETFL = 4"
definition F_SETFL :: int where "F_SETFL = 5"

definition syscall_fcntl :: "u64 \<Rightarrow> u64 \<Rightarrow> u64 \<Rightarrow> 'a os_scheme \<Rightarrow> (u64 \<times> 'a os_scheme) option" where
  "syscall_fcntl rdi rsi rdx s = do {
     let fdnum = int_arg rdi; let cmd = int_arg rsi; let arg = int_arg rdx;
     let p = running s;
     (fd, s) \<leftarrow> fd_from_fdnum p fdnum s;
     if fd = 0 then Some (rax (- EBADF), s)
     else if acc_mode fd s AND O_PATH \<noteq> 0 then Some (rax (- EBADF), s)
     else if cmd = F_DUPFD then do { (r, s) \<leftarrow> fd_dup p fdnum p arg False False s; Some (rax r, s) }
     else if cmd = F_DUPFD_CLOEXEC then do { (r, s) \<leftarrow> fd_dup p fdnum p arg False True s; Some (rax r, s) }
     else if cmd = F_GETFD then Some (rax (sint (fd_flags (fds s fd) AND FD_FLAGS_MASK)), s)
     else if cmd = F_SETFD then Some (0, upd_fd fd (\<lambda>f. f\<lparr>fd_flags := ucast rdx AND FD_FLAGS_MASK\<rparr>) s)
     else if cmd = F_GETFL then Some (rax (sint (fd_flags (fds s fd) AND FILE_CREATION_FLAGS_MASK)), s)
     else if cmd = F_SETFL then Some (0, upd_fd fd (\<lambda>f. f\<lparr>fd_flags := ucast rdx AND FILE_CREATION_FLAGS_MASK\<rparr>) s)
     else Some (rax (- EINVAL), s)
   }"

definition syscall_fsync :: "'a devices \<Rightarrow> u64 \<Rightarrow> 'a os_scheme \<Rightarrow> (u64 \<times> 'a os_scheme) option" where
  "syscall_fsync dv rdi s = do {
     (fd, s) \<leftarrow> fd_from_fdnum (running s) (int_arg rdi) s;
     if fd = 0 then Some (rax (- EBADF), s)
     else if acc_mode fd s AND O_PATH \<noteq> 0 then Some (rax (- EBADF), s)
     else do {
       let node = fd_node (fds s fd);
       s \<leftarrow> lock_node node s;
       (ret, s) \<leftarrow> node_sync dv node s;
       Some (rax ret, unlock_node node s)
     }
   }"

definition syscall_stat :: "u64 \<Rightarrow> u64 \<Rightarrow> 'a os_scheme \<Rightarrow> (u64 \<times> 'a os_scheme) option" where
  "syscall_stat rdi rsi s = do {
     (fd, s) \<leftarrow> fd_from_fdnum (running s) (int_arg rdi) s;
     if fd = 0 then Some (rax (- EBADF), s)
     else do {
       let node = fd_node (fds s fd);
       s \<leftarrow> lock_node node s;
       let (ok, s) = copy_to_user rsi (stat_bytes (vn_stat (nodes s node))) s;
       Some (if ok then 0 else rax (- EFAULT), unlock_node node s)
     }
   }"

definition syscall_chdir :: "u64 \<Rightarrow> 'a os_scheme \<Rightarrow> (u64 \<times> 'a os_scheme) option" where
  "syscall_chdir rdi s = do {
     let p = running s;
     (fd, s) \<leftarrow> fd_from_fdnum p (int_arg rdi) s;
     if fd = 0 then Some (rax (- EBADF), s)
     else
       let node = fd_node (fds s fd) in
       Some (if \<not> S_ISDIR (st_mode_of node s) then (rax (- ENOTDIR), s)
             else (0, upd_proc p (\<lambda>q. q\<lparr>pr_cwd := node\<rparr>) s))
   }"

text \<open>
  \<^verbatim>\<open>temp_buffer\<close> is on the kernel's stack: its old contents, and what lies behind it, are the argument
  \<open>stk\<close>. All of the user's \<open>length\<close> is copied.
\<close>

definition syscall_getcwd :: "mem \<Rightarrow> u64 \<Rightarrow> u64 \<Rightarrow> 'a os_scheme \<Rightarrow> (u64 \<times> 'a os_scheme) option" where
  "syscall_getcwd stk rdi rsi s = do {
     (actual_length, buf) \<leftarrow> vfs_get_pathname s (pr_cwd (procs s (running s))) stk (of_nat PATH_MAX - 1);
     if rsi \<le> actual_length then Some (0, s)
     else
       let (ok, s) = copy_to_user rdi (map buf [0..<unat rsi]) s
       in Some (if ok then rdi else 0, s)
   }"

definition syscall_getdents :: "u64 \<Rightarrow> u64 \<Rightarrow> u64 \<Rightarrow> 'a os_scheme \<Rightarrow> (u64 \<times> 'a os_scheme) option" where
  "syscall_getdents rdi rsi rdx s =
     (if \<not> check_user_ptr rsi s then Some (rax (- EFAULT), s)
      else do {
        (fd, s) \<leftarrow> fd_from_fdnum (running s) (int_arg rdi) s;
        if fd = 0 then Some (rax (- EBADF), s)
        else if acc_mode fd s AND O_PATH \<noteq> 0 then Some (rax (- EBADF), s)
        else if acc_mode fd s \<noteq> O_RDWR \<and> acc_mode fd s \<noteq> O_RDONLY then Some (rax (- EPERM), s)
        else do {
          let node = fd_node (fds s fd);
          s \<leftarrow> lock_node node s;
          if \<not> S_ISDIR (st_mode_of node s) then Some (rax (- ENOTDIR), unlock_node node s)
          else do {
            (n, writes, s) \<leftarrow> vfs_getdents node (sint (fd_offset (fds s fd))) (unat rdx) s;
            let s = fold (\<lambda>(off, e). put_user (rsi + of_nat off) (dirent_bytes e)) writes s;
            let s = unlock_node node s;
            Some (rax n, if 0 < n then upd_fd fd (\<lambda>f. f\<lparr>fd_offset := fd_offset f + word_of_int n\<rparr>) s else s)
          }
        }
      })"

text \<open>The rows of the table in \<^verbatim>\<open>kernel/src/sys/syscall.c\<close> for the calls on files, by their numbers.\<close>

definition file_syscall ::
    "'a devices \<Rightarrow> mem \<Rightarrow> u64 \<Rightarrow> u64 \<Rightarrow> u64 \<Rightarrow> u64 \<Rightarrow> 'a os_scheme \<Rightarrow> (u64 \<times> 'a os_scheme) option" where
  "file_syscall dv stk num rdi rsi rdx s =
     (if num = 11 then syscall_open dv rdi rsi s
      else if num = 12 then syscall_mkdir rdi s
      else if num = 13 then syscall_close rdi s
      else if num = 14 then syscall_read dv rdi rsi rdx s
      else if num = 15 then syscall_write dv rdi rsi rdx s
      else if num = 16 then syscall_ioctl dv rdi rsi rdx s
      else if num = 17 then syscall_seek rdi rsi rdx s
      else if num = 18 then syscall_truncate dv rdi rsi s
      else if num = 19 then syscall_fcntl rdi rsi rdx s
      else if num = 20 then syscall_fsync dv rdi s
      else if num = 21 then syscall_stat rdi rsi s
      else if num = 22 then syscall_chdir rdi s
      else if num = 23 then syscall_getcwd stk rdi rsi s
      else if num = 24 then syscall_getdents rdi rsi rdx s
      else Some (rax (- ENOSYS), s))"

text \<open>Any sequence of such calls, between which another process may be scheduled and user programs
  change their memory.\<close>

inductive file_run :: "'a devices \<Rightarrow> 'a os_scheme \<Rightarrow> 'a os_scheme \<Rightarrow> bool" for dv where
  start: "file_run dv s s"
| call: "file_run dv s t \<Longrightarrow> file_syscall dv stk num rdi rsi rdx t = Some (v, t') \<Longrightarrow> file_run dv s t'"
| switch: "file_run dv s t \<Longrightarrow> file_run dv s (t\<lparr>running := p, umem := m\<rparr>)"

section \<open>Calls keep the tables\<close>

text \<open>Operations of the file system leave everything outside it alone.\<close>

named_theorems keeps_more \<open>the part of the state behind the file system is unchanged\<close>

lemma more_upd_node [simp]: "vfs.more (upd_node n f s) = vfs.more s"
  by (simp add: upd_node_def)

lemma more_take_mem [keeps_more]: "take_mem s = (b, s') \<Longrightarrow> vfs.more s' = vfs.more s"
  by (auto simp: take_mem_def split: if_splits)

lemma more_create_node [keeps_more]: "vfs_create_node fs p name d s = (n, s') \<Longrightarrow> vfs.more s' = vfs.more s"
  by (auto simp: vfs_create_node_def split: prod.splits bool.splits dest!: keeps_more)

lemma more_tmpfs_create [keeps_more]: "tmpfs_create fs p name mode s = (n, s') \<Longrightarrow> vfs.more s' = vfs.more s"
  by (auto simp: tmpfs_create_def Let_def split: prod.splits if_splits dest!: keeps_more)

lemma more_call_create [keeps_more]: "call_create fs p name mode s = Some (n, s') \<Longrightarrow> vfs.more s' = vfs.more s"
  by (auto simp: call_create_def split: option.splits mount_fn.splits dest: keeps_more)

lemma more_dotentries [keeps_more]: "create_dotentries p n s = Some s' \<Longrightarrow> vfs.more s' = vfs.more s"
  by (auto simp: create_dotentries_def Let_def split: prod.splits if_splits dest!: keeps_more)

lemma more_vfs_create [keeps_more]: "vfs_create p name mode s = Some (n, s') \<Longrightarrow> vfs.more s' = vfs.more s"
  by (auto simp: vfs_create_def Let_def split: bind_splits if_splits dest!: keeps_more)

lemma more_tmpfs_read [keeps_more]: "tmpfs_read n off c s = Some (b, r, s') \<Longrightarrow> vfs.more s' = vfs.more s"
  by (auto simp: tmpfs_read_def Let_def split: option.splits if_splits)

lemma more_tmpfs_write [keeps_more]: "tmpfs_write n b off s = Some (r, s') \<Longrightarrow> vfs.more s' = vfs.more s"
  by (auto simp: tmpfs_write_def tmpfs_put_def Let_def split: option.splits if_splits bind_splits prod.splits
      dest!: keeps_more)

lemma more_tmpfs_truncate [keeps_more]: "tmpfs_truncate n len s = Some (r, s') \<Longrightarrow> vfs.more s' = vfs.more s"
  by (auto simp: tmpfs_truncate_def Let_def split: option.splits if_splits bind_splits prod.splits dest!: keeps_more)

lemma more_getdents [keeps_more]: "vfs_getdents n off c s = Some (r, w, s') \<Longrightarrow> vfs.more s' = vfs.more s"
  by (auto simp: vfs_getdents_def Let_def split: option.splits if_splits bind_splits)

lemma more_same: "vfs.more s' = vfs.more s \<Longrightarrow> same_procs s s'"
  by (cases s; cases s') (simp add: same_procs_def)

named_theorems keeps_ok \<open>steps that keep the tables of descriptors\<close>

lemma ok_more: "os_ok s \<Longrightarrow> vfs.more s' = vfs.more s \<Longrightarrow> os_ok s'"
  by (metis more_same os_ok_same)

lemma ok_upd_node [keeps_ok]: "os_ok s \<Longrightarrow> os_ok (upd_node n f s)"
  by (rule ok_more) simp_all

lemma ok_lock_node: "os_ok s \<Longrightarrow> lock_node n s = Some s' \<Longrightarrow> os_ok s'"
  by (auto simp: lock_node_def split: bind_splits intro: ok_upd_node)

lemma ok_unlock_node [keeps_ok]: "os_ok s \<Longrightarrow> os_ok (unlock_node n s)"
  by (simp add: unlock_node_def keeps_ok)

lemma ok_put_user [keeps_ok]: "os_ok s \<Longrightarrow> os_ok (put_user a bs s)"
  by (erule os_ok_same) (simp add: put_user_def same_procs_def)

lemma ok_put_users: "os_ok s \<Longrightarrow> os_ok (fold (\<lambda>(off, e). put_user (a off) (b e)) ws s)"
  by (induction ws arbitrary: s) (auto simp: keeps_ok)

lemma ok_copy_to_user: "os_ok s \<Longrightarrow> copy_to_user a bs s = (ok, s') \<Longrightarrow> os_ok s'"
  by (auto simp: copy_to_user_def keeps_ok split: if_splits)

lemma ok_vfs_create: "os_ok s \<Longrightarrow> vfs_create p name mode s = Some (n, s') \<Longrightarrow> os_ok s'"
  by (rule ok_more [OF _ more_vfs_create])

lemma ok_getdents: "os_ok s \<Longrightarrow> vfs_getdents n off c s = Some (r, w, s') \<Longrightarrow> os_ok s'"
  by (rule ok_more [OF _ more_getdents])

lemma ok_cwd [keeps_ok]: "os_ok s \<Longrightarrow> os_ok (upd_proc p (\<lambda>q. q\<lparr>pr_cwd := n\<rparr>) s)"
  by (erule os_ok_same) (simp add: same_procs_def)

lemma ok_fd_create:
  assumes "os_ok s" "fd_create node flags s = (fd, s')"
  shows "os_ok s' \<and> fd < next_fd s'"
proof -
  obtain b t where t: "take_mem s = (b, t)" by force
  have "os_ok t" using os_ok_mem [OF assms(1) t] .
  then have "os_ok (upd_node node f t)" for f by (rule ok_upd_node)
  then show ?thesis
    using assms(2) os_ok_new_fd [of "upd_node node _ t"] \<open>os_ok t\<close>
    by (auto simp: fd_create_def t Let_def os_ok_def split: bool.splits)
qed

declare os_ok_upd_fd [keeps_ok] fd_hold_ok [keeps_ok]

lemma syscall_mkdir_ok: "os_ok s \<Longrightarrow> syscall_mkdir rdi s = Some (v, s') \<Longrightarrow> os_ok s'"
  by (auto simp: syscall_mkdir_def fd_from_fdnum_eq os_ok_lock Let_def keeps_ok
      split: bind_splits if_splits option.splits sum.splits prod.splits
      dest!: ok_vfs_create [rotated])

lemma syscall_close_ok: "os_ok s \<Longrightarrow> syscall_close rdi s = Some (v, s') \<Longrightarrow> os_ok s'"
  by (auto simp: syscall_close_def fd_from_fdnum_eq os_ok_lock Let_def keeps_ok
      split: bind_splits if_splits option.splits sum.splits prod.splits
      dest!: fd_close_ok [rotated])

lemma syscall_seek_ok: "os_ok s \<Longrightarrow> syscall_seek rdi rsi rdx s = Some (v, s') \<Longrightarrow> os_ok s'"
  by (auto simp: syscall_seek_def fd_from_fdnum_eq os_ok_lock Let_def keeps_ok
      split: bind_splits if_splits option.splits sum.splits prod.splits
      dest!: ok_lock_node [rotated])

lemma syscall_fcntl_ok: "os_ok s \<Longrightarrow> syscall_fcntl rdi rsi rdx s = Some (v, s') \<Longrightarrow> os_ok s'"
  by (auto simp: syscall_fcntl_def fd_from_fdnum_eq os_ok_lock Let_def keeps_ok
      split: bind_splits if_splits option.splits sum.splits prod.splits
      dest!: fd_dup_ok [rotated])

lemma syscall_stat_ok: "os_ok s \<Longrightarrow> syscall_stat rdi rsi s = Some (v, s') \<Longrightarrow> os_ok s'"
  by (auto simp: syscall_stat_def fd_from_fdnum_eq os_ok_lock Let_def keeps_ok
      split: bind_splits if_splits option.splits sum.splits prod.splits
      dest!: ok_lock_node [rotated] ok_copy_to_user [rotated])

lemma syscall_chdir_ok: "os_ok s \<Longrightarrow> syscall_chdir rdi s = Some (v, s') \<Longrightarrow> os_ok s'"
  by (auto simp: syscall_chdir_def fd_from_fdnum_eq os_ok_lock Let_def keeps_ok
      split: bind_splits if_splits option.splits sum.splits prod.splits
      dest!: ok_lock_node [rotated])

lemma syscall_getcwd_ok: "os_ok s \<Longrightarrow> syscall_getcwd stk rdi rsi s = Some (v, s') \<Longrightarrow> os_ok s'"
  by (auto simp: syscall_getcwd_def fd_from_fdnum_eq os_ok_lock Let_def keeps_ok
      split: bind_splits if_splits option.splits sum.splits prod.splits
      dest!: ok_copy_to_user [rotated])

lemma syscall_getdents_ok: "os_ok s \<Longrightarrow> syscall_getdents rdi rsi rdx s = Some (v, s') \<Longrightarrow> os_ok s'"
  by (auto simp: syscall_getdents_def fd_from_fdnum_eq os_ok_lock Let_def keeps_ok
      split: bind_splits if_splits option.splits sum.splits prod.splits
      dest!: ok_lock_node [rotated] ok_getdents [rotated]
      intro!: ok_unlock_node os_ok_upd_fd ok_put_users)

text \<open>What the system calls rely on of the drivers: they leave the tables alone.\<close>

locale file_devices =
  fixes dv :: "nat \<Rightarrow> 'a os_scheme device"
  assumes read_keeps: "dev_read (dv k) n off c fl s = Some (b, r, s') \<Longrightarrow> same_procs s s'"
    and write_keeps: "dev_write (dv k) n bs off fl s = Some (r, s') \<Longrightarrow> same_procs s s'"
    and ioctl_keeps: "dev_ioctl (dv k) n req argp s = Some (r, s') \<Longrightarrow> same_procs s s'"
    and truncate_keeps: "dev_truncate (dv k) n len s = Some (r, s') \<Longrightarrow> same_procs s s'"
    and sync_keeps: "dev_sync (dv k) n s = Some (r, s') \<Longrightarrow> same_procs s s'"
begin

lemma node_read_ok: "os_ok s \<Longrightarrow> node_read dv n off c fl s = Some (b, r, s') \<Longrightarrow> os_ok s'"
  by (auto simp: node_read_def split: file_ops.splits
      intro: ok_more more_tmpfs_read os_ok_same read_keeps)

lemma node_write_ok: "os_ok s \<Longrightarrow> node_write dv n bs off fl s = Some (r, s') \<Longrightarrow> os_ok s'"
  by (auto simp: node_write_def split: file_ops.splits
      intro: ok_more more_tmpfs_write os_ok_same write_keeps)

lemma node_ioctl_ok: "os_ok s \<Longrightarrow> node_ioctl dv n req argp s = Some (r, s') \<Longrightarrow> os_ok s'"
  by (auto simp: node_ioctl_def split: file_ops.splits intro: os_ok_same ioctl_keeps)

lemma node_truncate_ok: "os_ok s \<Longrightarrow> node_truncate dv n len s = Some (r, s') \<Longrightarrow> os_ok s'"
  by (auto simp: node_truncate_def split: file_ops.splits
      intro: ok_more more_tmpfs_truncate os_ok_same truncate_keeps)

lemma node_sync_ok: "os_ok s \<Longrightarrow> node_sync dv n s = Some (r, s') \<Longrightarrow> os_ok s'"
  by (auto simp: node_sync_def split: file_ops.splits intro: os_ok_same sync_keeps)

lemma syscall_read_ok: "os_ok s \<Longrightarrow> syscall_read dv rdi rsi rdx s = Some (v, s') \<Longrightarrow> os_ok s'"
  by (auto simp: syscall_read_def fd_from_fdnum_eq os_ok_lock Let_def keeps_ok
      split: bind_splits if_splits
      dest!: ok_lock_node [rotated] node_read_ok [rotated])

lemma syscall_write_ok: "os_ok s \<Longrightarrow> syscall_write dv rdi rsi rdx s = Some (v, s') \<Longrightarrow> os_ok s'"
  by (auto simp: syscall_write_def fd_from_fdnum_eq os_ok_lock Let_def keeps_ok
      split: bind_splits if_splits option.splits sum.splits prod.splits
      dest!: ok_lock_node [rotated] node_write_ok [rotated])

lemma syscall_ioctl_ok: "os_ok s \<Longrightarrow> syscall_ioctl dv rdi rsi rdx s = Some (v, s') \<Longrightarrow> os_ok s'"
  by (auto simp: syscall_ioctl_def fd_from_fdnum_eq os_ok_lock Let_def keeps_ok
      split: bind_splits if_splits option.splits sum.splits prod.splits
      dest!: ok_lock_node [rotated] node_ioctl_ok [rotated])

lemma syscall_truncate_ok: "os_ok s \<Longrightarrow> syscall_truncate dv rdi rsi s = Some (v, s') \<Longrightarrow> os_ok s'"
  by (auto simp: syscall_truncate_def fd_from_fdnum_eq os_ok_lock Let_def keeps_ok
      split: bind_splits if_splits option.splits sum.splits prod.splits
      dest!: ok_lock_node [rotated] node_truncate_ok [rotated])

lemma syscall_fsync_ok: "os_ok s \<Longrightarrow> syscall_fsync dv rdi s = Some (v, s') \<Longrightarrow> os_ok s'"
  by (auto simp: syscall_fsync_def fd_from_fdnum_eq os_ok_lock Let_def keeps_ok
      split: bind_splits if_splits option.splits sum.splits prod.splits
      dest!: ok_lock_node [rotated] node_sync_ok [rotated])

lemma node_truncate_fd:
  assumes "node_truncate dv n len s = Some (r, s')" "os_ok s \<and> fd < next_fd s"
  shows "os_ok s' \<and> fd < next_fd s'"
proof -
  have "same_procs s s'"
    using assms(1)
    by (auto simp: node_truncate_def split: file_ops.splits
        intro: more_same more_tmpfs_truncate truncate_keeps)
  then show ?thesis using assms(2) os_ok_same by (auto simp: same_procs_def)
qed

lemma syscall_open_ok: "os_ok s \<Longrightarrow> syscall_open dv rdi rsi s = Some (v, s') \<Longrightarrow> os_ok s'"
  by (auto simp: syscall_open_def Let_def keeps_ok
      split: bind_splits if_splits sum.splits prod.splits
      dest!: ok_vfs_create [rotated] ok_fd_create [rotated] node_truncate_fd fd_alloc_fdnum_ok [rotated 2])

lemma file_syscall_ok: "os_ok s \<Longrightarrow> file_syscall dv stk num rdi rsi rdx s = Some (v, s') \<Longrightarrow> os_ok s'"
  unfolding file_syscall_def
  by (auto split: if_splits intro: syscall_open_ok syscall_mkdir_ok syscall_close_ok syscall_read_ok
      syscall_write_ok syscall_ioctl_ok syscall_seek_ok syscall_truncate_ok syscall_fcntl_ok syscall_fsync_ok
      syscall_stat_ok syscall_chdir_ok syscall_getcwd_ok syscall_getdents_ok)

lemma file_run_ok: "file_run dv s s' \<Longrightarrow> os_ok s \<Longrightarrow> os_ok s'"
proof (induction rule: file_run.induct)
  case (call s t stk num rdi rsi rdx v t')
  then show ?case using file_syscall_ok by blast
next
  case (switch s t p m)
  then show ?case by (auto intro: os_ok_same simp: same_procs_def)
qed

end

interpretation pseudo: file_devices "\<lambda>_. pseudo_device"
  by unfold_locales
    (auto simp: pseudo_device_def pseudo_read_def pseudo_write_def same_procs_def Let_def
      split: if_splits bind_splits)



section \<open>Bad descriptors\<close>

text \<open>C27: a file system call on a descriptor number that is negative, beyond the table or not open
  returns EBADF and changes nothing, whatever its other arguments are (as long as the buffer of
  read, write and getdents is a user address).\<close>

theorem bad_descriptor_EBADF:
  assumes "os_ok s" "fd_slot s (running s) (int_arg rdi) = 0" "check_user_ptr buf s"
  shows "syscall_close rdi s = Some (rax (- EBADF), s) \<and>
    syscall_read dv rdi buf rdx s = Some (rax (- EBADF), s) \<and>
    syscall_write dv rdi buf rdx s = Some (rax (- EBADF), s) \<and>
    syscall_ioctl dv rdi rsi rdx s = Some (rax (- EBADF), s) \<and>
    syscall_seek rdi rsi rdx s = Some (rax (- EBADF), s) \<and>
    syscall_truncate dv rdi rsi s = Some (rax (- EBADF), s) \<and>
    syscall_fcntl rdi rsi rdx s = Some (rax (- EBADF), s) \<and>
    syscall_fsync dv rdi s = Some (rax (- EBADF), s) \<and>
    syscall_stat rdi rsi s = Some (rax (- EBADF), s) \<and>
    syscall_chdir rdi s = Some (rax (- EBADF), s) \<and>
    syscall_getdents rdi buf rdx s = Some (rax (- EBADF), s)"
  using assms(2,3) os_ok_lock [OF assms(1)]
  by (simp add: syscall_close_def syscall_read_def syscall_write_def syscall_ioctl_def syscall_seek_def
      syscall_truncate_def syscall_fcntl_def syscall_fsync_def syscall_stat_def syscall_chdir_def
      syscall_getdents_def fd_close_eq fd_from_fdnum_eq fd_hold_def)

theorem bad_descriptor_EBADF_witness:
  "syscall_read (\<lambda>_. pseudo_device) 40 0x400000 5 (sample_os False) = Some (rax (- EBADF), sample_os False)"
proof -
  have "int_arg 40 = 40" by (simp add: int_arg_def)
  then show ?thesis
    using bad_descriptor_EBADF [of "sample_os False" 40 "0x400000" "\<lambda>_. pseudo_device" 5] sample_os_ok(1)
    by (simp add: fd_slot_def MAX_FDS_def check_user_ptr_def sample_os_simps sample_proc_def PROCESS_THREAD_STACK_TOP_def)
qed

section \<open>A file of bytes with an offset\<close>

text \<open>The abstract view of an open regular file of a tmpfs: its bytes and the offset of the descriptor.\<close>

definition open_file :: "'a os_scheme \<Rightarrow> u64 \<Rightarrow> nat \<Rightarrow> u64 \<Rightarrow> u8 list \<Rightarrow> bool" where
  "open_file s rdi n off bytes \<longleftrightarrow> os_ok s \<and>
     (let fd = fd_slot s (running s) (int_arg rdi) in
      fd \<noteq> 0 \<and> fd_node (fds s fd) = n \<and> fd_flags (fds s fd) AND O_ACCMODE = O_RDWR \<and> fd_offset (fds s fd) = off) \<and>
     vn_ops (nodes s n) = TmpfsOps \<and> S_ISREG (st_mode_of n s) \<and> vn_lock (nodes s n) = 0 \<and>
     file_ok s n \<and> file_bytes s n = bytes"

definition same_user :: "'a os_scheme \<Rightarrow> 'a os_scheme \<Rightarrow> bool" where
  "same_user s s' \<longleftrightarrow> running s' = running s \<and> procs s' = procs s \<and> umem s' = umem s"

lemma S_ISREG_other: "S_ISREG m \<Longrightarrow> \<not> S_ISDIR m \<and> \<not> S_ISBLK m"
  by (auto simp: S_ISDIR_def S_ISREG_def S_ISBLK_def S_IFDIR_def S_IFREG_def S_IFBLK_def)

lemma O_RDWR_not_PATH: "O_RDWR AND O_PATH = 0"
  by (simp add: O_RDWR_def O_PATH_def)

lemma tmpfs_write_frame:
  assumes "tmpfs_write n b off s = Some (r, s')"
  shows "vn_ops (nodes s' n) = vn_ops (nodes s n) \<and> vn_lock (nodes s' n) = vn_lock (nodes s n) \<and>
    st_mode (vn_stat (nodes s' n)) = st_mode (vn_stat (nodes s n)) \<and> vfs.more s' = vfs.more s"
  using more_tmpfs_write [OF assms] assms
  by (auto simp: tmpfs_write_def tmpfs_put_def Let_def upd_node_def take_mem_def
      split: option.splits if_splits bind_splits prod.splits)

lemma more_fields:
  "vfs.more s' = vfs.more s \<Longrightarrow> procs s' = procs s \<and> fds s' = fds s \<and> next_fd s' = next_fd s \<and>
   running s' = running s \<and> umem s' = umem s"
  by (cases s; cases s') simp

lemma file_upd_lock [simp]:
  "file_ok (upd_node n (\<lambda>nd. nd\<lparr>vn_lock := l\<rparr>) s) n = file_ok s n"
  "file_bytes (upd_node n (\<lambda>nd. nd\<lparr>vn_lock := l\<rparr>) s) n = file_bytes s n"
  using file_cong [of "upd_node n (\<lambda>nd. nd\<lparr>vn_lock := l\<rparr>) s" n s] by (simp_all add: upd_node_def)

lemma file_upd_fd [simp]:
  "file_ok (upd_fd k f s) n = file_ok s n" "file_bytes (upd_fd k f s) n = file_bytes s n"
  "file_ok (put_user a bs s) n = file_ok s n" "file_bytes (put_user a bs s) n = file_bytes s n"
  using file_cong [of "upd_fd k f s" n s] file_cong [of "put_user a bs s" n s] by (simp_all add: put_user_def)

lemma fd_hold_simps [simp]:
  "nodes (fd_hold fd s) = nodes s" "procs (fd_hold fd s) = procs s" "running (fd_hold fd s) = running s"
  "umem (fd_hold fd s) = umem s" "next_fd (fd_hold fd s) = next_fd s" "fd_node (fds (fd_hold fd s) k) = fd_node (fds s k)"
  "fd_flags (fds (fd_hold fd s) k) = fd_flags (fds s k)" "fd_offset (fds (fd_hold fd s) k) = fd_offset (fds s k)"
  "acc_mode k (fd_hold fd s) = acc_mode k s" "st_mode_of n (fd_hold fd s) = st_mode_of n s"
  "fd_slot (fd_hold fd s) p i = fd_slot s p i" "file_ok (fd_hold fd s) n = file_ok s n"
  "file_bytes (fd_hold fd s) n = file_bytes s n" "mem_left (fd_hold fd s) = mem_left s"
  by (auto simp: fd_hold_def acc_mode_def st_mode_of_def fd_slot_def) (simp add: upd_fd_def)

lemma upd_node_simps [simp]:
  "procs (upd_node n f s) = procs s" "running (upd_node n f s) = running s" "umem (upd_node n f s) = umem s"
  "fds (upd_node n f s) = fds s" "next_fd (upd_node n f s) = next_fd s" "nodes (upd_node n f s) m = (if m = n then f (nodes s n) else nodes s m)"
  by (simp_all add: upd_node_def)

lemma put_user_simps [simp]:
  "procs (put_user a bs s) = procs s" "running (put_user a bs s) = running s" "fds (put_user a bs s) = fds s"
  "next_fd (put_user a bs s) = next_fd s" "nodes (put_user a bs s) = nodes s"
  by (simp_all add: put_user_def)

lemma open_file_step:
  assumes "open_file s rdi n off bytes" "fd = fd_slot s (running s) (int_arg rdi)"
    "procs s' = procs s" "running s' = running s" "next_fd s' = next_fd s"
    "fd_node (fds s' fd) = fd_node (fds s fd)" "fd_flags (fds s' fd) = fd_flags (fds s fd)" "fd_offset (fds s' fd) = off'"
    "vn_ops (nodes s' n) = TmpfsOps" "st_mode_of n s' = st_mode_of n s" "vn_lock (nodes s' n) = 0"
    "file_ok s' n" "file_bytes s' n = bytes'"
  shows "open_file s' rdi n off' bytes'"
proof -
  have "fd_slot s' (running s') (int_arg rdi) = fd" using assms(2-4) by (simp add: fd_slot_def)
  moreover have "os_ok s' = os_ok s" using assms(3,5) by (simp add: os_ok_def)
  ultimately show ?thesis using assms(1,2) assms(6-) by (simp add: open_file_def Let_def)
qed

lemma syscall_write_file:
  assumes "open_file s rdi n off bytes" "check_user_ptr src s" "unat off \<le> length bytes"
    "unat off + unat count < 2 ^ 61" "0 < mem_left s"
  shows "\<exists>s'. syscall_write dv rdi src count s = Some (count, s') \<and> same_user s s' \<and>
    open_file s' rdi n (off + count)
      (take (unat off) bytes @ user_bytes src count s @ drop (unat off + unat count) bytes)"
proof -
  let ?fd = "fd_slot s (running s) (int_arg rdi)"
  define t where "t = upd_node n (\<lambda>nd. nd\<lparr>vn_lock := 1\<rparr>) (fd_hold ?fd s)"
  note of = assms(1) [unfolded open_file_def Let_def]
  have len: "length (user_bytes src count t) = unat count" by (simp add: user_bytes_def)
  have ub: "user_bytes src count t = user_bytes src count s"
    by (simp add: user_bytes_def t_def upd_node_def fd_hold_def)
  have t: "file_ok t n" "file_bytes t n = bytes" "mem_left t \<noteq> 0"
    using of assms(5) by (simp_all add: t_def fd_hold_def) (simp add: upd_fd_def upd_node_def)
  obtain r u where w: "tmpfs_write n (user_bytes src count t) off t = Some (r, u)" "file_ok u n"
      "r = int (unat count)" "file_bytes u n = take (unat off) bytes @ user_bytes src count s @ drop (unat off + unat count) bytes"
    using tmpfs_write_lemma [OF t(1), of off "user_bytes src count t"] assms(3,4) t len ub
    by (auto split: if_splits)
  have f: "vn_ops (nodes u n) = TmpfsOps" "st_mode_of n u = st_mode_of n s" "procs u = procs s" "running u = running s"
      "umem u = umem s" "fds u = fds (fd_hold ?fd s)" "next_fd u = next_fd s"
    using tmpfs_write_frame [OF w(1)] more_fields [of u t] of by (simp_all add: t_def st_mode_of_def)
  define s' where "s' = (if 0 < r then upd_fd ?fd (\<lambda>f. f\<lparr>fd_offset := fd_offset f + word_of_int r\<rparr>) (unlock_node n u)
    else unlock_node n u)"
  have lock: "lock_node n (fd_hold ?fd s) = Some t" using of by (simp add: lock_node_def t_def)
  have t': "vn_ops (nodes t n) = TmpfsOps" "fds t = fds (fd_hold ?fd s)" using of by (simp_all add: t_def)
  have "syscall_write dv rdi src count s = Some (count, s')"
    using of assms(2) S_ISREG_other [of "st_mode_of n s"] w(1)
    by (simp add: syscall_write_def fd_from_fdnum_eq os_ok_lock acc_mode_def O_RDWR_not_PATH blk_misaligned_def
        lock node_write_def t' w(3) rax_def s'_def Let_def)
  moreover have "same_user s s'" by (simp add: same_user_def s'_def f unlock_node_def)
  moreover have "open_file s' rdi n (off + count)
      (take (unat off) bytes @ user_bytes src count s @ drop (unat off + unat count) bytes)"
  proof (rule open_file_step [OF assms(1) refl])
    show "fd_offset (fds s' ?fd) = off + count"
      using of by (simp add: s'_def unlock_node_def f w(3)) (metis uint_0_iff uint_ge_0 order_le_less)
  qed (use w f in \<open>simp_all add: s'_def unlock_node_def st_mode_of_def\<close>)
  ultimately show ?thesis by blast
qed

lemma syscall_seek_file:
  assumes "open_file s rdi n off bytes" "0 \<le> sint pos"
  shows "\<exists>s'. syscall_seek rdi pos 0 s = Some (pos, s') \<and> same_user s s' \<and> open_file s' rdi n pos bytes"
proof -
  let ?fd = "fd_slot s (running s) (int_arg rdi)"
  let ?s' = "upd_fd ?fd (\<lambda>f. f\<lparr>fd_offset := pos\<rparr>) (fd_hold ?fd s)"
  note of = assms(1) [unfolded open_file_def Let_def]
  have "syscall_seek rdi pos 0 s = Some (pos, ?s')"
    using of assms(2) S_ISREG_other [of "st_mode_of n s"]
    by (simp add: syscall_seek_def fd_from_fdnum_eq os_ok_lock acc_mode_def O_RDWR_not_PATH blk_misaligned_def
        int_arg_def SEEK_SET_def SEEK_CUR_def SEEK_END_def Let_def)
  moreover have "same_user s ?s'" by (simp add: same_user_def)
  moreover have "open_file ?s' rdi n pos bytes"
    by (rule open_file_step [OF assms(1) refl]) (use of in \<open>simp_all add: st_mode_of_def\<close>)
  ultimately show ?thesis by blast
qed

lemma unat_64: "unat (c :: u64) < 18446744073709551616"
  using unsigned_less [of c] by simp

lemma user_bytes_put:
  assumes "length bs = unat c"
  shows "user_bytes a c (put_user a bs s) = bs"
proof -
  have "fold (\<lambda>i m. m(a + of_nat i := bs ! i)) [0..<k] m (a + of_nat j) = bs ! j"
    if "j < k" "k \<le> unat c" for k j and m :: "u64 \<Rightarrow> u8"
    using that
  proof (induction k)
    case (Suc k)
    have "(of_nat j :: u64) \<noteq> of_nat k" if "j < k"
    proof -
      have "k < 2 ^ 64" using Suc.prems(2) unat_64 [of c] by simp
      then show ?thesis using that by (simp add: word_unat_eq_iff unat_of_nat)
    qed
    then show ?case using Suc by (auto simp: less_Suc_eq)
  qed simp
  then show ?thesis using assms by (intro nth_equalityI) (simp_all add: user_bytes_def put_user_def)
qed

lemma syscall_read_file:
  assumes "open_file s rdi n off bytes" "check_user_ptr dst s" "unat off \<le> length bytes" "unat off + unat count < 2 ^ 63"
    "chunk = take (unat count) (drop (unat off) bytes)"
  shows "\<exists>s'. syscall_read dv rdi dst count s = Some (of_nat (length chunk), s') \<and>
    umem s' = umem (put_user dst chunk s) \<and> open_file s' rdi n (off + of_nat (length chunk)) bytes"
proof -
  let ?fd = "fd_slot s (running s) (int_arg rdi)"
  define t where "t = upd_node n (\<lambda>nd. nd\<lparr>vn_lock := 1\<rparr>) (fd_hold ?fd s)"
  note of = assms(1) [unfolded open_file_def Let_def]
  have t: "file_ok t n" "file_bytes t n = bytes" "vn_ops (nodes t n) = TmpfsOps" "fds t = fds (fd_hold ?fd s)"
      "st_mode_of n t = st_mode_of n s"
    using of by (simp_all add: t_def st_mode_of_def)
  have lock: "lock_node n (fd_hold ?fd s) = Some t" using of by (simp add: lock_node_def t_def)
  obtain u where u: "tmpfs_read n off count t = Some (chunk, int (length chunk), u)"
    using tmpfs_read_lemma [OF t(1) assms(4)] assms(3,5) by (auto simp: t(2) min_def split: if_splits)
  have f: "procs u = procs s" "running u = running s" "umem u = umem s" "fds u = fds (fd_hold ?fd s)" "next_fd u = next_fd s"
    using more_fields [OF more_tmpfs_read [OF u]] by (simp_all add: t_def)
  have nd: "vn_ops (nodes u n) = TmpfsOps" "st_mode_of n u = st_mode_of n s" "file_ok u n" "file_bytes u n = bytes"
    using u t file_cong [of u n t]
    by (auto simp: tmpfs_read_def Let_def st_mode_of_def split: option.splits if_splits)
  define s1 where "s1 = unlock_node n (put_user dst chunk u)"
  define s' where "s' = (if 0 < int (length chunk) then
      upd_fd ?fd (\<lambda>f. f\<lparr>fd_offset := fd_offset f + word_of_int (int (length chunk))\<rparr>) s1 else s1)"
  have "syscall_read dv rdi dst count s = Some (of_nat (length chunk), s')"
    using of assms(2) S_ISREG_other [of "st_mode_of n s"] u
    by (simp add: syscall_read_def fd_from_fdnum_eq os_ok_lock acc_mode_def O_RDWR_not_PATH blk_misaligned_def
        lock node_read_def t rax_def s'_def s1_def Let_def)
  moreover have "umem s' = umem (put_user dst chunk s)"
    by (simp add: s'_def s1_def unlock_node_def put_user_def f)
  moreover have "open_file s' rdi n (off + of_nat (length chunk)) bytes"
    by (rule open_file_step [OF assms(1) refl])
      (use of f nd in \<open>simp_all add: s'_def s1_def unlock_node_def st_mode_of_def\<close>)
  ultimately show ?thesis by blast
qed

text \<open>C25: what a process writes to a regular file of a tmpfs at the current offset, it reads back: write,
  seek to where the write began and read the same number of bytes all succeed in full, and the bytes
  read into the second buffer are those that were in the first.\<close>

theorem file_write_read_roundtrip:
  assumes "open_file s rdi n off bytes" "unat off \<le> length bytes" "unat off + unat count < 2 ^ 61" "0 < mem_left s"
    "check_user_ptr src s" "check_user_ptr dst s"
  shows "\<exists>s1 s2 s3. syscall_write dv rdi src count s = Some (count, s1) \<and>
    syscall_seek rdi off 0 s1 = Some (off, s2) \<and>
    syscall_read dv rdi dst count s2 = Some (count, s3) \<and>
    user_bytes dst count s3 = user_bytes src count s \<and>
    (\<exists>bytes'. open_file s3 rdi n (off + count) bytes')"
proof -
  let ?new = "take (unat off) bytes @ user_bytes src count s @ drop (unat off + unat count) bytes"
  have chunk: "user_bytes src count s = take (unat count) (drop (unat off) ?new)"
    using assms(2) by (simp add: user_bytes_def)
  have len: "length (user_bytes src count s) = unat count" by (simp add: user_bytes_def)
  obtain s1 where s1: "syscall_write dv rdi src count s = Some (count, s1)" "same_user s s1"
      "open_file s1 rdi n (off + count) ?new"
    using syscall_write_file [OF assms(1,5,2,3,4)] by blast
  have "0 \<le> sint off" using assms(3) by (subst sint_small) simp_all
  then obtain s2 where s2: "syscall_seek rdi off 0 s1 = Some (off, s2)" "same_user s1 s2" "open_file s2 rdi n off ?new"
    using syscall_seek_file [OF s1(3)] by blast
  have ptr: "check_user_ptr dst s2" using assms(6) s1(2) s2(2) by (simp add: same_user_def check_user_ptr_def)
  obtain s3 where s3: "syscall_read dv rdi dst count s2 = Some (of_nat (unat count), s3)"
      "umem s3 = umem (put_user dst (user_bytes src count s) s2)" "open_file s3 rdi n (off + of_nat (unat count)) ?new"
    using syscall_read_file [OF s2(3) ptr _ _ chunk] assms(2,3) len by auto
  have "user_bytes dst count s3 = user_bytes dst count (put_user dst (user_bytes src count s) s2)"
    by (simp add: user_bytes_def s3(2))
  also have "\<dots> = user_bytes src count s" by (rule user_bytes_put [OF len])
  finally show ?thesis using s1(1) s2(1) s3(1,3) by auto
qed

theorem file_write_read_roundtrip_witness:
  "\<exists>s1 s2 s3. syscall_write (\<lambda>_. pseudo_device) 0 0x400000 8 (sample_os False) = Some (8, s1) \<and>
    syscall_seek 0 0 0 s1 = Some (0, s2) \<and> syscall_read (\<lambda>_. pseudo_device) 0 0x500000 8 s2 = Some (8, s3) \<and>
    user_bytes 0x500000 8 s3 = [0, 1, 2, 3, 4, 5, 6, 7]"
proof -
  have "open_file (sample_os False) 0 2 0 [0, 1, 2]"
    using sample_os_ok [of False] sample_file file_cong [of "sample_os False" 2 sample_vfs]
    by (simp add: open_file_def sample_os_simps int_arg_def O_RDWR_def O_ACCMODE_def O_PATH_def st_mode_of_def
        sample_vfs_def sample_node_def S_ISREG_def S_IFREG_def S_IFMT_def)
  moreover have "user_bytes 0x400000 8 (sample_os False) = [0, 1, 2, 3, 4, 5, 6, 7]"
    by (simp add: user_bytes_def sample_os_simps upt_rec)
  ultimately show ?thesis
    using file_write_read_roundtrip [of "sample_os False" 0 2 0 "[0, 1, 2]" 8 "0x400000" "0x500000" "\<lambda>_. pseudo_device"]
    by (auto simp: sample_os_simps check_user_ptr_def sample_proc_def PROCESS_THREAD_STACK_TOP_def)
qed

end
