(* ===== verification/Pmm.thy ===== *)
theory Pmm
  imports Spinlock
begin

text \<open>
  The physical page allocator: \<^verbatim>\<open>kernel/src/mem/pmm.c\<close>. The file-level variables are the record
  \<open>pmm\<close>. Page indices are natural numbers: the code's \<^verbatim>\<open>size_t\<close> indices stay below
  \<^verbatim>\<open>highest_page_index\<close>, a 64-bit address divided by the page size, and so never wrap. The counter
  \<^verbatim>\<open>used_pages\<close>, which \<^verbatim>\<open>pmm_free\<close> may take below zero, is a 64-bit word. Addresses are physical:
  the kernel reaches the frame at address \<open>a\<close> through the window at \<^verbatim>\<open>a + HIGH_VMA\<close>.
\<close>

datatype memmap_type =
    USABLE | RESERVED | ACPI_RECLAIMABLE | ACPI_NVS | BAD_MEMORY | BOOTLOADER_RECLAIMABLE
  | KERNEL_AND_MODULES | FRAMEBUFFER | OTHER_TYPE

record memmap_entry =
  me_base :: u64
  me_length :: u64
  me_type :: memmap_type

record pmm =
  pmm_bitmap :: bitmap
  reserved_pages :: u64
  usable_pages :: u64
  pmm_lock :: u64
  used_pages :: u64
  last_used_index :: nat
  highest_page_index :: nat

fun memmap_type_str :: "memmap_type \<Rightarrow> string" where
  "memmap_type_str USABLE = ''usable''"
| "memmap_type_str RESERVED = ''reserved''"
| "memmap_type_str ACPI_RECLAIMABLE = ''acpi reclaimable''"
| "memmap_type_str ACPI_NVS = ''acpi non-volatile storage''"
| "memmap_type_str BAD_MEMORY = ''bad memory''"
| "memmap_type_str BOOTLOADER_RECLAIMABLE = ''bootloader reclaimable''"
| "memmap_type_str KERNEL_AND_MODULES = ''kernel and modules''"
| "memmap_type_str FRAMEBUFFER = ''framebuffer''"
| "memmap_type_str OTHER_TYPE = ''unknown type''"

text \<open>
  The scan of \<^verbatim>\<open>alloc_first_fit_from_last\<close>: \<open>p\<close> counts the free pages seen in a row. The result is
  the page number of the run, \<open>None\<close> for \<^verbatim>\<open>(uintptr_t) -1\<close>.
\<close>

function alloc_scan :: "nat \<Rightarrow> nat \<Rightarrow> nat \<Rightarrow> pmm \<Rightarrow> nat option \<times> pmm" where
  "alloc_scan pages last_limit p s =
     (if last_used_index s < last_limit then
        let s = s\<lparr>last_used_index := Suc (last_used_index s)\<rparr> in
        if \<not> BITMAP_TEST (pmm_bitmap s) (last_used_index s) then
          if Suc p = pages then
            let page = last_used_index s - pages in
            (Some page,
             s\<lparr>pmm_bitmap := fold (\<lambda>i b. BITMAP_SET b i) [page..<last_used_index s] (pmm_bitmap s)\<rparr>)
          else alloc_scan pages last_limit (Suc p) s
        else alloc_scan pages last_limit 0 s
      else (None, s))"
  by pat_completeness auto
termination
  by (relation "measure (\<lambda>(pages, last_limit, p, s). last_limit - last_used_index s)") auto

declare alloc_scan.simps [simp del]

definition alloc_first_fit_from_last :: "nat \<Rightarrow> nat \<Rightarrow> pmm \<Rightarrow> u64 option \<times> pmm" where
  "alloc_first_fit_from_last pages last_limit s =
     (case alloc_scan pages last_limit 0 s of
        (ret, s') \<Rightarrow> (map_option (\<lambda>page. of_nat page * PAGE_SIZE) ret, s'))"

definition pmm_alloc :: "u64 \<Rightarrow> pmm \<Rightarrow> (u64 \<times> pmm) option" where
  "pmm_alloc pages s = do {
     l \<leftarrow> spinlock_acquire (pmm_lock s);
     let s = s\<lparr>pmm_lock := l\<rparr>;
     let last_idx = last_used_index s;
     let (ret, s) = alloc_first_fit_from_last (unat pages) (highest_page_index s) s;
     let (ret, s) = (if ret = None
                     then alloc_first_fit_from_last (unat pages) last_idx (s\<lparr>last_used_index := 0\<rparr>)
                     else (ret, s));
     case ret of
       None \<Rightarrow> None
     | Some addr \<Rightarrow>
         Some (addr, s\<lparr>used_pages := used_pages s + pages, pmm_lock := spinlock_release (pmm_lock s)\<rparr>)
   }"

definition pmm_free :: "u64 \<Rightarrow> u64 \<Rightarrow> pmm \<Rightarrow> pmm option" where
  "pmm_free addr pages s = do {
     l \<leftarrow> spinlock_acquire (pmm_lock s);
     let page = unat (addr div PAGE_SIZE);
     let b = fold (\<lambda>i b. BITMAP_CLEAR b i) [page..<page + unat pages] (pmm_bitmap s);
     Some (s\<lparr>pmm_bitmap := b, used_pages := used_pages s - pages, pmm_lock := spinlock_release l\<rparr>)
   }"

text \<open>
  \<^verbatim>\<open>pmm_init\<close>. The first loop adds up the page counts and finds the highest usable address; the
  second puts the bitmap into the first usable entry that can hold it (clearing it to \<^verbatim>\<open>0xff\<close> and
  shrinking the entry); the third clears the bit of every page of every usable entry. The argument
  \<open>garbage\<close> is what the memory at the bitmap's address holds before. If no entry can hold the bitmap
  its pointer stays null, and clearing through it does not return (\<open>None\<close>), unless there is nothing
  to clear.
\<close>

definition memmap_scan :: "memmap_entry list \<Rightarrow> u64 \<times> u64 \<times> u64" where
  "memmap_scan entries =
     fold (\<lambda>e (usable, reserved, highest).
             if me_type e = USABLE
             then (usable + DIV_CEIL (me_length e) PAGE_SIZE, reserved,
                   max highest (me_base e + me_length e))
             else (usable, reserved + DIV_CEIL (me_length e) PAGE_SIZE, highest))
       entries (0, 0, 0)"

fun place_bitmap :: "u64 \<Rightarrow> memmap_entry list \<Rightarrow> memmap_entry list option" where
  "place_bitmap bitmap_size [] = None"
| "place_bitmap bitmap_size (e # es) =
     (if me_type e = USABLE \<and> bitmap_size \<le> me_length e
      then Some (e\<lparr>me_length := me_length e - bitmap_size, me_base := me_base e + bitmap_size\<rparr> # es)
      else map_option ((#) e) (place_bitmap bitmap_size es))"

definition entry_pages :: "memmap_entry \<Rightarrow> nat list" where
  "entry_pages e =
     (if me_type e = USABLE
      then map (\<lambda>k. unat ((me_base e + of_nat (k * 4096)) div PAGE_SIZE))
             [0..<(unat (me_length e) + 4095) div 4096]
      else [])"

definition pmm_bitmap_size :: "nat \<Rightarrow> u64" where
  "pmm_bitmap_size highest = ALIGN_UP (of_nat (highest div 8)) PAGE_SIZE"

definition pmm_init :: "memmap_entry list \<Rightarrow> bitmap \<Rightarrow> pmm option" where
  "pmm_init entries garbage =
     (let (usable, reserved, highest_addr) = memmap_scan entries;
          highest = unat (highest_addr div PAGE_SIZE);
          bitmap_size = pmm_bitmap_size highest;
          state = (\<lambda>b. \<lparr>pmm_bitmap = b, reserved_pages = reserved, usable_pages = usable,
                        pmm_lock = 0, used_pages = 0, last_used_index = 0,
                        highest_page_index = highest\<rparr>)
      in case place_bitmap bitmap_size entries of
           None \<Rightarrow> if concat (map entry_pages entries) = [] then Some (state garbage) else None
         | Some entries' \<Rightarrow>
             Some (state (fold (\<lambda>i b. BITMAP_CLEAR b i) (concat (map entry_pages entries'))
                            (\<lambda>i. if i < unat bitmap_size then 0xff else garbage i))))"

section \<open>The scan\<close>

definition run_free :: "bitmap \<Rightarrow> nat \<Rightarrow> nat \<Rightarrow> bool" where
  "run_free b start n \<longleftrightarrow> (\<forall>i. start < i \<and> i \<le> start + n \<longrightarrow> \<not> BITMAP_TEST b i)"

lemma alloc_scan_found:
  assumes "alloc_scan pages limit p s = (Some page, s')"
    and "p < pages" "p \<le> last_used_index s" "run_free (pmm_bitmap s) (last_used_index s - p) p"
  shows "last_used_index s \<le> page + p \<and> page + pages \<le> limit \<and> run_free (pmm_bitmap s) page pages \<and>
    (\<forall>q. last_used_index s - p \<le> q \<and> q < page \<longrightarrow> \<not> run_free (pmm_bitmap s) q pages) \<and>
    s' = s\<lparr>last_used_index := page + pages,
           pmm_bitmap := fold (\<lambda>i b. BITMAP_SET b i) [page..<page + pages] (pmm_bitmap s)\<rparr>"
  using assms
proof (induction pages limit p s rule: alloc_scan.induct)
  case (1 pages limit p s)
  let ?l = "last_used_index s" and ?b = "pmm_bitmap s"
  note unfold = alloc_scan.simps [of pages limit p s]
  have lt: "?l < limit" using "1.prems"(1) by (simp add: unfold split: if_splits)
  consider (used) "BITMAP_TEST ?b (Suc ?l)"
    | (hit) "\<not> BITMAP_TEST ?b (Suc ?l)" "Suc p = pages"
    | (more) "\<not> BITMAP_TEST ?b (Suc ?l)" "Suc p \<noteq> pages" by blast
  then show ?case
  proof cases
    case used
    have "run_free ?b (Suc ?l) 0" by (auto simp: run_free_def)
    moreover have "\<not> run_free ?b q pages" if "?l - p \<le> q" "q \<le> ?l" for q
      using used that "1.prems"(2,3) by (auto simp: run_free_def intro!: exI [of _ "Suc ?l"])
    moreover have "q \<le> ?l \<or> Suc ?l \<le> q" for q by linarith
    ultimately show ?thesis using used lt "1.prems" "1.IH"(2) by (auto simp: unfold Let_def)
  next
    case hit
    have "run_free ?b (?l - p) (Suc p)"
      using hit(1) "1.prems"(3,4) by (auto simp: run_free_def le_Suc_eq)
    with hit lt "1.prems" show ?thesis by (auto simp: unfold Let_def)
  next
    case more
    have "run_free ?b (Suc ?l - Suc p) (Suc p)"
      using more(1) "1.prems"(3,4) by (auto simp: run_free_def le_Suc_eq)
    with more lt "1.prems" "1.IH"(1) show ?thesis by (auto simp: unfold Let_def)
  qed
qed

text \<open>If the scan fails it has only moved the cursor, and there was no run of free pages to
  find.\<close>

lemma alloc_scan_none:
  assumes "alloc_scan pages limit p s = (None, s')"
    and "p < pages" "p \<le> last_used_index s"
  shows "s' = s\<lparr>last_used_index := max (last_used_index s) limit\<rparr> \<and>
    (\<forall>q. last_used_index s - p \<le> q \<and> q + pages \<le> limit \<longrightarrow> \<not> run_free (pmm_bitmap s) q pages)"
  using assms
proof (induction pages limit p s rule: alloc_scan.induct)
  case (1 pages limit p s)
  let ?l = "last_used_index s" and ?b = "pmm_bitmap s"
  note unfold = alloc_scan.simps [of pages limit p s]
  consider (stop) "\<not> ?l < limit" | (used) "?l < limit" "BITMAP_TEST ?b (Suc ?l)"
    | (free) "?l < limit" "\<not> BITMAP_TEST ?b (Suc ?l)" by blast
  then show ?case
  proof cases
    case stop
    with "1.prems" show ?thesis by (auto simp: unfold max_def)
  next
    case used
    have "\<not> run_free ?b q pages" if "?l - p \<le> q" "q \<le> ?l" for q
      using used(2) that "1.prems"(2,3) by (auto simp: run_free_def intro!: exI [of _ "Suc ?l"])
    moreover have "q \<le> ?l \<or> Suc ?l \<le> q" for q by linarith
    ultimately show ?thesis
      using used "1.prems" "1.IH"(2) by (auto simp: unfold Let_def max_def)
  next
    case free
    with "1.prems"(1) have "Suc p \<noteq> pages" by (auto simp: unfold Let_def)
    with free "1.prems" "1.IH"(1) show ?thesis by (auto simp: unfold Let_def max_def)
  qed
qed

lemma run_free_0 [simp]: "run_free b q 0"
  by (auto simp: run_free_def)

text \<open>So the scan is a search for the first start of a run of free pages, written with the list
  function \<open>find\<close>.\<close>

definition mark_run :: "nat \<Rightarrow> nat \<Rightarrow> pmm \<Rightarrow> pmm" where
  "mark_run page pages s =
     s\<lparr>last_used_index := page + pages,
       pmm_bitmap := fold (\<lambda>i b. BITMAP_SET b i) [page..<page + pages] (pmm_bitmap s)\<rparr>"

lemma find_upt_first:
  assumes "a \<le> k" "k < b" "P k" "\<And>q. a \<le> q \<Longrightarrow> q < k \<Longrightarrow> \<not> P q"
  shows "find P [a..<b] = Some k"
proof -
  have "[a..<b] ! (k - a) = k" "k - a < length [a..<b]" using assms(1,2) by auto
  moreover have "\<not> P ([a..<b] ! j)" if "j < k - a" for j
    using that assms(1,2) assms(4) [of "a + j"] by simp
  ultimately show ?thesis
    using assms(3) unfolding find_Some_iff by (intro exI [of _ "k - a"]) auto
qed

lemma alloc_scan_find:
  assumes "0 < pages"
  shows "alloc_scan pages limit 0 s =
    (case find (\<lambda>q. run_free (pmm_bitmap s) q pages) [last_used_index s..<Suc limit - pages] of
       None \<Rightarrow> (None, s\<lparr>last_used_index := max (last_used_index s) limit\<rparr>)
     | Some page \<Rightarrow> (Some page, mark_run page pages s))"
proof -
  obtain ret s' where res: "alloc_scan pages limit 0 s = (ret, s')" by fastforce
  show ?thesis
  proof (cases ret)
    case None
    with res assms have "s' = s\<lparr>last_used_index := max (last_used_index s) limit\<rparr>"
      and "\<forall>q. last_used_index s \<le> q \<and> q + pages \<le> limit \<longrightarrow> \<not> run_free (pmm_bitmap s) q pages"
      using alloc_scan_none [of pages limit 0 s s'] by auto
    moreover from this(2) have
      "find (\<lambda>q. run_free (pmm_bitmap s) q pages) [last_used_index s..<Suc limit - pages] = None"
      by (auto simp: find_None_iff)
    ultimately show ?thesis using res None by simp
  next
    case (Some page)
    with res assms have "last_used_index s \<le> page" "page + pages \<le> limit"
      "run_free (pmm_bitmap s) page pages"
      "\<forall>q. last_used_index s \<le> q \<and> q < page \<longrightarrow> \<not> run_free (pmm_bitmap s) q pages"
      "s' = mark_run page pages s"
      using alloc_scan_found [of pages limit 0 s page s'] by (auto simp: mark_run_def)
    moreover from this have
      "find (\<lambda>q. run_free (pmm_bitmap s) q pages) [last_used_index s..<Suc limit - pages] = Some page"
      by (intro find_upt_first) auto
    ultimately show ?thesis using res Some by simp
  qed
qed

section \<open>Allocation\<close>

text \<open>The policy of \<^verbatim>\<open>pmm_alloc\<close> as an abstract function: the first run found from the cursor to
  the end of memory, or else the first run below the cursor.\<close>

definition next_fit :: "nat \<Rightarrow> pmm \<Rightarrow> nat option" where
  "next_fit n s =
     (case find (\<lambda>q. run_free (pmm_bitmap s) q n)
             [last_used_index s..<Suc (highest_page_index s) - n] of
        Some q \<Rightarrow> Some q
      | None \<Rightarrow> find (\<lambda>q. run_free (pmm_bitmap s) q n) [0..<Suc (last_used_index s) - n])"

lemma run_free_exec [code]:
  "run_free b start n \<longleftrightarrow> list_all (\<lambda>i. \<not> BITMAP_TEST b i) [Suc start..<Suc (start + n)]"
  by (auto simp: run_free_def list_all_iff simp del: upt_Suc)

lemma pmm_alloc_next_fit:
  assumes "0 < unat pages" "last_used_index s \<le> highest_page_index s" "pmm_lock s = 0"
  shows "pmm_alloc pages s =
    map_option (\<lambda>page. (of_nat page * PAGE_SIZE,
                        (mark_run page (unat pages) s)\<lparr>used_pages := used_pages s + pages\<rparr>))
      (next_fit (unat pages) s)"
  using assms
  by (simp add: pmm_alloc_def alloc_first_fit_from_last_def alloc_scan_find next_fit_def Let_def
      mark_run_def split: option.split)

lemma next_fit_SomeD:
  assumes "next_fit n s = Some page" "last_used_index s \<le> highest_page_index s"
  shows "run_free (pmm_bitmap s) page n" "0 < n \<Longrightarrow> page + n \<le> highest_page_index s"
  using assms by (auto simp: next_fit_def find_Some_iff split: option.splits)

lemma BITMAP_TEST_mark_run [bitmap_simps]:
  "BITMAP_TEST (pmm_bitmap (mark_run page n s)) i \<longleftrightarrow>
     (page \<le> i \<and> i < page + n) \<or> BITMAP_TEST (pmm_bitmap s) i"
  by (auto simp: mark_run_def bitmap_simps)

lemma next_fit_first_page:
  assumes "last_used_index s \<le> k" "k < highest_page_index s"
    "\<And>i. last_used_index s < i \<Longrightarrow> i \<le> k \<Longrightarrow> BITMAP_TEST (pmm_bitmap s) i"
    "\<not> BITMAP_TEST (pmm_bitmap s) (Suc k)"
  shows "next_fit 1 s = Some k"
proof -
  have "find (\<lambda>q. run_free (pmm_bitmap s) q 1)
      [last_used_index s..<Suc (highest_page_index s) - 1] = Some k"
    using assms by (intro find_upt_first) (auto simp: run_free_def le_Suc_eq)
  then show ?thesis by (simp add: next_fit_def)
qed

section \<open>Frames taken in sequence\<close>

text \<open>Repeated allocation, as in the loops of \<^verbatim>\<open>vmm.c\<close> that call \<^verbatim>\<open>pmm_allocz(1)\<close> once per
  iteration.\<close>

fun take_frames :: "('s \<Rightarrow> (u64 \<times> 's) option) \<Rightarrow> nat \<Rightarrow> 's \<Rightarrow> (u64 list \<times> 's) option" where
  "take_frames tk 0 s = Some ([], s)"
| "take_frames tk (Suc n) s =
     (case tk s of
        None \<Rightarrow> None
      | Some (a, s') \<Rightarrow>
          (case take_frames tk n s' of None \<Rightarrow> None | Some (fs, s'') \<Rightarrow> Some (a # fs, s'')))"

text \<open>
  The interface a client of the allocator needs: while at least one frame is available, taking a
  frame succeeds, and the frame is page aligned, not null and different from every frame that can
  be handed out later.
\<close>

locale frame_source =
  fixes take_frame :: "'s \<Rightarrow> (u64 \<times> 's) option"
    and avail :: "nat \<Rightarrow> 's \<Rightarrow> bool"
    and later :: "'s \<Rightarrow> u64 set"
  assumes take_avail: "avail (Suc n) s \<Longrightarrow>
    \<exists>a s'. take_frame s = Some (a, s') \<and> avail n s' \<and> a \<in> later s \<and> a \<notin> later s' \<and> later s' \<subseteq> later s \<and>
      a \<noteq> 0 \<and> a AND 0xfff = 0"
begin

lemma take_many:
  "avail n s \<Longrightarrow>
   \<exists>fs s'. take_frames take_frame n s = Some (fs, s') \<and>
     length fs = n \<and> distinct fs \<and> set fs \<subseteq> later s \<and> 0 \<notin> set fs"
proof (induction n arbitrary: s)
  case 0
  then show ?case by simp
next
  case (Suc n)
  obtain a s' where a: "take_frame s = Some (a, s')" "avail n s'" "a \<in> later s" "a \<notin> later s'"
      "later s' \<subseteq> later s" "a \<noteq> 0"
    using take_avail [OF Suc.prems] by blast
  obtain fs s'' where fs: "take_frames take_frame n s' = Some (fs, s'')"
      "length fs = n" "distinct fs" "set fs \<subseteq> later s'" "0 \<notin> set fs"
    using Suc.IH [OF a(2)] by blast
  have "a \<notin> set fs" using a(4) fs(4) by blast
  then show ?case using a fs by auto
qed

end

text \<open>
  The allocator satisfies it while the pages from its cursor on are free: then it hands them out
  one after the other.
\<close>

definition fresh_frames :: "nat \<Rightarrow> pmm \<Rightarrow> bool" where
  "fresh_frames n s \<longleftrightarrow>
     pmm_lock s = 0 \<and> 0 < last_used_index s \<and> last_used_index s + n \<le> highest_page_index s \<and>
     highest_page_index s < 2 ^ 51 \<and>
     (\<forall>i. last_used_index s \<le> i \<and> i \<le> last_used_index s + n \<longrightarrow> \<not> BITMAP_TEST (pmm_bitmap s) i)"

definition frames_ahead :: "pmm \<Rightarrow> u64 set" where
  "frames_ahead s = {of_nat p * PAGE_SIZE | p. last_used_index s \<le> p \<and> p < 2 ^ 51}"

lemma unat_frame: "p < 2 ^ 52 \<Longrightarrow> unat (of_nat p * PAGE_SIZE) = p * 4096"
  by (simp add: PAGE_SIZE_def unat_word_ariths unat_of_nat)

lemma frame_inj: "p < 2 ^ 52 \<Longrightarrow> q < 2 ^ 52 \<Longrightarrow> of_nat p * PAGE_SIZE = of_nat q * PAGE_SIZE \<Longrightarrow> p = q"
  by (drule arg_cong [of _ _ unat]) (simp add: unat_frame)

lemma frame_aligned: "of_nat p * PAGE_SIZE AND 0xfff = 0"
proof -
  have "of_nat p * PAGE_SIZE = push_bit 12 (of_nat p :: u64)"
    by (simp add: PAGE_SIZE_def push_bit_eq_mult)
  moreover have "(0xfff :: u64) = mask 12" by (simp add: mask_eq_exp_minus_1)
  ultimately show ?thesis
    by (simp add: bit_eq_iff bit_simps)
qed

lemma pmm_alloc_fresh:
  assumes "fresh_frames (Suc n) s"
  shows "pmm_alloc 1 s =
      Some (of_nat (last_used_index s) * PAGE_SIZE,
            (mark_run (last_used_index s) 1 s)\<lparr>used_pages := used_pages s + 1\<rparr>)"
    and "fresh_frames n ((mark_run (last_used_index s) 1 s)\<lparr>used_pages := used_pages s + 1\<rparr>)"
proof -
  have "next_fit 1 s = Some (last_used_index s)"
    using assms by (intro next_fit_first_page) (auto simp: fresh_frames_def)
  then show "pmm_alloc 1 s =
      Some (of_nat (last_used_index s) * PAGE_SIZE,
            (mark_run (last_used_index s) 1 s)\<lparr>used_pages := used_pages s + 1\<rparr>)"
    using assms by (subst pmm_alloc_next_fit) (auto simp: fresh_frames_def)
  show "fresh_frames n ((mark_run (last_used_index s) 1 s)\<lparr>used_pages := used_pages s + 1\<rparr>)"
    using assms by (auto simp: fresh_frames_def mark_run_def bitmap_simps)
qed

lemma pmm_alloc_fresh_run:
  assumes "fresh_frames (k + n) s" "0 < k" "k < 2 ^ 64"
  defines "s' \<equiv> (mark_run (last_used_index s) k s)\<lparr>used_pages := used_pages s + of_nat k\<rparr>"
  shows "pmm_alloc (of_nat k) s = Some (of_nat (last_used_index s) * PAGE_SIZE, s')"
    and "fresh_frames n s'" "last_used_index s' = last_used_index s + k"
proof -
  have k: "unat (of_nat k :: u64) = k" using assms(3) by (rule unat_of_nat_u64)
  have "run_free (pmm_bitmap s) (last_used_index s) k"
    "last_used_index s + k \<le> highest_page_index s"
    using assms(1) by (auto simp: run_free_def fresh_frames_def)
  then have "find (\<lambda>q. run_free (pmm_bitmap s) q k) [last_used_index s..<Suc (highest_page_index s) - k] =
      Some (last_used_index s)"
    by (subst upt_conv_Cons) auto
  then have "next_fit k s = Some (last_used_index s)" by (simp add: next_fit_def)
  then show "pmm_alloc (of_nat k) s = Some (of_nat (last_used_index s) * PAGE_SIZE, s')"
    using assms(1,2) by (subst pmm_alloc_next_fit) (auto simp: fresh_frames_def s'_def k)
  show "fresh_frames n s'"
    using assms(1) by (auto simp: s'_def fresh_frames_def mark_run_def bitmap_simps)
  show "last_used_index s' = last_used_index s + k" by (simp add: s'_def mark_run_def)
qed

interpretation frames: frame_source "pmm_alloc 1" fresh_frames frames_ahead
proof
  fix n s
  assume fr: "fresh_frames (Suc n) s"
  let ?a = "of_nat (last_used_index s) * PAGE_SIZE"
  let ?s' = "(mark_run (last_used_index s) 1 s)\<lparr>used_pages := used_pages s + 1\<rparr>"
  have lim: "0 < last_used_index s" "last_used_index s < 2 ^ 51"
    using fr by (auto simp: fresh_frames_def)
  have "?a \<in> frames_ahead s" using lim by (auto simp: frames_ahead_def)
  moreover have "?a \<notin> frames_ahead ?s'"
  proof
    assume "?a \<in> frames_ahead ?s'"
    then obtain p where "?a = of_nat p * PAGE_SIZE" "Suc (last_used_index s) \<le> p" "p < 2 ^ 51"
      by (auto simp: frames_ahead_def mark_run_def)
    with frame_inj [of "last_used_index s" p] lim(2) show False by auto
  qed
  moreover have "frames_ahead ?s' \<subseteq> frames_ahead s" by (auto simp: frames_ahead_def mark_run_def)
  moreover have "?a \<noteq> 0"
    using lim unat_frame [of "last_used_index s"] by (auto simp: unat_eq_zero [symmetric])
  moreover have "?a AND 0xfff = 0" by (rule frame_aligned)
  ultimately show "\<exists>a s'. pmm_alloc 1 s = Some (a, s') \<and> fresh_frames n s' \<and> a \<in> frames_ahead s \<and>
      a \<notin> frames_ahead s' \<and> frames_ahead s' \<subseteq> frames_ahead s \<and> a \<noteq> 0 \<and> a AND 0xfff = 0"
    using pmm_alloc_fresh [OF fr] by auto
qed

section \<open>Start-up\<close>

lemma BITMAP_TEST_all_ones:
  "i < 8 * n \<Longrightarrow> BITMAP_TEST (\<lambda>k. if k < n then 0xff else g k) i"
proof -
  assume "i < 8 * n"
  then have "i div 8 < n" by auto
  moreover have "i mod 8 \<in> {0, 1, 2, 3, 4, 5, 6, 7}" by auto
  ultimately show ?thesis by (auto simp: BITMAP_TEST_def)
qed

text \<open>The pages of a page-aligned entry that does not reach the end of the address space.\<close>

definition entry_ok :: "memmap_entry \<Rightarrow> bool" where
  "entry_ok e \<longleftrightarrow> 4096 dvd unat (me_base e) \<and> 4096 dvd unat (me_length e) \<and>
     unat (me_base e) + unat (me_length e) < 2 ^ 64"

lemma set_entry_pages:
  assumes "entry_ok e" "me_type e = USABLE"
  shows "set (entry_pages e) =
    {i. unat (me_base e) \<le> i * 4096 \<and> i * 4096 < unat (me_base e) + unat (me_length e)}"
proof -
  obtain b l where b: "unat (me_base e) = 4096 * b" and l: "unat (me_length e) = 4096 * l"
    using assms(1) by (auto simp: entry_ok_def dvd_def)
  have lim: "4096 * b + 4096 * l < 2 ^ 64" using assms(1) b l by (simp add: entry_ok_def)
  have "unat ((me_base e + of_nat (k * 4096)) div PAGE_SIZE) = b + k" if "k < l" for k
  proof -
    have "unat (of_nat (k * 4096) :: u64) = k * 4096"
      using that lim by (intro unat_of_nat_u64) simp
    moreover have "unat (me_base e) + k * 4096 < 2 ^ 64" using that lim b by simp
    ultimately have "unat (me_base e + of_nat (k * 4096)) = 4096 * (b + k)"
      by (subst unat_add_lem [THEN iffD1]) (simp_all add: b)
    then show ?thesis by (simp add: unat_div)
  qed
  then have "set (entry_pages e) = (\<lambda>k. b + k) ` {0..<l}"
    using assms(2) l by (auto simp: entry_pages_def)
  also have "\<dots> = {i. 4096 * b \<le> i * 4096 \<and> i * 4096 < 4096 * b + 4096 * l}"
    by (auto simp: image_iff intro!: bexI [of _ "_ - b"])
  finally show ?thesis by (simp add: b l)
qed

lemma pmm_init_test:
  assumes "pmm_init entries garbage = Some s"
    "place_bitmap (pmm_bitmap_size (highest_page_index s)) entries = Some entries'"
    "i < 8 * unat (pmm_bitmap_size (highest_page_index s))"
  shows "BITMAP_TEST (pmm_bitmap s) i \<longleftrightarrow> i \<notin> (\<Union>e\<in>set entries'. set (entry_pages e))"
  using assms
  by (auto simp: pmm_init_def Let_def bitmap_simps BITMAP_TEST_all_ones
      split: prod.splits option.splits if_splits)

section \<open>Properties\<close>


definition pmm_sample :: pmm where
  "pmm_sample = \<lparr>pmm_bitmap = (\<lambda>i. if i = 0 then 0b00000011 else if i = 1 then 0 else 0xff),
     reserved_pages = 0, usable_pages = 16, pmm_lock = 0, used_pages = 0,
     last_used_index = 2, highest_page_index = 15\<rparr>"

lemma pmm_sample_free: "BITMAP_TEST (pmm_bitmap pmm_sample) i \<longleftrightarrow> i < 2 \<or> 16 \<le> i"
proof -
  consider "i < 8" | "8 \<le> i" "i < 16" | "16 \<le> i" by linarith
  then show ?thesis
  proof cases
    case 1
    then have "i \<in> {0, 1, 2, 3, 4, 5, 6, 7}" by auto
    then show ?thesis by (auto simp: pmm_sample_def BITMAP_TEST_def)
  next
    case 2
    then have "i div 8 = 1" by auto
    with 2 show ?thesis by (simp add: pmm_sample_def BITMAP_TEST_def)
  next
    case 3
    then have "1 < i div 8" by auto
    moreover have "i mod 8 \<in> {0, 1, 2, 3, 4, 5, 6, 7}" by auto
    ultimately show ?thesis using 3 by (auto simp: pmm_sample_def BITMAP_TEST_def)
  qed
qed

lemma pmm_sample_next_fit: "next_fit 3 pmm_sample = Some 2"
proof -
  have "run_free (pmm_bitmap pmm_sample) 2 3"
    by (auto simp: run_free_def pmm_sample_free)
  moreover have "last_used_index pmm_sample = 2" "highest_page_index pmm_sample = 15"
    by (simp_all add: pmm_sample_def)
  ultimately show ?thesis by (simp add: next_fit_def)
qed


text \<open>\<^verbatim>\<open>alloc_first_fit_from_last\<close> tests the pages one above those it returns. If every page
  after the cursor up to page \<open>k\<close> is in use and page \<open>k + 1\<close> is the first free one, a request for one
  page returns page \<open>k\<close>, which is already in use, and no bit of the bitmap changes.\<close>

theorem pmm_alloc_returns_used_page:
  assumes "pmm_lock s = 0" "last_used_index s \<le> k" "k < highest_page_index s"
    and "BITMAP_TEST (pmm_bitmap s) k" "\<not> BITMAP_TEST (pmm_bitmap s) (k + 1)"
    and "\<forall>i. last_used_index s < i \<and> i \<le> k \<longrightarrow> BITMAP_TEST (pmm_bitmap s) i"
  shows "\<exists>s'. pmm_alloc 1 s = Some (of_nat k * PAGE_SIZE, s') \<and>
    (\<forall>i. BITMAP_TEST (pmm_bitmap s') i = BITMAP_TEST (pmm_bitmap s) i)"
proof -
  have "next_fit 1 s = Some k"
    using assms by (intro next_fit_first_page) auto
  moreover have "(k \<le> i \<and> i < Suc k \<or> BITMAP_TEST (pmm_bitmap s) i) = BITMAP_TEST (pmm_bitmap s) i" for i
    using assms(4) by (auto simp: less_Suc_eq_le dest: le_antisym)
  ultimately show ?thesis
    using assms(1-3) by (subst pmm_alloc_next_fit) (auto simp: bitmap_simps)
qed

definition boot_entries :: "memmap_entry list" where
  "boot_entries =
     [\<lparr>me_base = 0, me_length = 0x1000, me_type = RESERVED\<rparr>,
      \<lparr>me_base = 0x1000, me_length = 0x9000, me_type = USABLE\<rparr>]"

lemma boot_state:
  "\<exists>s. pmm_init boot_entries (\<lambda>_. 0) = Some s \<and> pmm_lock s = 0 \<and> last_used_index s = 0 \<and>
    highest_page_index s = 10 \<and>
    (\<forall>i. i < 32768 \<longrightarrow> BITMAP_TEST (pmm_bitmap s) i = (\<not> (2 \<le> i \<and> i < 10)))"
proof -
  let ?es = "[\<lparr>me_base = 0, me_length = 0x1000, me_type = RESERVED\<rparr>,
      \<lparr>me_base = 0x2000, me_length = 0x8000, me_type = USABLE\<rparr>]"
  have size: "pmm_bitmap_size 10 = 0x1000"
    by (simp add: pmm_bitmap_size_def ALIGN_UP_def DIV_CEIL_def PAGE_SIZE_def)
  have place: "place_bitmap (pmm_bitmap_size 10) boot_entries = Some ?es"
    by (simp add: size boot_entries_def)
  obtain s where s: "pmm_init boot_entries (\<lambda>_. 0) = Some s" "pmm_lock s = 0" "last_used_index s = 0"
      "highest_page_index s = 10"
    using place
    by (auto simp: pmm_init_def memmap_scan_def boot_entries_def DIV_CEIL_def PAGE_SIZE_def)
  have "BITMAP_TEST (pmm_bitmap s) i \<longleftrightarrow> \<not> (2 \<le> i \<and> i < 10)" if "i < 32768" for i
  proof -
    have "BITMAP_TEST (pmm_bitmap s) i \<longleftrightarrow> i \<notin> (\<Union>e\<in>set ?es. set (entry_pages e))"
      using pmm_init_test [OF s(1)] place that s(4) by (simp add: size)
    also have "(\<Union>e\<in>set ?es. set (entry_pages e)) = {i. 2 \<le> i \<and> i < 10}"
    proof -
      have "set (entry_pages \<lparr>me_base = 0, me_length = 0x1000, me_type = RESERVED\<rparr>) = {}"
        by (simp add: entry_pages_def)
      moreover have "set (entry_pages \<lparr>me_base = 0x2000, me_length = 0x8000, me_type = USABLE\<rparr>) =
          {i. 2 \<le> i \<and> i < 10}"
        by (subst set_entry_pages) (auto simp: entry_ok_def)
      ultimately show ?thesis by simp
    qed
    finally show ?thesis by simp
  qed
  with s show ?thesis by blast
qed

theorem pmm_alloc_returns_used_page_witness:
  "\<exists>s s'. pmm_init boot_entries (\<lambda>_. 0) = Some s \<and> BITMAP_TEST (pmm_bitmap s) 1 \<and>
     pmm_alloc 1 s = Some (0x1000, s')"
proof -
  obtain s where s: "pmm_init boot_entries (\<lambda>_. 0) = Some s" "pmm_lock s = 0" "last_used_index s = 0"
    "highest_page_index s = 10" "\<forall>i. i < 32768 \<longrightarrow> BITMAP_TEST (pmm_bitmap s) i = (\<not> (2 \<le> i \<and> i < 10))"
    using boot_state by blast
  have "\<exists>s'. pmm_alloc 1 s = Some (of_nat 1 * PAGE_SIZE, s') \<and>
      (\<forall>i. BITMAP_TEST (pmm_bitmap s') i = BITMAP_TEST (pmm_bitmap s) i)"
    by (rule pmm_alloc_returns_used_page) (use s in auto)
  with s show ?thesis by (auto simp: PAGE_SIZE_def)
qed

text \<open>C8: while the pages from the cursor on are free (and page 0 is behind it), single-page
  allocations never fail and never repeat: \<open>n\<close> calls of \<^verbatim>\<open>pmm_alloc(1)\<close> return \<open>n\<close> different frames,
  none of them null and all of them at or above the cursor.\<close>

theorem pmm_alloc_distinct_frames:
  assumes "fresh_frames n s"
  shows "\<exists>fs s'. take_frames (pmm_alloc 1) n s = Some (fs, s') \<and> length fs = n \<and> distinct fs \<and>
    set fs \<subseteq> frames_ahead s \<and> 0 \<notin> set fs"
  by (rule frames.take_many [OF assms])

theorem pmm_alloc_distinct_frames_witness:
  "\<exists>fs s'. take_frames (pmm_alloc 1) 12 pmm_sample = Some (fs, s') \<and> length fs = 12 \<and> distinct fs \<and>
    set fs \<subseteq> frames_ahead pmm_sample \<and> 0 \<notin> set fs"
proof (rule pmm_alloc_distinct_frames)
  have "last_used_index pmm_sample = 2" "highest_page_index pmm_sample = 15" "pmm_lock pmm_sample = 0"
    by (simp_all add: pmm_sample_def)
  then show "fresh_frames 12 pmm_sample"
    by (auto simp: fresh_frames_def pmm_sample_free)
qed

text \<open>C9: \<^verbatim>\<open>pmm_free\<close> clears the bits of exactly the given pages, and so undoes \<^verbatim>\<open>pmm_alloc\<close> where
  the pages handed out were free before: the bitmap reads as it did.\<close>

theorem pmm_free_undoes_alloc:
  assumes "0 < unat pages" "last_used_index s \<le> highest_page_index s" "pmm_lock s = 0"
    "highest_page_index s < 2 ^ 52" "pmm_alloc pages s = Some (addr, s')"
    "\<not> BITMAP_TEST (pmm_bitmap s) (unat addr div 4096)"
  shows "\<exists>s''. pmm_free addr pages s' = Some s'' \<and> used_pages s'' = used_pages s \<and> pmm_lock s'' = 0 \<and>
    (\<forall>i. BITMAP_TEST (pmm_bitmap s'') i = BITMAP_TEST (pmm_bitmap s) i)"
proof -
  obtain page where page: "next_fit (unat pages) s = Some page" "addr = of_nat page * PAGE_SIZE"
      "s' = (mark_run page (unat pages) s)\<lparr>used_pages := used_pages s + pages\<rparr>"
    using assms(5) by (auto simp: pmm_alloc_next_fit [OF assms(1-3)])
  have run: "run_free (pmm_bitmap s) page (unat pages)" "page + unat pages \<le> highest_page_index s"
    using next_fit_SomeD [OF page(1) assms(2)] assms(1) by auto
  have addr: "unat addr = page * 4096"
    using run(2) assms(4) by (simp add: page(2) unat_frame)
  have before: "\<not> BITMAP_TEST (pmm_bitmap s) i" if "page \<le> i" "i < page + unat pages" for i
    using that run(1) assms(6) addr by (cases "i = page") (auto simp: run_free_def)
  have "(\<not> (page \<le> i \<and> i < page + unat pages) \<and>
      (page \<le> i \<and> i < page + unat pages \<or> BITMAP_TEST (pmm_bitmap s) i)) =
      BITMAP_TEST (pmm_bitmap s) i" for i
    using before [of i] by auto
  then show ?thesis
    using assms(3) addr
    by (auto simp: pmm_free_def page(3) mark_run_def bitmap_simps Let_def unat_div)
qed

theorem pmm_free_undoes_alloc_witness:
  "\<exists>s' s''. pmm_alloc 3 pmm_sample = Some (0x2000, s') \<and> pmm_free 0x2000 3 s' = Some s'' \<and>
     (\<forall>i. BITMAP_TEST (pmm_bitmap s'') i = BITMAP_TEST (pmm_bitmap pmm_sample) i)"
proof -
  have p: "last_used_index pmm_sample = 2" "highest_page_index pmm_sample = 15" "pmm_lock pmm_sample = 0"
    by (simp_all add: pmm_sample_def)
  then have "\<exists>s'. pmm_alloc 3 pmm_sample = Some (0x2000, s')"
    by (simp add: pmm_alloc_next_fit pmm_sample_next_fit PAGE_SIZE_def)
  then obtain s' where s': "pmm_alloc 3 pmm_sample = Some (0x2000, s')" by blast
  from pmm_free_undoes_alloc [OF _ _ _ _ s'] p s' show ?thesis
    by (auto simp: pmm_sample_free)
qed



end
