(* ===== verification/Vmm.thy ===== *)
theory Vmm
  imports Pmm "HOL-Library.Sublist"
begin

text \<open>
  Page tables: \<^verbatim>\<open>kernel/src/mem/vmm.c\<close>. Physical memory is seen as the pager sees it: at every
  page-aligned physical address there is an array of 512 entries of 64 bits, so \<open>vm_mem s t i\<close> is
  \<^verbatim>\<open>t[i]\<close> for the table at physical address \<open>t\<close> (the kernel dereferences \<^verbatim>\<open>t + HIGH_VMA\<close>; all
  table pointers it forms are page aligned). The state \<open>vm\<close> pairs this memory with the page allocator.

  A page map's lock is taken on entry and released on every exit of the operations below, so the
  \<open>pagemap\<close> argument is unchanged when they return; called with the lock held they do not return
  (\<open>None\<close>). Flushing a TLB entry (\<^verbatim>\<open>invlpg\<close>) and loading \<^verbatim>\<open>cr3\<close> change no memory and are left out.
\<close>

type_synonym physmem = "u64 \<Rightarrow> nat \<Rightarrow> u64"

record pagemap =
  top_level :: u64
  has_level5 :: bool
  pm_lock :: u64

record vm =
  vm_pmm :: pmm
  vm_mem :: physmem

definition PTE_PRESENT :: u64 where "PTE_PRESENT = push_bit 0 1"
definition PTE_WRITABLE :: u64 where "PTE_WRITABLE = push_bit 1 1"
definition PTE_USER :: u64 where "PTE_USER = push_bit 2 1"
definition PTE_CACHE_DISABLE :: u64 where "PTE_CACHE_DISABLE = push_bit 4 1"
definition PTE_SIZE :: u64 where "PTE_SIZE = push_bit 7 1"
definition PTE_GLOBAL :: u64 where "PTE_GLOBAL = push_bit 8 1"
definition PTE_NX :: u64 where "PTE_NX = push_bit 63 1"
definition PTE_FLAG_MASK :: u64 where "PTE_FLAG_MASK = 0x8000000000000fff"
definition MASKED_FLAGS :: u64 where "MASKED_FLAGS = NOT (PTE_SIZE OR PTE_GLOBAL OR PTE_NX)"

definition is_present :: "u64 \<Rightarrow> bool" where
  "is_present e \<longleftrightarrow> e AND PTE_PRESENT \<noteq> 0"

definition is_huge :: "u64 \<Rightarrow> bool" where
  "is_huge e \<longleftrightarrow> e AND PTE_SIZE \<noteq> 0"

definition table_of :: "u64 \<Rightarrow> u64" where
  "table_of e = e AND NOT PTE_FLAG_MASK"

definition pml_index :: "nat \<Rightarrow> u64 \<Rightarrow> nat" where
  "pml_index k vaddr = unat (drop_bit k (vaddr AND push_bit k 0x1ff))"

definition entries_to_vaddr :: "u64 \<Rightarrow> u64 \<Rightarrow> u64 \<Rightarrow> u64 \<Rightarrow> u64" where
  "entries_to_vaddr pml4_index pml3_index pml2_index pml1_index =
     0 OR push_bit 39 pml4_index OR push_bit 30 pml3_index OR push_bit 21 pml2_index OR
     push_bit 12 pml1_index"

definition set_entry :: "u64 \<Rightarrow> nat \<Rightarrow> u64 \<Rightarrow> physmem \<Rightarrow> physmem" where
  "set_entry t i v m = m(t := (m t)(i := v))"

text \<open>\<^verbatim>\<open>pmm_allocz\<close>: allocate pages and clear them.\<close>

definition zero_frames :: "u64 \<Rightarrow> nat \<Rightarrow> physmem \<Rightarrow> physmem" where
  "zero_frames a n m = fold (\<lambda>k m. m(a + of_nat k * PAGE_SIZE := (\<lambda>_. 0))) [0..<n] m"

definition pmm_allocz :: "u64 \<Rightarrow> 'a vm_scheme \<Rightarrow> (u64 \<times> 'a vm_scheme) option" where
  "pmm_allocz pages s = do {
     (ret, p) \<leftarrow> pmm_alloc pages (vm_pmm s);
     Some (ret, s\<lparr>vm_pmm := p, vm_mem := zero_frames ret (unat pages) (vm_mem s)\<rparr>)
   }"

text \<open>
  The indices of the levels above the second: the fifth level only with 5-level paging, then the
  fourth and the third. Every operation descends through them to the second-level table.
\<close>

definition upper_path :: "pagemap \<Rightarrow> u64 \<Rightarrow> nat list" where
  "upper_path pm vaddr =
     (if has_level5 pm then [pml_index 48 vaddr] else []) @ [pml_index 39 vaddr, pml_index 30 vaddr]"

text \<open>One level of \<^verbatim>\<open>vmm_map_page\<close>: a missing table is allocated; the entry is written twice, first
  with the bare frame address. False when the allocator returns address 0.\<close>

definition ensure_table :: "u64 \<Rightarrow> u64 \<Rightarrow> nat \<Rightarrow> 'a vm_scheme \<Rightarrow> (bool \<times> 'a vm_scheme) option" where
  "ensure_table flags t i s =
     (if is_present (vm_mem s t i) then Some (True, s)
      else do {
        (f, s) \<leftarrow> pmm_allocz 1 s;
        let s = s\<lparr>vm_mem := set_entry t i f (vm_mem s)\<rparr>;
        if vm_mem s t i = 0 then Some (False, s)
        else Some (True, s\<lparr>vm_mem := set_entry t i
                 (vm_mem s t i OR ((flags AND MASKED_FLAGS) OR PTE_WRITABLE)) (vm_mem s)\<rparr>)
      })"

fun walk_alloc :: "u64 \<Rightarrow> nat list \<Rightarrow> u64 \<Rightarrow> 'a vm_scheme \<Rightarrow> (u64 option \<times> 'a vm_scheme) option" where
  "walk_alloc flags [] t s = Some (Some t, s)"
| "walk_alloc flags (i # is) t s = do {
     (ok, s) \<leftarrow> ensure_table flags t i s;
     if ok then walk_alloc flags is (table_of (vm_mem s t i)) s else Some (None, s)
   }"

definition vmm_map_page :: "pagemap \<Rightarrow> u64 \<Rightarrow> u64 \<Rightarrow> u64 \<Rightarrow> 'a vm_scheme \<Rightarrow> (bool \<times> 'a vm_scheme) option" where
  "vmm_map_page pm vaddr paddr flags s = do {
     _ \<leftarrow> spinlock_acquire (pm_lock pm);
     (pml2, s) \<leftarrow> walk_alloc flags (upper_path pm vaddr) (top_level pm) s;
     case pml2 of
       None \<Rightarrow> Some (False, s)
     | Some pml2 \<Rightarrow>
         if is_huge flags then
           Some (True, s\<lparr>vm_mem := set_entry pml2 (pml_index 21 vaddr) (paddr OR flags) (vm_mem s)\<rparr>)
         else do {
           (pml1, s) \<leftarrow> walk_alloc flags [pml_index 21 vaddr] pml2 s;
           case pml1 of
             None \<Rightarrow> Some (False, s)
           | Some pml1 \<Rightarrow>
               Some (True, s\<lparr>vm_mem := set_entry pml1 (pml_index 12 vaddr) (paddr OR flags) (vm_mem s)\<rparr>)
         }
   }"

text \<open>The descent of the other operations stops (\<^verbatim>\<open>goto end\<close>) at the first absent table.\<close>

fun walk :: "physmem \<Rightarrow> nat list \<Rightarrow> u64 \<Rightarrow> u64 option" where
  "walk m [] t = Some t"
| "walk m (i # is) t = (if is_present (m t i) then walk m is (table_of (m t i)) else None)"

definition vmm_unmap_page :: "pagemap \<Rightarrow> u64 \<Rightarrow> 'a vm_scheme \<Rightarrow> (bool \<times> 'a vm_scheme) option" where
  "vmm_unmap_page pm vaddr s = do {
     _ \<leftarrow> spinlock_acquire (pm_lock pm);
     let m = vm_mem s;
     case walk m (upper_path pm vaddr) (top_level pm) of
       None \<Rightarrow> Some (False, s)
     | Some pml2 \<Rightarrow>
         let i2 = pml_index 21 vaddr in
         if is_huge (m pml2 i2) then Some (True, s\<lparr>vm_mem := set_entry pml2 i2 0 m\<rparr>)
         else if \<not> is_present (m pml2 i2) then Some (False, s)
         else Some (True, s\<lparr>vm_mem := set_entry (table_of (m pml2 i2)) (pml_index 12 vaddr) 0 m\<rparr>)
   }"

definition vmm_update_flags :: "pagemap \<Rightarrow> u64 \<Rightarrow> u64 \<Rightarrow> 'a vm_scheme \<Rightarrow> (bool \<times> 'a vm_scheme) option" where
  "vmm_update_flags pm vaddr flags s = do {
     _ \<leftarrow> spinlock_acquire (pm_lock pm);
     let m = vm_mem s;
     case walk m (upper_path pm vaddr) (top_level pm) of
       None \<Rightarrow> Some (False, s)
     | Some pml2 \<Rightarrow>
         let i2 = pml_index 21 vaddr in
         if is_huge (m pml2 i2) then
           Some (True, s\<lparr>vm_mem := set_entry pml2 i2 ((m pml2 i2 AND NOT PTE_FLAG_MASK) OR flags) m\<rparr>)
         else if \<not> is_present (m pml2 i2) then Some (False, s)
         else
           let pml1 = table_of (m pml2 i2); i1 = pml_index 12 vaddr in
           Some (True, s\<lparr>vm_mem := set_entry pml1 i1 ((m pml1 i1 AND NOT PTE_FLAG_MASK) OR flags) m\<rparr>)
   }"

definition vmm_get_page_mapping :: "pagemap \<Rightarrow> u64 \<Rightarrow> 'a vm_scheme \<Rightarrow> u64 option" where
  "vmm_get_page_mapping pm vaddr s = do {
     _ \<leftarrow> spinlock_acquire (pm_lock pm);
     let m = vm_mem s;
     case walk m (upper_path pm vaddr) (top_level pm) of
       None \<Rightarrow> Some (-1)
     | Some pml2 \<Rightarrow>
         let i2 = pml_index 21 vaddr in
         if is_huge (m pml2 i2) then Some (m pml2 i2)
         else if \<not> is_present (m pml2 i2) then Some (-1)
         else
           let e = m (table_of (m pml2 i2)) (pml_index 12 vaddr) in
           Some (if is_present e then e else -1)
   }"

section \<open>Flag bits\<close>

lemmas pte_defs = PTE_PRESENT_def PTE_WRITABLE_def PTE_USER_def PTE_SIZE_def PTE_GLOBAL_def PTE_NX_def

lemma is_present_bit: "is_present e \<longleftrightarrow> bit e 0"
  using and_exp_eq_0_iff_not_bit [of e 0] by (simp add: is_present_def PTE_PRESENT_def)

lemma is_huge_bit: "is_huge e \<longleftrightarrow> bit e 7"
  using and_exp_eq_0_iff_not_bit [of e 7] by (simp add: is_huge_def PTE_SIZE_def)

lemma is_present_0 [simp]: "\<not> is_present 0"
  by (simp add: is_present_bit)

lemma is_huge_0 [simp]: "\<not> is_huge 0"
  by (simp add: is_huge_bit)

lemma bit_PTE_FLAG_MASK: "bit PTE_FLAG_MASK n \<longleftrightarrow> n < 12 \<or> n = 63"
proof -
  have eq: "PTE_FLAG_MASK = 2 ^ 63 OR mask 12"
    by (simp add: PTE_FLAG_MASK_def mask_eq_exp_minus_1)
  show ?thesis
    by (simp only: eq bit_or_iff bit_one_shifted bit_mask_iff) auto
qed

lemma bit_MASKED_FLAGS: "bit MASKED_FLAGS n \<longleftrightarrow> n < 64 \<and> n \<notin> {7, 8, 63}"
proof -
  have eq: "MASKED_FLAGS = NOT (2 ^ 7 OR 2 ^ 8 OR 2 ^ 63)"
    by (simp add: MASKED_FLAGS_def pte_defs)
  show ?thesis
    by (simp only: eq bit_not_iff bit_or_iff bit_one_shifted) auto
qed

lemma bit_PTE_WRITABLE: "bit PTE_WRITABLE n \<longleftrightarrow> n = 1"
  using bit_one_shifted [of 1 n, where 'a = 64] by (auto simp: PTE_WRITABLE_def)

text \<open>The entry the code writes for a new table at the page-aligned frame \<open>f\<close>.\<close>

definition table_entry :: "u64 \<Rightarrow> u64 \<Rightarrow> u64" where
  "table_entry flags f = f OR ((flags AND MASKED_FLAGS) OR PTE_WRITABLE)"

lemma aligned_bits: "f AND 0xfff = 0 \<Longrightarrow> n < 12 \<Longrightarrow> \<not> bit (f :: u64) n"
proof -
  assume f: "f AND 0xfff = 0" and n: "n < 12"
  have "f AND mask 12 = 0" using f by (simp add: mask_eq_exp_minus_1)
  then have "\<not> bit (f AND mask 12) n" by simp
  with n show ?thesis by (simp only: bit_and_iff bit_mask_iff) simp
qed

lemma table_entry_huge: "f AND 0xfff = 0 \<Longrightarrow> \<not> is_huge (table_entry flags f)"
  by (auto simp: is_huge_bit table_entry_def bit_or_iff bit_and_iff bit_MASKED_FLAGS
      PTE_WRITABLE_def bit_one_shifted aligned_bits)

lemma table_entry_present: "is_present flags \<Longrightarrow> is_present (table_entry flags f)"
  by (auto simp: is_present_bit table_entry_def bit_or_iff bit_and_iff bit_MASKED_FLAGS)

text \<open>Flags that only use the bits the processor defines for them do not disturb an address.\<close>

lemma table_of_or_flags:
  assumes "a AND PTE_FLAG_MASK = 0" "flags AND NOT PTE_FLAG_MASK = 0"
  shows "table_of (a OR flags) = a"
proof -
  have "bit (table_of (a OR flags)) n = bit a n" if "n < 64" for n
  proof -
    have "bit (a AND PTE_FLAG_MASK) n = False" "bit (flags AND NOT PTE_FLAG_MASK) n = False"
      using assms by simp_all
    then show ?thesis using that by (auto simp: table_of_def bit_simps)
  qed
  then show ?thesis by (auto intro: bit_word_eqI)
qed

text \<open>Frames the allocator can return lie below bit 63.\<close>

lemma frame_flag_bits:
  assumes "p < 2 ^ 51"
  shows "(of_nat p * PAGE_SIZE) AND PTE_FLAG_MASK = 0"
proof -
  have "unat (of_nat p * PAGE_SIZE) < 2 ^ 63"
    using assms by (subst unat_frame) auto
  then have "\<not> bit (unat (of_nat p * PAGE_SIZE)) 63"
    by (simp add: bit_iff_odd)
  then have "\<not> bit (of_nat p * PAGE_SIZE :: u64) 63"
    by (simp add: bit_unsigned_iff)
  with aligned_bits [OF frame_aligned] show ?thesis
    by (auto intro!: bit_word_eqI simp: bit_and_iff bit_PTE_FLAG_MASK)
qed

lemma frames_ahead_flag_bits: "f \<in> frames_ahead p \<Longrightarrow> f AND PTE_FLAG_MASK = 0"
  by (auto simp: frames_ahead_def frame_flag_bits)

lemma table_of_table_entry:
  assumes "f AND PTE_FLAG_MASK = 0" "flags AND NOT PTE_FLAG_MASK = 0"
  shows "table_of (table_entry flags f) = f"
  unfolding table_entry_def
proof (rule table_of_or_flags [OF assms(1)])
  have "\<not> bit (((flags AND MASKED_FLAGS) OR PTE_WRITABLE) AND NOT PTE_FLAG_MASK) n" for n
  proof -
    have "\<not> bit (flags AND NOT PTE_FLAG_MASK) n" using assms(2) by simp
    then show ?thesis
      by (auto simp: bit_and_iff bit_or_iff bit_not_iff bit_PTE_FLAG_MASK bit_PTE_WRITABLE)
  qed
  then show "((flags AND MASKED_FLAGS) OR PTE_WRITABLE) AND NOT PTE_FLAG_MASK = 0"
    by (auto intro: bit_word_eqI)
qed

section \<open>The tree of tables\<close>

text \<open>
  The table reached from \<open>t\<close> along a list of indices. An entry leads on if it is present and not a
  large page.
\<close>

definition child :: "physmem \<Rightarrow> u64 \<Rightarrow> nat \<Rightarrow> u64 option" where
  "child m t i = (if is_present (m t i) \<and> \<not> is_huge (m t i) then Some (table_of (m t i)) else None)"

fun ptbl :: "physmem \<Rightarrow> u64 \<Rightarrow> nat list \<Rightarrow> u64 option" where
  "ptbl m t [] = Some t"
| "ptbl m t (i # is) = (case child m t i of None \<Rightarrow> None | Some t' \<Rightarrow> ptbl m t' is)"

definition path_ok :: "nat list \<Rightarrow> bool" where
  "path_ok p \<longleftrightarrow> (\<forall>i\<in>set p. i < 512)"

text \<open>
  A page map whose first-level tables lie \<open>d\<close> steps below the root is well-formed if no table is
  reached along two paths and only second-level tables hold large pages. \<open>pt_apart\<close> says that none of
  its tables is a frame the allocator may still hand out.
\<close>

definition pt_wf :: "nat \<Rightarrow> physmem \<Rightarrow> u64 \<Rightarrow> bool" where
  "pt_wf d m root \<longleftrightarrow>
     (\<forall>p q t. length p \<le> d \<and> length q \<le> d \<and> path_ok p \<and> path_ok q \<and>
        ptbl m root p = Some t \<and> ptbl m root q = Some t \<longrightarrow> p = q) \<and>
     (\<forall>p t i. Suc (length p) < d \<and> path_ok p \<and> ptbl m root p = Some t \<and> i < 512 \<longrightarrow>
        \<not> is_huge (m t i))"

definition pt_apart :: "nat \<Rightarrow> physmem \<Rightarrow> u64 \<Rightarrow> u64 set \<Rightarrow> bool" where
  "pt_apart d m root F \<longleftrightarrow>
     (\<forall>p t. length p \<le> d \<and> path_ok p \<and> ptbl m root p = Some t \<longrightarrow> t \<notin> F)"

text \<open>The entry at the end of a path, 0 if a table on the way is missing. This is the abstract page
  map: a function from index paths to entries.\<close>

definition pte :: "physmem \<Rightarrow> u64 \<Rightarrow> nat list \<Rightarrow> nat \<Rightarrow> u64" where
  "pte m root p i = (case ptbl m root p of None \<Rightarrow> 0 | Some t \<Rightarrow> m t i)"

lemma ptbl_snoc:
  "ptbl m t (p @ [i]) = (case ptbl m t p of None \<Rightarrow> None | Some t' \<Rightarrow> child m t' i)"
  by (induction p arbitrary: t) (auto split: option.split)

lemma path_ok_simps [simp]:
  "path_ok []" "path_ok (i # p) \<longleftrightarrow> i < 512 \<and> path_ok p" "path_ok (p @ q) \<longleftrightarrow> path_ok p \<and> path_ok q"
  by (auto simp: path_ok_def)

lemma pt_wf_inj:
  "pt_wf d m root \<Longrightarrow> length p \<le> d \<Longrightarrow> length q \<le> d \<Longrightarrow> path_ok p \<Longrightarrow> path_ok q \<Longrightarrow>
   ptbl m root p = Some t \<Longrightarrow> ptbl m root q = Some t \<Longrightarrow> p = q"
  by (auto simp: pt_wf_def)

lemma pt_wf_not_huge:
  "pt_wf d m root \<Longrightarrow> Suc (length p) < d \<Longrightarrow> path_ok p \<Longrightarrow> ptbl m root p = Some t \<Longrightarrow> i < 512 \<Longrightarrow>
   \<not> is_huge (m t i)"
  unfolding pt_wf_def by blast

lemma pt_apartD:
  "pt_apart d m root F \<Longrightarrow> ptbl m root p = Some t \<Longrightarrow> length p \<le> d \<Longrightarrow> path_ok p \<Longrightarrow> t \<notin> F"
  unfolding pt_apart_def by blast

text \<open>
  Changing an entry of a first-level table moves no table, nor does changing an entry of a
  second-level table that leads nowhere before and after (absent or a large page).
\<close>

definition leads_nowhere :: "u64 \<Rightarrow> bool" where
  "leads_nowhere e \<longleftrightarrow> \<not> is_present e \<or> is_huge e"

definition leaf_change :: "nat \<Rightarrow> nat list \<Rightarrow> u64 \<Rightarrow> u64 \<Rightarrow> bool" where
  "leaf_change d p e v \<longleftrightarrow>
     length p = d \<or> Suc (length p) = d \<and> leads_nowhere e \<and> leads_nowhere v"

lemma ptbl_set_leaf:
  assumes wf: "pt_wf d m root" and p: "ptbl m root p = Some t" "leaf_change d p (m t i) v" "path_ok p"
    and q: "length q \<le> d" "path_ok q"
  shows "ptbl (set_entry t i v m) root q = ptbl m root q"
  using q
proof (induction q rule: rev_induct)
  case Nil
  then show ?case by simp
next
  case (snoc j q)
  have "child (set_entry t i v m) t' j = child m t' j" if "ptbl m root q = Some t'" for t'
  proof (cases "t' = t")
    case True
    then have "q = p"
      using pt_wf_inj [OF wf, of q p t] snoc.prems p that by (auto simp: leaf_change_def)
    then have "leads_nowhere (m t i)" "leads_nowhere v"
      using p(2) snoc.prems by (auto simp: leaf_change_def)
    then show ?thesis using True by (auto simp: child_def set_entry_def leads_nowhere_def)
  qed (simp add: child_def set_entry_def)
  with snoc show ?case by (auto simp: ptbl_snoc split: option.split)
qed

lemma pt_wf_set_leaf:
  assumes wf: "pt_wf d m root" and p: "ptbl m root p = Some t" "leaf_change d p (m t i) v" "path_ok p"
  shows "pt_wf d (set_entry t i v m) root"
    and "pt_apart d m root F \<Longrightarrow> pt_apart d (set_entry t i v m) root F"
    and "path_ok q \<Longrightarrow> length q \<le> d \<Longrightarrow>
      pte (set_entry t i v m) root q j = (if q = p \<and> j = i then v else pte m root q j)"
proof -
  let ?m = "set_entry t i v m"
  have len: "length p \<le> d" "d \<le> Suc (length p)" using p(2) by (auto simp: leaf_change_def)
  have same: "ptbl ?m root q = ptbl m root q" if "length q \<le> d" "path_ok q" for q
    by (rule ptbl_set_leaf [OF wf p that])
  have other: "t' \<noteq> t" if "ptbl m root q = Some t'" "length q \<le> d" "path_ok q" "q \<noteq> p" for q t'
    using pt_wf_inj [OF wf, of q p t] that p(1,3) len by auto
  show "pt_wf d ?m root"
    unfolding pt_wf_def
  proof (intro conjI allI impI)
    show "\<not> is_huge (?m t' j)"
      if "Suc (length q) < d \<and> path_ok q \<and> ptbl ?m root q = Some t' \<and> j < 512" for q t' j
    proof -
      have q: "ptbl m root q = Some t'" using that same [of q] by auto
      moreover have "q \<noteq> p" using that len by auto
      ultimately have "t' \<noteq> t" using other [of q t'] that by simp
      then show ?thesis using wf q that by (auto simp: pt_wf_def set_entry_def)
    qed
  qed (auto intro: pt_wf_inj [OF wf] simp: same)
  show "pt_apart d ?m root F" if "pt_apart d m root F"
    using that by (auto simp: pt_apart_def same)
  have pte: "pte ?m root q j = (case ptbl m root q of None \<Rightarrow> 0 | Some u \<Rightarrow> ?m u j)"
    if "length q \<le> d" "path_ok q" for q
    using that by (simp add: pte_def same)
  show "pte ?m root q j = (if q = p \<and> j = i then v else pte m root q j)" if "path_ok q" "length q \<le> d"
    using that p other [of q] by (subst pte) (auto simp: pte_def set_entry_def split: option.split)
qed

text \<open>Hanging a cleared frame below an absent entry changes one entry and adds one table.\<close>

lemma ptbl_absent_None:
  assumes "ptbl m root p = Some t" "\<not> is_present (m t i)" "prefix (p @ [i]) q"
  shows "ptbl m root q = None"
proof -
  have "ptbl m root (p @ [i] @ q') = None" for q'
    using assms(1,2) by (induction p arbitrary: root) (auto simp: child_def split: option.splits)
  then show ?thesis using assms(3) by (auto simp: prefix_def)
qed

lemma ptbl_new_table:
  assumes wf: "pt_wf d m root" and apart: "pt_apart d m root F" and f: "f \<in> F"
    and p: "ptbl m root p = Some t" "length p < d" "path_ok p" "i < 512"
    and e: "table_of e = f" "is_present e" "\<not> is_huge e"
    and q: "length q \<le> d" "path_ok q"
  defines "m' \<equiv> set_entry t i e (m(f := (\<lambda>_. 0)))"
  shows "ptbl m' root q =
    (if q = p @ [i] then Some f else if prefix (p @ [i]) q then None else ptbl m root q)"
  using q
proof (induction q rule: rev_induct)
  case Nil
  then show ?case by simp
next
  case (snoc j q)
  have tf: "t \<noteq> f" using pt_apartD [OF apart p(1)] p f by auto
  have IH: "ptbl m' root q = (if q = p @ [i] then Some f else if prefix (p @ [i]) q then None else ptbl m root q)"
    by (rule snoc.IH) (use snoc.prems in auto)
  show ?case
  proof (cases "prefix (p @ [i]) q")
    case True
    moreover have "q @ [j] \<noteq> p @ [i]" using prefix_length_le [OF True] by auto
    moreover have "child m' f j = None" using tf by (simp add: child_def m'_def set_entry_def)
    ultimately show ?thesis by (auto simp: ptbl_snoc IH)
  next
    case False
    then have q: "ptbl m' root q = ptbl m root q" using IH by auto
    have "child m' t' j = (if q = p \<and> j = i then Some f else child m t' j)"
      if t': "ptbl m root q = Some t'" for t'
    proof (cases "q = p")
      case True
      then show ?thesis using p(1) t' tf e by (simp add: child_def m'_def set_entry_def)
    next
      case False
      then have "t' \<noteq> t" "t' \<noteq> f"
        using pt_wf_inj [OF wf, of q p t] pt_apartD [OF apart t'] f snoc.prems p t' by auto
      then show ?thesis using False by (simp add: child_def m'_def set_entry_def)
    qed
    then show ?thesis using False p(1) by (auto simp: ptbl_snoc q split: option.split)
  qed
qed

lemma pt_wf_new_table:
  assumes wf: "pt_wf d m root" and apart: "pt_apart d m root F" and f: "f \<in> F"
    and p: "ptbl m root p = Some t" "length p < d" "path_ok p" "i < 512" "\<not> is_present (m t i)"
    and e: "table_of e = f" "is_present e" "\<not> is_huge e"
  defines "m' \<equiv> set_entry t i e (m(f := (\<lambda>_. 0)))"
  shows "pt_wf d m' root"
    and "F' \<subseteq> F \<Longrightarrow> f \<notin> F' \<Longrightarrow> pt_apart d m' root F'"
    and "path_ok q \<Longrightarrow> length q \<le> d \<Longrightarrow> pte m' root q j = (if q = p \<and> j = i then e else pte m root q j)"
    and "ptbl m' root (p @ [i]) = Some f"
proof -
  have tbl: "ptbl m' root q =
      (if q = p @ [i] then Some f else if prefix (p @ [i]) q then None else ptbl m root q)"
    if "length q \<le> d" "path_ok q" for q
    unfolding m'_def by (rule ptbl_new_table [OF wf apart f p(1-4) e that])
  have old: "t' \<noteq> f" if "ptbl m root q = Some t'" "length q \<le> d" "path_ok q" for q t'
    using pt_apartD [OF apart that] f by auto
  have tf: "t \<noteq> f" using old [OF p(1)] p by simp
  have entry: "m' t' j = (if t' = t \<and> j = i then e else if t' = f then 0 else m t' j)" for t' j
    using tf by (auto simp: m'_def set_entry_def)
  show "pt_wf d m' root"
    unfolding pt_wf_def
  proof (intro conjI allI impI)
    show "q = r" if h: "length q \<le> d \<and> length r \<le> d \<and> path_ok q \<and> path_ok r \<and>
      ptbl m' root q = Some u \<and> ptbl m' root r = Some u" for q r u
    proof (cases "u = f")
      case True
      then show ?thesis using h old [of q f] old [of r f] by (auto simp: tbl split: if_splits)
    next
      case False
      then show ?thesis using h pt_wf_inj [OF wf, of q r u] by (auto simp: tbl split: if_splits)
    qed
    show "\<not> is_huge (m' u j)"
      if h: "Suc (length q) < d \<and> path_ok q \<and> ptbl m' root q = Some u \<and> j < 512" for q u j
    proof -
      have "ptbl m root q = Some u" if "u \<noteq> f" using that h by (auto simp: tbl split: if_splits)
      then show ?thesis using pt_wf_not_huge [OF wf, of q u j] h e(3) by (simp add: entry)
    qed
  qed
  show "pt_apart d m' root F'" if "F' \<subseteq> F" "f \<notin> F'"
    unfolding pt_apart_def
  proof (intro allI impI)
    fix q u
    assume "length q \<le> d \<and> path_ok q \<and> ptbl m' root q = Some u"
    then show "u \<notin> F'" using pt_apartD [OF apart, of q u] that by (auto simp: tbl split: if_splits)
  qed
  show "ptbl m' root (p @ [i]) = Some f" using tbl [of "p @ [i]"] p by simp
  show "pte m' root q j = (if q = p \<and> j = i then e else pte m root q j)" if q: "path_ok q" "length q \<le> d"
  proof (cases "prefix (p @ [i]) q")
    case True
    moreover have "q \<noteq> p" using prefix_length_le [OF True] by auto
    ultimately show ?thesis
      using ptbl_absent_None [OF p(1,5) True] tf by (auto simp: pte_def tbl q entry)
  next
    case False
    have "t' \<noteq> t" if "ptbl m root q = Some t'" "q \<noteq> p" for t'
      using pt_wf_inj [OF wf, of q p t] that q p by auto
    then show ?thesis
      using False p(1) old [OF _ q(2,1)] by (auto simp: pte_def tbl q entry split: option.split)
  qed
qed

section \<open>The operations on the tree\<close>

definition pm_depth :: "pagemap \<Rightarrow> nat" where
  "pm_depth pm = (if has_level5 pm then 4 else 3)"

text \<open>The invariant of a page map and the allocator it takes its tables from, with \<open>n\<close> frames at hand.\<close>

definition map_ok :: "nat \<Rightarrow> pagemap \<Rightarrow> 'a vm_scheme \<Rightarrow> bool" where
  "map_ok n pm s \<longleftrightarrow>
     pm_lock pm = 0 \<and> pt_wf (pm_depth pm) (vm_mem s) (top_level pm) \<and>
     pt_apart (pm_depth pm) (vm_mem s) (top_level pm) (frames_ahead (vm_pmm s)) \<and>
     fresh_frames n (vm_pmm s)"

abbreviation entry_at :: "pagemap \<Rightarrow> 'a vm_scheme \<Rightarrow> nat list \<Rightarrow> nat \<Rightarrow> u64" where
  "entry_at pm s \<equiv> pte (vm_mem s) (top_level pm)"

text \<open>Flags as the callers pass them: present, no large page, no address bits.\<close>

definition table_flags :: "u64 \<Rightarrow> bool" where
  "table_flags flags \<longleftrightarrow> is_present flags \<and> flags AND NOT PTE_FLAG_MASK = 0"

lemma fresh_frames_mono: "fresh_frames n s \<Longrightarrow> k \<le> n \<Longrightarrow> fresh_frames k s"
  by (auto simp: fresh_frames_def)

lemma map_ok_mono: "map_ok n pm s \<Longrightarrow> k \<le> n \<Longrightarrow> map_ok k pm s"
  by (auto simp: map_ok_def intro: fresh_frames_mono)

lemma pmm_allocz_one:
  assumes "fresh_frames (Suc n) (vm_pmm s)"
  shows "\<exists>f p. pmm_allocz 1 s = Some (f, s\<lparr>vm_pmm := p, vm_mem := (vm_mem s)(f := (\<lambda>_. 0))\<rparr>) \<and>
    fresh_frames n p \<and> f \<in> frames_ahead (vm_pmm s) \<and> f \<notin> frames_ahead p \<and>
    frames_ahead p \<subseteq> frames_ahead (vm_pmm s) \<and> f \<noteq> 0 \<and> f AND 0xfff = 0"
  using frames.take_avail [OF assms] by (force simp: pmm_allocz_def zero_frames_def)

lemma ensure_table_ok:
  assumes ok: "map_ok (Suc n) pm s" and fl: "table_flags flags"
    and p: "ptbl (vm_mem s) (top_level pm) p = Some t" "length p < pm_depth pm" "path_ok p" "i < 512"
    and nh: "\<not> is_huge (vm_mem s t i)"
  shows "\<exists>s'. ensure_table flags t i s = Some (True, s') \<and> map_ok n pm s' \<and>
    ptbl (vm_mem s') (top_level pm) (p @ [i]) = Some (table_of (vm_mem s' t i)) \<and>
    (\<forall>q j. path_ok q \<and> length q \<le> pm_depth pm \<and> q @ [j] \<noteq> p @ [i] \<longrightarrow>
       entry_at pm s' q j = entry_at pm s q j)"
proof (cases "is_present (vm_mem s t i)")
  case True
  then have "child (vm_mem s) t i = Some (table_of (vm_mem s t i))"
    using nh by (simp add: child_def)
  then show ?thesis
    using True p map_ok_mono [OF ok, of n] by (simp add: ensure_table_def ptbl_snoc)
next
  case False
  note wf = ok [unfolded map_ok_def]
  obtain f ap where f: "pmm_allocz 1 s = Some (f, s\<lparr>vm_pmm := ap, vm_mem := (vm_mem s)(f := (\<lambda>_. 0))\<rparr>)"
      "fresh_frames n ap" "f \<in> frames_ahead (vm_pmm s)" "f \<notin> frames_ahead ap"
      "frames_ahead ap \<subseteq> frames_ahead (vm_pmm s)" "f \<noteq> 0" "f AND 0xfff = 0"
    using pmm_allocz_one wf by blast
  define e where "e = table_entry flags f"
  have e: "table_of e = f" "is_present e" "\<not> is_huge e"
    unfolding e_def using fl f frames_ahead_flag_bits [OF f(3)]
    by (auto simp: table_flags_def intro!: table_of_table_entry table_entry_present table_entry_huge)
  have tf: "t \<noteq> f" using pt_apartD wf p f(3) by (metis less_imp_le)
  define m' where "m' = set_entry t i e ((vm_mem s)(f := (\<lambda>_. 0)))"
  have "ensure_table flags t i s = Some (True, s\<lparr>vm_pmm := ap, vm_mem := m'\<rparr>)"
    using False f tf by (simp add: ensure_table_def e_def table_entry_def set_entry_def m'_def)
  moreover have "m' t i = e" by (simp add: m'_def set_entry_def)
  moreover note pt_wf_new_table [OF _ _ f(3) p False e, folded m'_def]
  ultimately show ?thesis
    using wf f e by (auto simp: map_ok_def)
qed

lemma walk_alloc_ok:
  assumes "map_ok (length is + n) pm s" "table_flags flags"
    and "ptbl (vm_mem s) (top_level pm) p = Some t" "length p + length is \<le> pm_depth pm"
    and "path_ok (p @ is)"
    and "\<And>q j. prefix (q @ [j]) (p @ is) \<Longrightarrow> \<not> is_huge (entry_at pm s q j)"
  shows "\<exists>s' t'. walk_alloc flags is t s = Some (Some t', s') \<and> map_ok n pm s' \<and>
    ptbl (vm_mem s') (top_level pm) (p @ is) = Some t' \<and>
    (\<forall>q j. path_ok q \<and> length q \<le> pm_depth pm \<and> \<not> prefix (q @ [j]) (p @ is) \<longrightarrow>
       entry_at pm s' q j = entry_at pm s q j)"
  using assms
proof (induction "is" arbitrary: p t s)
  case Nil
  then show ?case by simp
next
  case (Cons i "is")
  have "\<not> is_huge (vm_mem s t i)"
    using Cons.prems(6) [of p i] Cons.prems(3) by (simp add: pte_def)
  then obtain s1 where s1: "ensure_table flags t i s = Some (True, s1)" "map_ok (length is + n) pm s1"
      "ptbl (vm_mem s1) (top_level pm) (p @ [i]) = Some (table_of (vm_mem s1 t i))"
      "\<forall>q j. path_ok q \<and> length q \<le> pm_depth pm \<and> q @ [j] \<noteq> p @ [i] \<longrightarrow>
         entry_at pm s1 q j = entry_at pm s q j"
    using ensure_table_ok [OF _ Cons.prems(2,3), of "length is + n" i] Cons.prems by auto
  have nh: "\<not> is_huge (entry_at pm s1 q j)" if q: "prefix (q @ [j]) ((p @ [i]) @ is)" for q j
  proof (cases "q @ [j] = p @ [i]")
    case True
    have "ptbl (vm_mem s1) (top_level pm) (q @ [j]) \<noteq> None" using True s1(3) by simp
    then show ?thesis by (auto simp: ptbl_snoc child_def pte_def split: option.splits if_splits)
  next
    case False
    have "path_ok q" "length q \<le> pm_depth pm"
      using prefix_length_le [OF q] set_mono_prefix [OF q] Cons.prems(4,5) by (auto simp: path_ok_def)
    then show ?thesis using False s1(4) Cons.prems(6) [of q j] q by simp
  qed
  obtain s' t' where s': "walk_alloc flags is (table_of (vm_mem s1 t i)) s1 = Some (Some t', s')"
      "map_ok n pm s'" "ptbl (vm_mem s') (top_level pm) ((p @ [i]) @ is) = Some t'"
      "\<forall>q j. path_ok q \<and> length q \<le> pm_depth pm \<and> \<not> prefix (q @ [j]) ((p @ [i]) @ is) \<longrightarrow>
         entry_at pm s' q j = entry_at pm s1 q j"
    using Cons.IH [OF s1(2) Cons.prems(2) s1(3) _ _ nh] Cons.prems(4,5) by auto
  have "q @ [j] \<noteq> p @ [i]" if "\<not> prefix (q @ [j]) (p @ i # is)" for q j
    using that by auto
  then show ?case using s1(1,4) s' by fastforce
qed

lemma walk_alloc_append:
  "walk_alloc flags (is @ js) t s =
     (do { (r, s) \<leftarrow> walk_alloc flags is t s;
           case r of None \<Rightarrow> Some (None, s) | Some t \<Rightarrow> walk_alloc flags js t s })"
  by (induction "is" arbitrary: t s) (auto split: option.splits bind_splits prod.splits)

lemma pml_index_lt: "pml_index k vaddr < 512"
proof -
  have "drop_bit k (vaddr AND push_bit k 0x1ff) = drop_bit k (vaddr AND push_bit k (mask 9))"
    by (simp add: mask_eq_exp_minus_1)
  also have "\<dots> = drop_bit k vaddr AND mask 9 AND mask (64 - k)"
    by (rule bit_word_eqI) (auto simp: bit_simps)
  also have "\<dots> = (drop_bit k vaddr AND mask (64 - k)) AND mask 9" by (simp add: ac_simps)
  also have "\<dots> \<le> mask 9" by (rule word_and_le1)
  finally have "unat (drop_bit k (vaddr AND push_bit k 0x1ff)) \<le> unat (mask 9 :: u64)"
    by (simp add: word_le_nat_alt)
  then show ?thesis by (simp add: pml_index_def mask_eq_exp_minus_1)
qed

lemma upper_path_ok [simp]: "path_ok (upper_path pm vaddr)"
  and length_upper_path [simp]: "Suc (length (upper_path pm vaddr)) = pm_depth pm"
  by (auto simp: upper_path_def pml_index_lt pm_depth_def)

lemma walk_ptbl:
  assumes "pt_wf d m root" "length p < d" "path_ok p"
  shows "walk m p root = ptbl m root p"
proof -
  have "walk m q t = ptbl m t q"
    if "ptbl m root r = Some t" "length r + length q < d" "path_ok r" "path_ok q" for q r t
    using that
  proof (induction q arbitrary: r t)
    case Nil
    then show ?case by simp
  next
    case (Cons i q)
    have nh: "\<not> is_huge (m t i)"
      using pt_wf_not_huge [OF assms(1) _ _ Cons.prems(1)] Cons.prems by auto
    show ?case
    proof (cases "is_present (m t i)")
      case True
      then have c: "child m t i = Some (table_of (m t i))" using nh by (simp add: child_def)
      then have "ptbl m root (r @ [i]) = Some (table_of (m t i))" using Cons.prems by (simp add: ptbl_snoc)
      with Cons.IH [OF this] Cons.prems True c show ?thesis by simp
    qed (simp add: child_def)
  qed
  from this [of "[]" root p] assms show ?thesis by simp
qed

text \<open>The virtual page of an address as the hardware sees it: its index at every level.\<close>

definition vpage :: "pagemap \<Rightarrow> u64 \<Rightarrow> nat list \<times> nat \<times> nat" where
  "vpage pm vaddr = (upper_path pm vaddr, pml_index 21 vaddr, pml_index 12 vaddr)"

text \<open>What a look-up answers, given the second- and the first-level entry.\<close>

definition mapping_of :: "u64 \<Rightarrow> u64 \<Rightarrow> u64" where
  "mapping_of e2 e1 =
     (if is_huge e2 then e2 else if \<not> is_present e2 then -1 else if is_present e1 then e1 else -1)"

lemma get_page_mapping_entry:
  assumes "map_ok n pm s" "vpage pm vaddr = (up, i2, i1)"
  shows "vmm_get_page_mapping pm vaddr s =
    Some (mapping_of (entry_at pm s up i2) (entry_at pm s (up @ [i2]) i1))"
proof -
  have "walk (vm_mem s) up (top_level pm) = ptbl (vm_mem s) (top_level pm) up"
    using assms length_upper_path [of pm vaddr]
    by (intro walk_ptbl [of "pm_depth pm"]) (auto simp: map_ok_def vpage_def)
  then show ?thesis
    using assms
    by (auto simp: vmm_get_page_mapping_def map_ok_def vpage_def mapping_of_def pte_def ptbl_snoc
        child_def Let_def split: option.splits)
qed

lemma vmm_map_page_entries:
  assumes ok: "map_ok (pm_depth pm + n) pm s" and fl: "table_flags flags" "\<not> is_huge flags"
    and v: "vpage pm vaddr = (up, i2, i1)" and nh: "\<not> is_huge (entry_at pm s up i2)"
  shows "\<exists>s'. vmm_map_page pm vaddr paddr flags s = Some (True, s') \<and> map_ok n pm s' \<and>
    is_present (entry_at pm s' up i2) \<and> \<not> is_huge (entry_at pm s' up i2) \<and>
    entry_at pm s' (up @ [i2]) i1 = paddr OR flags \<and>
    (\<forall>q j. path_ok q \<and> length q \<le> pm_depth pm \<and> q @ [j] \<noteq> up @ [i2, i1] \<and> \<not> prefix (q @ [j]) (up @ [i2]) \<longrightarrow>
       entry_at pm s' q j = entry_at pm s q j)"
proof -
  let ?p = "up @ [i2]" and ?root = "top_level pm"
  have up: "up = upper_path pm vaddr" "i2 = pml_index 21 vaddr" "i1 = pml_index 12 vaddr"
    using v by (auto simp: vpage_def)
  have len: "length ?p = pm_depth pm" "path_ok ?p" "i2 < 512" "i1 < 512"
    using length_upper_path [of pm vaddr] by (auto simp: up pml_index_lt)
  have wf: "pt_wf (pm_depth pm) (vm_mem s) ?root" using ok by (simp add: map_ok_def)
  have "\<not> is_huge (entry_at pm s q j)" if q: "prefix (q @ [j]) ([] @ ?p)" for q j
  proof (cases "q = up \<and> j = i2")
    case True
    then show ?thesis using nh by simp
  next
    case False
    then have q': "prefix (q @ [j]) up" using q by (auto simp: prefix_snoc)
    then have "Suc (length q) < pm_depth pm" "path_ok q" "j < 512"
      using prefix_length_le [OF q'] set_mono_prefix [OF q'] len by (auto simp: path_ok_def)
    then show ?thesis using pt_wf_not_huge [OF wf] by (auto simp: pte_def split: option.split)
  qed
  note nh' = this
  have ok': "map_ok (length ?p + n) pm s" using ok by (simp only: len(1))
  obtain s1 t where s1: "walk_alloc flags ?p ?root s = Some (Some t, s1)" "map_ok n pm s1"
      "ptbl (vm_mem s1) ?root ?p = Some t"
      "\<forall>q j. path_ok q \<and> length q \<le> pm_depth pm \<and> \<not> prefix (q @ [j]) ?p \<longrightarrow>
         entry_at pm s1 q j = entry_at pm s q j"
    using walk_alloc_ok [of ?p n pm s flags "[]" ?root, OF ok' fl(1) _ _ _ nh'] len by auto
  define s' where "s' = s1\<lparr>vm_mem := set_entry t i1 (paddr OR flags) (vm_mem s1)\<rparr>"
  have "vmm_map_page pm vaddr paddr flags s = Some (True, s')"
    using ok fl s1(1)
    by (auto simp: vmm_map_page_def map_ok_def walk_alloc_append up s'_def
        split: bind_splits option.splits)
  moreover have lc: "leaf_change (pm_depth pm) ?p (vm_mem s1 t i1) (paddr OR flags)"
    using len by (simp add: leaf_change_def)
  note leaf = pt_wf_set_leaf [OF _ s1(3) lc len(2)]
  have "map_ok n pm s'" using s1(2) leaf(1,2) by (simp add: map_ok_def s'_def)
  moreover have "entry_at pm s' q j = (if q = ?p \<and> j = i1 then paddr OR flags else entry_at pm s1 q j)"
    if "path_ok q" "length q \<le> pm_depth pm" for q j
    using leaf(3) that s1(2) by (simp add: map_ok_def s'_def)
  moreover have "is_present (entry_at pm s1 up i2)" "\<not> is_huge (entry_at pm s1 up i2)"
    using s1(3) by (auto simp: ptbl_snoc pte_def child_def split: option.splits if_splits)
  ultimately show ?thesis
    using len s1(4) by auto
qed

lemma map_ok_set_leaf:
  assumes "map_ok n pm s" "ptbl (vm_mem s) (top_level pm) p = Some t" "path_ok p"
    "leaf_change (pm_depth pm) p (vm_mem s t i) v"
  defines "s' \<equiv> s\<lparr>vm_mem := set_entry t i v (vm_mem s)\<rparr>"
  shows "map_ok n pm s'"
    and "path_ok q \<Longrightarrow> length q \<le> pm_depth pm \<Longrightarrow>
      entry_at pm s' q j = (if q = p \<and> j = i then v else entry_at pm s q j)"
  using assms pt_wf_set_leaf [OF _ assms(2,4,3)] by (auto simp: map_ok_def)

lemma vpage_path:
  assumes "vpage pm w = (up, i2, i1)"
  shows "path_ok up" "path_ok (up @ [i2])" "Suc (length up) = pm_depth pm" "length up < pm_depth pm"
    "i2 < 512" "i1 < 512"
proof -
  have "up = upper_path pm w" "i2 = pml_index 21 w" "i1 = pml_index 12 w"
    using assms by (simp_all add: vpage_def)
  then show "path_ok up" "path_ok (up @ [i2])" "Suc (length up) = pm_depth pm" "length up < pm_depth pm"
      "i2 < 512" "i1 < 512"
    using length_upper_path [of pm w] by (auto simp: pml_index_lt simp del: length_upper_path)
qed

text \<open>The look-up of a page reads two entries.\<close>

definition large :: "pagemap \<Rightarrow> 'a vm_scheme \<Rightarrow> u64 \<Rightarrow> bool" where
  "large pm s vaddr \<longleftrightarrow> (case vpage pm vaddr of (up, i2, i1) \<Rightarrow> is_huge (entry_at pm s up i2))"

definition same_region :: "pagemap \<Rightarrow> u64 \<Rightarrow> u64 \<Rightarrow> bool" where
  "same_region pm v w \<longleftrightarrow>
     upper_path pm v = upper_path pm w \<and> pml_index 21 v = pml_index 21 w"

lemma same_lookup:
  assumes "map_ok n pm s" "map_ok k pm s'" "vpage pm w = (up, i2, i1)"
    "entry_at pm s' up i2 = entry_at pm s up i2" "entry_at pm s' (up @ [i2]) i1 = entry_at pm s (up @ [i2]) i1"
  shows "vmm_get_page_mapping pm w s' = vmm_get_page_mapping pm w s"
  using assms(4,5) get_page_mapping_entry [OF assms(1,3)] get_page_mapping_entry [OF assms(2,3)]
  by simp

lemma entry_below_absent:
  "\<not> is_present (entry_at pm s up i) \<Longrightarrow> entry_at pm s (up @ [i]) j = 0"
  by (auto simp: pte_def ptbl_snoc child_def split: option.splits)

lemma vmm_map_page_lookup:
  assumes ok: "map_ok (pm_depth pm + n) pm s" and fl: "table_flags flags" "\<not> is_huge flags"
    and nh: "\<not> large pm s vaddr"
  shows "\<exists>s'. vmm_map_page pm vaddr paddr flags s = Some (True, s') \<and> map_ok n pm s' \<and>
    (\<forall>w. vmm_get_page_mapping pm w s' =
       (if vpage pm w = vpage pm vaddr then Some (paddr OR flags) else vmm_get_page_mapping pm w s)) \<and>
    (\<forall>w. large pm s' w = large pm s w)"
proof -
  obtain up i2 i1 where v: "vpage pm vaddr = (up, i2, i1)" by (cases "vpage pm vaddr") auto
  have nh': "\<not> is_huge (entry_at pm s up i2)" using nh by (simp add: large_def v)
  obtain s' where s': "vmm_map_page pm vaddr paddr flags s = Some (True, s')" "map_ok n pm s'"
      "is_present (entry_at pm s' up i2)" "\<not> is_huge (entry_at pm s' up i2)"
      "entry_at pm s' (up @ [i2]) i1 = paddr OR flags"
      "\<forall>q j. path_ok q \<and> length q \<le> pm_depth pm \<and> q @ [j] \<noteq> up @ [i2, i1] \<and>
         \<not> prefix (q @ [j]) (up @ [i2]) \<longrightarrow> entry_at pm s' q j = entry_at pm s q j"
    using vmm_map_page_entries [OF ok fl v nh'] by blast
  note len = vpage_path [OF v]
  have off: "entry_at pm s' q j = entry_at pm s q j"
    if "path_ok q" "length q = length up" "q @ [j] \<noteq> up @ [i2]" for q j
    using s'(6) [rule_format, of q j] that len prefix_length_le [of "q @ [j]" up] by auto
  have leaf: "entry_at pm s' q j = entry_at pm s q j"
    if "path_ok q" "length q = pm_depth pm" "q @ [j] \<noteq> up @ [i2, i1]" for q j
    using s'(6) [rule_format, of q j] that len prefix_length_le [of "q @ [j]" up]
    by (cases "q = up") auto
  have look: "vmm_get_page_mapping pm w s' = vmm_get_page_mapping pm w s \<and> large pm s' w = large pm s w"
    if w: "vpage pm w = (up', j2, j1)" "(up', j2, j1) \<noteq> (up, i2, i1)" for w up' j2 j1
  proof -
    note wl = vpage_path [OF w(1)]
    have e1: "entry_at pm s' (up' @ [j2]) j1 = entry_at pm s (up' @ [j2]) j1"
      using leaf [of "up' @ [j2]" j1] wl len w(2) by auto
    note gs = get_page_mapping_entry [OF s'(2) w(1)] get_page_mapping_entry [OF ok w(1)]
    show ?thesis
    proof (cases "up' = up \<and> j2 = i2")
      case True
      then show ?thesis
        using s'(3,4) nh' gs e1 entry_below_absent [of s pm up i2 j1] off [of up i2]
        by (cases "is_present (entry_at pm s up i2)") (auto simp: mapping_of_def large_def w(1))
    next
      case False
      then have "entry_at pm s' up' j2 = entry_at pm s up' j2"
        using off [of up' j2] wl len by auto
      then show ?thesis using gs e1 by (simp add: large_def w(1))
    qed
  qed
  have same: "vmm_get_page_mapping pm w s' = Some (paddr OR flags)" "large pm s' w = large pm s w"
    if "vpage pm w = (up, i2, i1)" for w
    using get_page_mapping_entry [OF s'(2) that] s'(3-5) fl(1) nh'
    by (auto simp: mapping_of_def large_def that table_flags_def is_present_bit bit_or_iff)
  have "vmm_get_page_mapping pm w s' =
      (if vpage pm w = vpage pm vaddr then Some (paddr OR flags) else vmm_get_page_mapping pm w s) \<and>
      large pm s' w = large pm s w" for w
    using same [of w] look [of w] by (cases "vpage pm w") (auto simp: v)
  then show ?thesis using s'(1,2) by auto
qed

text \<open>
  \<^verbatim>\<open>vmm_unmap_page\<close> and \<^verbatim>\<open>vmm_update_flags\<close> replace the entry that maps the page, or change nothing if
  the page has no table.
\<close>

definition replace_entry :: "(u64 \<Rightarrow> u64) \<Rightarrow> pagemap \<Rightarrow> u64 \<Rightarrow> 'a vm_scheme \<Rightarrow> bool \<times> 'a vm_scheme" where
  "replace_entry g pm vaddr s =
     (case vpage pm vaddr of (up, i2, i1) \<Rightarrow>
        case ptbl (vm_mem s) (top_level pm) up of
          None \<Rightarrow> (False, s)
        | Some pml2 \<Rightarrow>
            let e = vm_mem s pml2 i2 in
            if is_huge e then (True, s\<lparr>vm_mem := set_entry pml2 i2 (g e) (vm_mem s)\<rparr>)
            else if \<not> is_present e then (False, s)
            else (True, s\<lparr>vm_mem := set_entry (table_of e) i1 (g (vm_mem s (table_of e) i1)) (vm_mem s)\<rparr>))"

lemma walk_upper_path:
  "map_ok n pm s \<Longrightarrow>
   walk (vm_mem s) (upper_path pm vaddr) (top_level pm) = ptbl (vm_mem s) (top_level pm) (upper_path pm vaddr)"
  using length_upper_path [of pm vaddr]
  by (intro walk_ptbl [of "pm_depth pm"]) (auto simp: map_ok_def simp del: length_upper_path)

lemma vmm_unmap_page_replace:
  "map_ok n pm s \<Longrightarrow> vmm_unmap_page pm vaddr s = Some (replace_entry (\<lambda>_. 0) pm vaddr s)"
  using walk_upper_path [of n pm s vaddr]
  by (auto simp: vmm_unmap_page_def replace_entry_def vpage_def map_ok_def Let_def split: option.split)

lemma vmm_update_flags_replace:
  "map_ok n pm s \<Longrightarrow>
   vmm_update_flags pm vaddr flags s =
     Some (replace_entry (\<lambda>e. (e AND NOT PTE_FLAG_MASK) OR flags) pm vaddr s)"
  using walk_upper_path [of n pm s vaddr]
  by (auto simp: vmm_update_flags_def replace_entry_def vpage_def map_ok_def Let_def split: option.split)

lemma replace_entry_lookup:
  assumes ok: "map_ok n pm s" and v: "vpage pm vaddr = (up, i2, i1)"
    and g: "is_huge (entry_at pm s up i2) \<Longrightarrow> leads_nowhere (g (entry_at pm s up i2))"
    and r: "replace_entry g pm vaddr s = (ret, s')"
  shows "map_ok n pm s'"
    and "ret \<longleftrightarrow> is_huge (entry_at pm s up i2) \<or> is_present (entry_at pm s up i2)"
    and "\<not> ret \<Longrightarrow> s' = s"
    and "path_ok q \<Longrightarrow> length q \<le> pm_depth pm \<Longrightarrow> entry_at pm s' q j =
      (if is_huge (entry_at pm s up i2)
       then (if q = up \<and> j = i2 then g (entry_at pm s q j) else entry_at pm s q j)
       else if is_present (entry_at pm s up i2) \<and> q = up @ [i2] \<and> j = i1
         then g (entry_at pm s q j) else entry_at pm s q j)"
proof -
  note len = vpage_path [OF v]
  have "map_ok n pm s' \<and>
    (ret \<longleftrightarrow> is_huge (entry_at pm s up i2) \<or> is_present (entry_at pm s up i2)) \<and> (\<not> ret \<longrightarrow> s' = s) \<and>
    (path_ok q \<and> length q \<le> pm_depth pm \<longrightarrow> entry_at pm s' q j =
      (if is_huge (entry_at pm s up i2)
       then (if q = up \<and> j = i2 then g (entry_at pm s q j) else entry_at pm s q j)
       else if is_present (entry_at pm s up i2) \<and> q = up @ [i2] \<and> j = i1
         then g (entry_at pm s q j) else entry_at pm s q j))"
  proof (cases "ptbl (vm_mem s) (top_level pm) up")
    case None
    then show ?thesis using r ok by (auto simp: replace_entry_def v pte_def)
  next
    case (Some pml2)
    let ?e = "vm_mem s pml2 i2"
    have e: "entry_at pm s up i2 = ?e" by (simp add: pte_def Some)
    consider (huge) "is_huge ?e" | (absent) "\<not> is_huge ?e" "\<not> is_present ?e"
      | (table) "\<not> is_huge ?e" "is_present ?e" by blast
    then show ?thesis
    proof cases
      case huge
      then have lc: "leaf_change (pm_depth pm) up ?e (g ?e)"
        using len(3) g by (simp add: leaf_change_def leads_nowhere_def e)
      show ?thesis
        using map_ok_set_leaf [OF ok Some len(1) lc] r huge by (auto simp: replace_entry_def v e Some)
    next
      case absent
      then have "ret = False" "s' = s" using r by (auto simp: replace_entry_def v Some)
      then show ?thesis using ok absent by (simp add: e)
    next
      case table
      then have t: "ptbl (vm_mem s) (top_level pm) (up @ [i2]) = Some (table_of ?e)"
        by (simp add: ptbl_snoc Some child_def)
      then have leaf: "entry_at pm s (up @ [i2]) i1 = vm_mem s (table_of ?e) i1" by (simp add: pte_def)
      have lc: "leaf_change (pm_depth pm) (up @ [i2]) (vm_mem s (table_of ?e) i1)
          (g (vm_mem s (table_of ?e) i1))"
        using len by (simp add: leaf_change_def)
      show ?thesis
        using map_ok_set_leaf [OF ok t len(2) lc] r table
        by (auto simp: replace_entry_def v e Some Let_def leaf)
    qed
  qed
  then show "map_ok n pm s'"
    "ret \<longleftrightarrow> is_huge (entry_at pm s up i2) \<or> is_present (entry_at pm s up i2)" "\<not> ret \<Longrightarrow> s' = s"
    "path_ok q \<Longrightarrow> length q \<le> pm_depth pm \<Longrightarrow> entry_at pm s' q j =
      (if is_huge (entry_at pm s up i2)
       then (if q = up \<and> j = i2 then g (entry_at pm s q j) else entry_at pm s q j)
       else if is_present (entry_at pm s up i2) \<and> q = up @ [i2] \<and> j = i1
         then g (entry_at pm s q j) else entry_at pm s q j)"
    by auto
qed

section \<open>Indices and addresses\<close>

lemma bit_pml_index_word:
  "bit (drop_bit k (vaddr AND push_bit k 0x1ff) :: u64) n \<longleftrightarrow> n < 9 \<and> bit vaddr (k + n)"
proof -
  have eq: "(0x1ff :: u64) = mask 9" by (simp add: mask_eq_exp_minus_1)
  have "k + n < 64" if "bit vaddr (k + n)" using bit_imp_le_length [OF that] by simp
  then show ?thesis unfolding eq by (auto simp: bit_simps)
qed

lemma pml_index_eq:
  "pml_index k a = pml_index k b \<longleftrightarrow> (\<forall>n\<in>{k..<k + 9}. bit a n = bit b n)"
proof -
  have lt: "n < 64" if "n < 9" for n :: nat using that by simp
  have "pml_index k a = pml_index k b \<longleftrightarrow> (\<forall>n<9. bit a (k + n) = bit b (k + n))"
    unfolding pml_index_def word_unat_eq_iff [symmetric]
    unfolding bit_eq_iff bit_pml_index_word by simp (metis lt)
  also have "\<dots> \<longleftrightarrow> (\<forall>n\<in>(+) k ` {0..<9}. bit a n = bit b n)"
    unfolding ball_simps by auto
  finally show ?thesis by (simp add: add.commute)
qed

lemma vpage_eq_bits:
  "vpage pm a = vpage pm b \<longleftrightarrow>
   (\<forall>n\<in>{12..<if has_level5 pm then 57 else 48}. bit a n = bit b n)"
proof -
  have "{12..<48} = {39..<48} \<union> {30..<39} \<union> {21..<30} \<union> {12..<21 :: nat}"
    "{12..<57} = {48..<57} \<union> {39..<48} \<union> {30..<39} \<union> {21..<30} \<union> {12..<21 :: nat}"
    by auto
  then show ?thesis
    by (simp add: vpage_def upper_path_def pml_index_eq ball_Un)
qed

section \<open>The interface of a page map\<close>

text \<open>
  What the loops that map a range of pages (the user stack in \<^verbatim>\<open>thread_create\<close>, the heap in
  \<^verbatim>\<open>process_sbrk\<close>, the segments in \<^verbatim>\<open>elf_load\<close>) rely on: mapping a page makes its look-up answer with
  the frame and the flags and leaves every other page alone.
\<close>

fun map_pages :: "('v \<Rightarrow> u64 \<Rightarrow> 's \<Rightarrow> (bool \<times> 's) option) \<Rightarrow> ('v \<times> u64) list \<Rightarrow> 's \<Rightarrow> (bool \<times> 's) option" where
  "map_pages map_one [] s = Some (True, s)"
| "map_pages map_one ((v, p) # ps) s = do {
     (ok, s) \<leftarrow> map_one v p s;
     if ok then map_pages map_one ps s else Some (False, s)
   }"

locale page_map =
  fixes lookup :: "'v \<Rightarrow> 's \<Rightarrow> u64 option"
    and map_one :: "'v \<Rightarrow> u64 \<Rightarrow> 's \<Rightarrow> (bool \<times> 's) option"
    and page :: "'v \<Rightarrow> 'p"
    and ready :: "nat \<Rightarrow> 's \<Rightarrow> bool"
    and mappable :: "'v \<Rightarrow> 's \<Rightarrow> bool"
    and mapped_to :: "u64 \<Rightarrow> u64"
  assumes map_one_law: "ready (Suc n) s \<Longrightarrow> mappable v s \<Longrightarrow>
    \<exists>s'. map_one v p s = Some (True, s') \<and> ready n s' \<and>
      (\<forall>w. lookup w s' = (if page w = page v then Some (mapped_to p) else lookup w s)) \<and>
      (\<forall>w. mappable w s' = mappable w s)"
begin

lemma map_pages_lookup:
  assumes "ready (length ps + n) s" "\<forall>(v, p)\<in>set ps. mappable v s" "distinct (map (page \<circ> fst) ps)"
  shows "\<exists>s'. map_pages map_one ps s = Some (True, s') \<and> ready n s' \<and>
    (\<forall>(v, p)\<in>set ps. lookup v s' = Some (mapped_to p)) \<and>
    (\<forall>w. page w \<notin> (page \<circ> fst) ` set ps \<longrightarrow> lookup w s' = lookup w s)"
  using assms
proof (induction ps arbitrary: s)
  case Nil
  then show ?case by simp
next
  case (Cons vp ps)
  obtain v p where vp: "vp = (v, p)" by force
  obtain s1 where s1: "map_one v p s = Some (True, s1)" "ready (length ps + n) s1"
      "\<forall>w. lookup w s1 = (if page w = page v then Some (mapped_to p) else lookup w s)"
      "\<forall>w. mappable w s1 = mappable w s"
    using map_one_law [of "length ps + n" s v p] Cons.prems by (auto simp: vp)
  obtain s' where s': "map_pages map_one ps s1 = Some (True, s')" "ready n s'"
      "\<forall>(v, p)\<in>set ps. lookup v s' = Some (mapped_to p)"
      "\<forall>w. page w \<notin> (page \<circ> fst) ` set ps \<longrightarrow> lookup w s' = lookup w s1"
    using Cons.IH [OF s1(2)] Cons.prems(2,3) s1(4) by auto
  have "lookup v s' = Some (mapped_to p)" using s'(4) s1(3) Cons.prems(3) by (simp add: vp)
  then show ?case using s1 s' by (auto simp: vp)
qed

end

interpretation pages: page_map "vmm_get_page_mapping pm" "\<lambda>v p. vmm_map_page pm v p flags" "vpage pm"
    "\<lambda>n s. map_ok (pm_depth pm * n) pm s \<and> table_flags flags \<and> \<not> is_huge flags"
    "\<lambda>v s. \<not> large pm s v" "\<lambda>p. p OR flags" for pm flags
proof
  fix n s v p
  assume "map_ok (pm_depth pm * Suc n) pm s \<and> table_flags flags \<and> \<not> is_huge flags" "\<not> large pm s v"
  then show "\<exists>s'. vmm_map_page pm v p flags s = Some (True, s') \<and>
      (map_ok (pm_depth pm * n) pm s' \<and> table_flags flags \<and> \<not> is_huge flags) \<and>
      (\<forall>w. vmm_get_page_mapping pm w s' =
         (if vpage pm w = vpage pm v then Some (p OR flags) else vmm_get_page_mapping pm w s)) \<and>
      (\<forall>w. (\<not> large pm s' w) = (\<not> large pm s w))"
    using vmm_map_page_lookup [of pm "pm_depth pm * n" s flags v p] by auto
qed

section \<open>Properties\<close>

text \<open>C11: mapping. With the lock free, a well-formed tree of tables apart from the free frames and a
  frame at hand for every level, \<^verbatim>\<open>vmm_map_page\<close> of a small page outside large pages succeeds; after it
  \<^verbatim>\<open>vmm_get_page_mapping\<close> answers \<open>paddr | flags\<close> for every address of the same virtual page and what it
  answered before for every other address, and the invariant holds.\<close>

theorem vmm_map_then_get:
  assumes "map_ok (pm_depth pm + n) pm s" "table_flags flags" "\<not> is_huge flags" "\<not> large pm s vaddr"
  shows "\<exists>s'. vmm_map_page pm vaddr paddr flags s = Some (True, s') \<and> map_ok n pm s' \<and>
    (\<forall>w. vmm_get_page_mapping pm w s' =
       (if vpage pm w = vpage pm vaddr then Some (paddr OR flags) else vmm_get_page_mapping pm w s))"
  using vmm_map_page_lookup [OF assms] by blast

definition vm_sample :: vm where
  "vm_sample = \<lparr>vm_pmm = pmm_sample, vm_mem = (\<lambda>_ _. 0)\<rparr>"

definition pm_sample :: pagemap where
  "pm_sample = \<lparr>top_level = 0x1000, has_level5 = False, pm_lock = 0\<rparr>"

lemma ptbl_empty: "ptbl (\<lambda>_ _. 0) root p = (if p = [] then Some root else None)"
  by (cases p) (simp_all add: child_def)

lemma map_ok_sample: "n \<le> 12 \<Longrightarrow> map_ok n pm_sample vm_sample"
proof -
  assume n: "n \<le> 12"
  have "fresh_frames n pmm_sample"
    using n by (auto simp: fresh_frames_def pmm_sample_free) (auto simp: pmm_sample_def)
  moreover have "0x1000 \<notin> frames_ahead pmm_sample"
  proof
    assume "0x1000 \<in> frames_ahead pmm_sample"
    then obtain p where p: "2 \<le> p" "p < 2 ^ 51" "0x1000 = of_nat p * PAGE_SIZE"
      by (auto simp: frames_ahead_def pmm_sample_def)
    have "unat (0x1000 :: u64) = p * 4096" using unat_frame [of p] p(2) by (simp add: p(3))
    then show False using p(1) by simp
  qed
  ultimately show ?thesis
    by (auto simp: map_ok_def vm_sample_def pm_sample_def pt_wf_def pt_apart_def ptbl_empty pm_depth_def
        split: if_splits)
qed

lemma sample_flags: "table_flags (PTE_PRESENT OR PTE_WRITABLE OR PTE_USER)"
    "\<not> is_huge (PTE_PRESENT OR PTE_WRITABLE OR PTE_USER)"
  by (simp_all add: table_flags_def is_present_def is_huge_def pte_defs PTE_FLAG_MASK_def)

lemma sample_not_large: "\<not> large pm_sample vm_sample vaddr"
  by (simp add: large_def vm_sample_def pte_def ptbl_empty split: option.split prod.split)

theorem vmm_map_then_get_witness:
  "\<exists>s'. vmm_map_page pm_sample 0x400000 0x7000 (PTE_PRESENT OR PTE_WRITABLE OR PTE_USER) vm_sample =
       Some (True, s') \<and>
     vmm_get_page_mapping pm_sample 0x400123 s' = Some 0x7007 \<and>
     vmm_get_page_mapping pm_sample 0x401000 s' = Some (-1)"
proof -
  have ok: "map_ok (pm_depth pm_sample + 0) pm_sample vm_sample"
    by (intro map_ok_sample) (simp add: pm_depth_def)
  have "vpage pm_sample 0x400123 = vpage pm_sample 0x400000" "vpage pm_sample 0x401000 \<noteq> vpage pm_sample 0x400000"
    by (simp_all add: vpage_def upper_path_def pm_sample_def pml_index_def)
  moreover have "vmm_get_page_mapping pm_sample 0x401000 vm_sample = Some (-1)"
    by (simp add: vmm_get_page_mapping_def pm_sample_def vm_sample_def upper_path_def)
  ultimately show ?thesis
    using vmm_map_then_get [OF ok sample_flags sample_not_large, of "0x400000" "0x7000"]
    by (auto simp: pte_defs)
qed

text \<open>C12: unmapping. \<^verbatim>\<open>vmm_unmap_page\<close> returns true exactly if the page has a first-level table or
  lies in a large page. Afterwards the look-up of the page answers -1, and so do all pages of the
  large page it was part of; every other look-up is as before.\<close>

theorem vmm_unmap_then_get:
  assumes "map_ok n pm s"
  shows "\<exists>ret s'. vmm_unmap_page pm vaddr s = Some (ret, s') \<and> map_ok n pm s' \<and>
    (vmm_get_page_mapping pm vaddr s \<noteq> Some (-1) \<longrightarrow> ret) \<and>
    (\<forall>w. vmm_get_page_mapping pm w s' =
       (if vpage pm w = vpage pm vaddr \<or> large pm s vaddr \<and> same_region pm vaddr w
        then Some (-1) else vmm_get_page_mapping pm w s))"
proof -
  obtain up i2 i1 where v: "vpage pm vaddr = (up, i2, i1)" by (cases "vpage pm vaddr") auto
  obtain ret s' where r: "replace_entry (\<lambda>_. 0) pm vaddr s = (ret, s')" by force
  note rep = replace_entry_lookup [OF assms v _ r]
  have z: "leads_nowhere 0" by (simp add: leads_nowhere_def)
  have "vmm_get_page_mapping pm w s' =
     (if vpage pm w = vpage pm vaddr \<or> large pm s vaddr \<and> same_region pm vaddr w
      then Some (-1) else vmm_get_page_mapping pm w s)" for w
  proof -
    obtain up' j2 j1 where w: "vpage pm w = (up', j2, j1)" by (cases "vpage pm w") auto
    have reg: "same_region pm vaddr w \<longleftrightarrow> up = up' \<and> i2 = j2"
      using v w by (auto simp: same_region_def vpage_def)
    have ne: "up' \<noteq> up @ [i2]" "up' @ [j2] \<noteq> up" using vpage_path(3) [OF w] vpage_path(3) [OF v] by auto
    note e2 = rep(4) [OF z vpage_path(1) [OF w], of j2] and e1 = rep(4) [OF z vpage_path(2) [OF w], of j1]
    have "vmm_get_page_mapping pm w s' =
        Some (mapping_of (entry_at pm s' up' j2) (entry_at pm s' (up' @ [j2]) j1))"
      by (rule get_page_mapping_entry [OF rep(1) [OF z] w])
    then show ?thesis
      using e1 e2 ne vpage_path(3) [OF w] get_page_mapping_entry [OF assms w]
      by (cases "up' = up \<and> j2 = i2"; cases "is_huge (entry_at pm s up i2)")
        (auto simp: v w reg large_def mapping_of_def)
  qed
  moreover have "ret" if "vmm_get_page_mapping pm vaddr s \<noteq> Some (-1)"
    using that rep(2) z get_page_mapping_entry [OF assms v] by (auto simp: mapping_of_def split: if_splits)
  ultimately show ?thesis
    using vmm_unmap_page_replace [OF assms, of vaddr] rep(1) z r by auto
qed

theorem vmm_unmap_then_get_witness:
  "\<exists>s' s''. vmm_map_page pm_sample 0x400000 0x7000 (PTE_PRESENT OR PTE_WRITABLE OR PTE_USER) vm_sample =
       Some (True, s') \<and> vmm_unmap_page pm_sample 0x400000 s' = Some (True, s'') \<and>
     vmm_get_page_mapping pm_sample 0x400000 s'' = Some (-1)"
proof -
  have ok: "map_ok (pm_depth pm_sample + 0) pm_sample vm_sample"
    by (intro map_ok_sample) (simp add: pm_depth_def)
  obtain s' where s': "vmm_map_page pm_sample 0x400000 0x7000 (PTE_PRESENT OR PTE_WRITABLE OR PTE_USER)
      vm_sample = Some (True, s')" "map_ok 0 pm_sample s'"
      "vmm_get_page_mapping pm_sample 0x400000 s' = Some 0x7007"
    using vmm_map_page_lookup [OF ok sample_flags sample_not_large, of "0x400000" "0x7000"]
    by (auto simp: pte_defs)
  have "(0x7007 :: u64) \<noteq> -1" by simp
  then show ?thesis using vmm_unmap_then_get [OF s'(2), of "0x400000"] s'(1,3) by auto
qed

text \<open>Protection. \<^verbatim>\<open>vmm_update_flags\<close> of a mapped small page keeps the frame address of its entry
  and replaces the flags; no other look-up changes. For a page without a table it returns false and
  changes nothing.\<close>

theorem vmm_update_flags_then_get:
  assumes "map_ok n pm s" "\<not> large pm s vaddr" "vmm_get_page_mapping pm vaddr s = Some e" "is_present flags"
  shows "\<exists>ret s'. vmm_update_flags pm vaddr flags s = Some (ret, s') \<and> map_ok n pm s' \<and>
    (e \<noteq> -1 \<longrightarrow> ret) \<and> (\<not> ret \<longrightarrow> s' = s) \<and>
    (e \<noteq> -1 \<longrightarrow> (\<forall>w. vmm_get_page_mapping pm w s' =
       (if vpage pm w = vpage pm vaddr then Some ((e AND NOT PTE_FLAG_MASK) OR flags)
        else vmm_get_page_mapping pm w s)))"
proof -
  let ?g = "\<lambda>e. (e AND NOT PTE_FLAG_MASK) OR flags"
  obtain up i2 i1 where v: "vpage pm vaddr = (up, i2, i1)" by (cases "vpage pm vaddr") auto
  obtain ret s' where r: "replace_entry ?g pm vaddr s = (ret, s')" by force
  have nh: "\<not> is_huge (entry_at pm s up i2)" using assms(2) by (simp add: large_def v)
  have rep: "map_ok n pm s'" "ret \<longleftrightarrow> is_present (entry_at pm s up i2)" "\<not> ret \<Longrightarrow> s' = s"
    "\<And>q j. path_ok q \<Longrightarrow> length q \<le> pm_depth pm \<Longrightarrow> entry_at pm s' q j =
       (if is_present (entry_at pm s up i2) \<and> q = up @ [i2] \<and> j = i1
        then ?g (entry_at pm s q j) else entry_at pm s q j)"
    using replace_entry_lookup [OF assms(1) v _ r] nh by auto
  have e: "e = (if ret \<and> is_present (entry_at pm s (up @ [i2]) i1) then entry_at pm s (up @ [i2]) i1 else -1)"
    using assms(3) nh rep(2) get_page_mapping_entry [OF assms(1) v] by (auto simp: mapping_of_def)
  have g: "is_present (?g x)" for x using assms(4) by (simp add: is_present_bit bit_or_iff)
  have "vmm_get_page_mapping pm w s' =
      (if vpage pm w = vpage pm vaddr then Some (?g e) else vmm_get_page_mapping pm w s)" if "e \<noteq> -1" for w
  proof -
    obtain up' j2 j1 where w: "vpage pm w = (up', j2, j1)" by (cases "vpage pm w") auto
    have ne: "up' \<noteq> up @ [i2]" using vpage_path(3) [OF w] vpage_path(3) [OF v] by auto
    note e2 = rep(4) [OF vpage_path(1) [OF w], of j2] and e1 = rep(4) [OF vpage_path(2) [OF w], of j1]
    have "vmm_get_page_mapping pm w s' =
        Some (mapping_of (entry_at pm s' up' j2) (entry_at pm s' (up' @ [j2]) j1))"
      by (rule get_page_mapping_entry [OF rep(1) w])
    then show ?thesis
      using that e g nh rep(2) e1 e2 ne vpage_path(3) [OF w] get_page_mapping_entry [OF assms(1) w]
      by (auto simp: v w mapping_of_def split: if_splits)
  qed
  then show ?thesis
    using vmm_update_flags_replace [OF assms(1), of vaddr flags] rep(1,3) r e by auto
qed

theorem vmm_update_flags_then_get_witness:
  "\<exists>s' s''. vmm_map_page pm_sample 0x400000 0x7000 (PTE_PRESENT OR PTE_WRITABLE OR PTE_USER) vm_sample =
       Some (True, s') \<and> vmm_update_flags pm_sample 0x400000 PTE_PRESENT s' = Some (True, s'') \<and>
     vmm_get_page_mapping pm_sample 0x400000 s'' = Some 0x7001"
proof -
  have ok: "map_ok (pm_depth pm_sample + 0) pm_sample vm_sample"
    by (intro map_ok_sample) (simp add: pm_depth_def)
  obtain s' where s': "vmm_map_page pm_sample 0x400000 0x7000 (PTE_PRESENT OR PTE_WRITABLE OR PTE_USER)
      vm_sample = Some (True, s')" "map_ok 0 pm_sample s'"
      "vmm_get_page_mapping pm_sample 0x400000 s' = Some 0x7007" "\<not> large pm_sample s' 0x400000"
    using vmm_map_page_lookup [OF ok sample_flags sample_not_large, of "0x400000" "0x7000"] sample_not_large
    by (auto simp: pte_defs)
  have "is_present PTE_PRESENT" by (simp add: is_present_def PTE_PRESENT_def)
  moreover have "(0x7007 AND NOT PTE_FLAG_MASK) OR PTE_PRESENT = 0x7001" "(0x7007 :: u64) \<noteq> -1"
    by (simp_all add: PTE_FLAG_MASK_def PTE_PRESENT_def)
  ultimately have "\<exists>ret s''. vmm_update_flags pm_sample 0x400000 PTE_PRESENT s' = Some (ret, s'') \<and> ret \<and>
      vmm_get_page_mapping pm_sample 0x400000 s'' = Some 0x7001"
    using vmm_update_flags_then_get [OF s'(2,4,3), of PTE_PRESENT] by metis
  then show ?thesis using s'(1) by auto
qed


text \<open>\<^verbatim>\<open>entries_to_vaddr\<close> inverts the decomposition of an address into table indices.\<close>

theorem entries_to_vaddr_indices:
  assumes "i4 < 512" "i3 < 512" "i2 < 512" "i1 < 512"
  shows "map (\<lambda>k. pml_index k (entries_to_vaddr i4 i3 i2 i1)) [39, 30, 21, 12] = map unat [i4, i3, i2, i1]"
proof -
  have small: "\<not> bit i n" if "i < 512" "9 \<le> n" for i :: u64 and n
  proof -
    have "take_bit 9 (unat i) = unat i"
      using that(1) by (intro take_bit_nat_eq_self) (simp add: word_less_nat_alt)
    then have "\<not> bit (unat i) n" using that(2) by (metis bit_take_bit_iff not_less)
    then show ?thesis by (simp add: bit_unsigned_iff)
  qed
  have idx: "pml_index k v = unat i"
    if "\<And>n. n < 9 \<Longrightarrow> bit v (k + n) = bit i n" "i < 512" for k v and i :: u64
    unfolding pml_index_def
    by (intro arg_cong [of _ _ unat] bit_word_eqI, unfold bit_pml_index_word)
      (use that small [of i] in \<open>metis not_less\<close>)
  note b = entries_to_vaddr_def bit_or_iff bit_push_bit_iff
  have "pml_index 39 (entries_to_vaddr i4 i3 i2 i1) = unat i4"
    by (rule idx) (use assms small in \<open>auto simp: b\<close>)
  moreover have "pml_index 30 (entries_to_vaddr i4 i3 i2 i1) = unat i3"
    by (rule idx) (use assms small in \<open>auto simp: b\<close>)
  moreover have "pml_index 21 (entries_to_vaddr i4 i3 i2 i1) = unat i2"
    by (rule idx) (use assms small in \<open>auto simp: b\<close>)
  moreover have "pml_index 12 (entries_to_vaddr i4 i3 i2 i1) = unat i1"
    by (rule idx) (use assms small in \<open>auto simp: b\<close>)
  ultimately show ?thesis by simp
qed

theorem entries_to_vaddr_indices_witness:
  "map (\<lambda>k. pml_index k (entries_to_vaddr 255 511 3 7)) [39, 30, 21, 12] = [255, 511, 3, 7]"
  using entries_to_vaddr_indices [of 255 511 3 7] by simp

text \<open>Mapping a list of pages. The loops that back a range of user memory page by page succeed
  when there is a frame for every table they may need; afterwards every page of the list has its
  own frame and no other page has changed.\<close>

theorem vmm_map_pages_lookup:
  assumes "map_ok (pm_depth pm * (length ps + n)) pm s" "table_flags flags" "\<not> is_huge flags"
    "\<forall>(v, p)\<in>set ps. \<not> large pm s v" "distinct (map (vpage pm \<circ> fst) ps)"
  shows "\<exists>s'. map_pages (\<lambda>v p. vmm_map_page pm v p flags) ps s = Some (True, s') \<and>
    map_ok (pm_depth pm * n) pm s' \<and>
    (\<forall>(v, p)\<in>set ps. vmm_get_page_mapping pm v s' = Some (p OR flags)) \<and>
    (\<forall>w. vpage pm w \<notin> (vpage pm \<circ> fst) ` set ps \<longrightarrow>
       vmm_get_page_mapping pm w s' = vmm_get_page_mapping pm w s)"
  using pages.map_pages_lookup [where pm = pm and flags = flags and ps = ps and n = n and s = s] assms by auto

theorem vmm_map_pages_lookup_witness:
  "\<exists>s'. map_pages (\<lambda>v p. vmm_map_page pm_sample v p (PTE_PRESENT OR PTE_WRITABLE OR PTE_USER))
      [(0x400000, 0x7000), (0x401000, 0x8000)] vm_sample = Some (True, s') \<and>
    vmm_get_page_mapping pm_sample 0x400000 s' = Some 0x7007 \<and>
    vmm_get_page_mapping pm_sample 0x401000 s' = Some 0x8007"
proof -
  let ?ps = "[(0x400000, 0x7000), (0x401000, 0x8000)] :: (u64 \<times> u64) list"
  have ok: "map_ok (pm_depth pm_sample * (length ?ps + 0)) pm_sample vm_sample"
    by (intro map_ok_sample) (simp add: pm_depth_def pm_sample_def)
  have "distinct (map (vpage pm_sample \<circ> fst) ?ps)"
    by (simp add: vpage_def upper_path_def pm_sample_def pml_index_def)
  moreover have "\<forall>(v, p)\<in>set ?ps. \<not> large pm_sample vm_sample v" by (simp add: sample_not_large)
  ultimately show ?thesis
    using vmm_map_pages_lookup [OF ok sample_flags] by (auto simp: pte_defs)
qed

end
