(* ===== verification/Slab.thy ===== *)
theory Slab
  imports Vmm "HOL-Library.Multiset"
begin

text \<open>
  The object allocator: \<^verbatim>\<open>kernel/src/mem/slab.c\<close>. The structures the C code reaches through pointers
  are kept in one typed store per type: \<open>slabs s a\<close> is the \<^verbatim>\<open>struct slab\<close> at address \<open>a\<close>, \<open>caches s a\<close> the
  \<^verbatim>\<open>struct cache\<close>, \<open>big_headers s a\<close> the \<^verbatim>\<open>struct big_alloc_header\<close>; \<open>bytes s\<close> is the contents of the
  objects handed out. The state extends that of the pager, so a slab's pages come from the same page
  allocator as the page tables. The null pointer is 0; addresses are physical, as in \<open>Vmm\<close> (the code
  adds \<^verbatim>\<open>HIGH_VMA\<close> to all of them).

  The loops along a list of slabs follow \<^verbatim>\<open>next\<close> pointers and end only if the list does; they are
  partial functions, whose value \<open>None\<close> stands, as everywhere, for a call that does not return.
\<close>

record slab =
  sl_cache :: u64
  available_objects :: u64
  total_objects :: u64
  sl_bitmap :: bitmap
  sl_buffer :: u64
  sl_prev :: u64
  sl_next :: u64

record big_alloc_header =
  bh_magic :: u64
  bh_page_count :: u64
  bh_size :: u64

record cache =
  cache_name :: string
  object_size :: u64
  pages_per_slab :: u64
  empty_slabs :: u64
  partial_slabs :: u64
  full_slabs :: u64
  cache_lock :: u64
  cache_next :: u64

record kheap = vm +
  slabs :: "u64 \<Rightarrow> slab"
  caches :: "u64 \<Rightarrow> cache"
  big_headers :: "u64 \<Rightarrow> big_alloc_header"
  bytes :: "u64 \<Rightarrow> u8"
  root_cache :: u64
  kmalloc_caches :: "u64 list"
  cache_list :: u64

definition BIG_ALLOC_HEADER_MAGIC :: u64 where "BIG_ALLOC_HEADER_MAGIC = 0xfafeceedabcdeffe"
definition OBJECTS_PER_SLAB :: u64 where "OBJECTS_PER_SLAB = 512"
definition SIZEOF_SLAB :: u64 where "SIZEOF_SLAB = 56"
definition SIZEOF_CACHE :: u64 where "SIZEOF_CACHE = 64"

text \<open>\<^verbatim>\<open>memset\<close> and \<^verbatim>\<open>memcpy\<close> on the bytes of objects. The kernel's \<^verbatim>\<open>memcpy\<close> copies forwards; source and
  destination of the calls below do not overlap.\<close>

definition memset_bytes :: "u64 \<Rightarrow> u8 \<Rightarrow> nat \<Rightarrow> (u64 \<Rightarrow> u8) \<Rightarrow> u64 \<Rightarrow> u8" where
  "memset_bytes a v n b = fold (\<lambda>k b. b(a + of_nat k := v)) [0..<n] b"

definition memcpy_bytes :: "u64 \<Rightarrow> u64 \<Rightarrow> nat \<Rightarrow> (u64 \<Rightarrow> u8) \<Rightarrow> u64 \<Rightarrow> u8" where
  "memcpy_bytes dest src n b = fold (\<lambda>k b. b(dest + of_nat k := b (src + of_nat k))) [0..<n] b"

definition upd_slab :: "u64 \<Rightarrow> (slab \<Rightarrow> slab) \<Rightarrow> 'a kheap_scheme \<Rightarrow> 'a kheap_scheme" where
  "upd_slab a f s = s\<lparr>slabs := (slabs s)(a := f (slabs s a))\<rparr>"

definition upd_cache :: "u64 \<Rightarrow> (cache \<Rightarrow> cache) \<Rightarrow> 'a kheap_scheme \<Rightarrow> 'a kheap_scheme" where
  "upd_cache a f s = s\<lparr>caches := (caches s)(a := f (caches s a))\<rparr>"

definition cache_alloc_slab :: "u64 \<Rightarrow> 'a kheap_scheme \<Rightarrow> (u64 \<times> 'a kheap_scheme) option" where
  "cache_alloc_slab cache s = do {
     (new_slab, s) \<leftarrow> pmm_allocz (pages_per_slab (caches s cache)) s;
     let s = upd_slab new_slab (\<lambda>_. \<lparr>sl_cache = cache, available_objects = OBJECTS_PER_SLAB,
               total_objects = OBJECTS_PER_SLAB, sl_bitmap = (\<lambda>_. 0),
               sl_buffer = ALIGN_UP (new_slab + SIZEOF_SLAB + OBJECTS_PER_SLAB) 16,
               sl_prev = 0, sl_next = 0\<rparr>) s;
     let empty = empty_slabs (caches s cache);
     let s = (if empty \<noteq> 0 then upd_slab empty (\<lambda>e. e\<lparr>sl_prev := new_slab\<rparr>) s else s);
     let s = upd_slab new_slab (\<lambda>n. n\<lparr>sl_next := empty\<rparr>) s;
     Some (new_slab, upd_cache cache (\<lambda>c. c\<lparr>empty_slabs := new_slab\<rparr>) s)
   }"

text \<open>The list heads \<^verbatim>\<open>cache_move_slab\<close> is called with are fields of one cache.\<close>

datatype slab_list = Empty | Partial | Full

fun slab_head :: "slab_list \<Rightarrow> cache \<Rightarrow> u64" where
  "slab_head Empty c = empty_slabs c"
| "slab_head Partial c = partial_slabs c"
| "slab_head Full c = full_slabs c"

fun set_slab_head :: "slab_list \<Rightarrow> u64 \<Rightarrow> cache \<Rightarrow> cache" where
  "set_slab_head Empty a c = c\<lparr>empty_slabs := a\<rparr>"
| "set_slab_head Partial a c = c\<lparr>partial_slabs := a\<rparr>"
| "set_slab_head Full a c = c\<lparr>full_slabs := a\<rparr>"

definition cache_move_slab ::
    "u64 \<Rightarrow> slab_list \<Rightarrow> slab_list \<Rightarrow> u64 \<Rightarrow> 'a kheap_scheme \<Rightarrow> bool \<times> 'a kheap_scheme" where
  "cache_move_slab cache dest src x s =
     (if x = 0 \<or> slab_head src (caches s cache) = 0 then (False, s)
      else
        let nxt = sl_next (slabs s x);
            s = (if nxt \<noteq> 0 then upd_slab nxt (\<lambda>n. n\<lparr>sl_prev := sl_prev (slabs s x)\<rparr>) s else s);
            prv = sl_prev (slabs s x);
            s = (if prv \<noteq> 0 then upd_slab prv (\<lambda>p. p\<lparr>sl_next := sl_next (slabs s x)\<rparr>) s else s);
            s = (if slab_head src (caches s cache) = x
                 then upd_cache cache (set_slab_head src (sl_next (slabs s x))) s else s)
        in if slab_head dest (caches s cache) = 0
           then (True, upd_cache cache (set_slab_head dest x)
                         (upd_slab x (\<lambda>n. n\<lparr>sl_prev := 0, sl_next := 0\<rparr>) s))
           else
             let head = slab_head dest (caches s cache);
                 s = upd_slab x (\<lambda>n. n\<lparr>sl_next := head, sl_prev := 0\<rparr>) s;
                 s = upd_slab head (\<lambda>h. h\<lparr>sl_prev := x\<rparr>) s
             in (True, upd_cache cache (set_slab_head dest x) s))"

definition slab_alloc_object :: "u64 \<Rightarrow> 'a kheap_scheme \<Rightarrow> u64 \<times> 'a kheap_scheme" where
  "slab_alloc_object x s =
     (if x = 0 then (0, s)
      else
        let sl = slabs s x; os = object_size (caches s (sl_cache sl)) in
        case find (\<lambda>i. \<not> BITMAP_TEST (sl_bitmap sl) i) [0..<unat (total_objects sl)] of
          None \<Rightarrow> (0, s)
        | Some i \<Rightarrow>
            let object = sl_buffer sl + of_nat i * os;
                s = upd_slab x (\<lambda>sl. sl\<lparr>sl_bitmap := BITMAP_SET (sl_bitmap sl) i,
                                       available_objects := available_objects sl - 1\<rparr>) s
            in (object, s\<lparr>bytes := memset_bytes object 0 (unat os) (bytes s)\<rparr>))"

definition in_slab :: "'a kheap_scheme \<Rightarrow> u64 \<Rightarrow> u64 \<Rightarrow> bool" where
  "in_slab s x object \<longleftrightarrow>
     (let sl = slabs s x in
      sl_buffer sl \<le> object \<and>
      object < sl_buffer sl + object_size (caches s (sl_cache sl)) * total_objects sl)"

partial_function (option) slab_free_loop ::
    "u64 \<Rightarrow> u64 \<Rightarrow> 'a kheap_scheme \<Rightarrow> (bool \<times> 'a kheap_scheme) option" where
  [code]: "slab_free_loop x object s =
     (if x = 0 then Some (False, s)
      else
        let sl = slabs s x;
            index = unat ((object - sl_buffer sl) div object_size (caches s (sl_cache sl)))
        in if in_slab s x object \<and> BITMAP_TEST (sl_bitmap sl) index
           then Some (True, upd_slab x (\<lambda>sl. sl\<lparr>sl_bitmap := BITMAP_CLEAR (sl_bitmap sl) index,
                                               available_objects := available_objects sl + 1\<rparr>) s)
           else slab_free_loop (sl_next sl) object s)"

definition slab_free_object :: "u64 \<Rightarrow> u64 \<Rightarrow> 'a kheap_scheme \<Rightarrow> (bool \<times> 'a kheap_scheme) option" where
  "slab_free_object x object s =
     (if x = 0 then Some (False, s)
      else do {
        let c = sl_cache (slabs s x);
        l \<leftarrow> spinlock_acquire (cache_lock (caches s c));
        let s = upd_cache c (\<lambda>ca. ca\<lparr>cache_lock := l\<rparr>) s;
        (ret, s) \<leftarrow> slab_free_loop x object s;
        let c = sl_cache (slabs s x);
        Some (ret, upd_cache c (\<lambda>ca. ca\<lparr>cache_lock := spinlock_release (cache_lock ca)\<rparr>) s)
      })"

text \<open>\<^verbatim>\<open>cache_alloc_object\<close>: after an object was taken the slab moves to the list it belongs to.\<close>

definition cache_settle :: "u64 \<Rightarrow> u64 \<Rightarrow> 'a kheap_scheme \<Rightarrow> 'a kheap_scheme" where
  "cache_settle cache x s =
     (if available_objects (slabs s x) = 0 then snd (cache_move_slab cache Full Partial x s)
      else if available_objects (slabs s x) = total_objects (slabs s x) - 1
      then snd (cache_move_slab cache Partial Empty x s)
      else s)"

definition cache_alloc_object :: "u64 \<Rightarrow> 'a kheap_scheme \<Rightarrow> (u64 \<times> 'a kheap_scheme) option" where
  "cache_alloc_object cache s = do {
     l \<leftarrow> spinlock_acquire (cache_lock (caches s cache));
     let s = upd_cache cache (\<lambda>c. c\<lparr>cache_lock := l\<rparr>) s;
     let c = caches s cache;
     let x = (if partial_slabs c \<noteq> 0 then partial_slabs c
              else if empty_slabs c \<noteq> 0 then empty_slabs c else 0);
     (x, s) \<leftarrow> (if x = 0 then cache_alloc_slab cache s else Some (x, s));
     let (addr, s) = slab_alloc_object x s;
     let s = cache_settle cache x s;
     Some (addr, upd_cache cache (\<lambda>c. c\<lparr>cache_lock := spinlock_release (cache_lock c)\<rparr>) s)
   }"

definition cache_free_object :: "u64 \<Rightarrow> u64 \<Rightarrow> 'a kheap_scheme \<Rightarrow> (bool \<times> 'a kheap_scheme) option" where
  "cache_free_object cache object s = do {
     (ret, s) \<leftarrow> slab_free_object (partial_slabs (caches s cache)) object s;
     if ret then Some (True, s)
     else do {
       (ret, s) \<leftarrow> slab_free_object (full_slabs (caches s cache)) object s;
       Some (ret, s)
     }
   }"

definition slab_pages :: "u64 \<Rightarrow> u64" where
  "slab_pages sz = DIV_CEIL (sz * OBJECTS_PER_SLAB + SIZEOF_SLAB + OBJECTS_PER_SLAB) PAGE_SIZE"

definition zero_cache :: cache where
  "zero_cache = \<lparr>cache_name = '''', object_size = 0, pages_per_slab = 0, empty_slabs = 0,
     partial_slabs = 0, full_slabs = 0, cache_lock = 0, cache_next = 0\<rparr>"

text \<open>\<^verbatim>\<open>slab_cache_create\<close>: the object was cleared when it was allocated, so the fields that are not set
  are zero.\<close>

definition slab_cache_create :: "string \<Rightarrow> u64 \<Rightarrow> 'a kheap_scheme \<Rightarrow> (u64 \<times> 'a kheap_scheme) option" where
  "slab_cache_create name sz s = do {
     (new_cache, s) \<leftarrow> cache_alloc_object (root_cache s) s;
     if new_cache = 0 then Some (0, s)
     else
       let s = upd_cache new_cache (\<lambda>_. zero_cache\<lparr>cache_name := name, object_size := sz,
                 pages_per_slab := slab_pages sz, cache_next := cache_list s\<rparr>) s
       in Some (new_cache, s\<lparr>cache_list := new_cache\<rparr>)
   }"

definition kmalloc_sizes :: "u64 list" where
  "kmalloc_sizes = [16, 24, 32, 48, 64, 92, 128, 256, 512, 1024, 2048]"

definition kmalloc_names :: "string list" where
  "kmalloc_names = [''kmalloc_16 cache'', ''kmalloc_24 cache'', ''kmalloc_32 cache'', ''kmalloc_48 cache'',
     ''kmalloc_64 cache'', ''kmalloc_92 cache'', ''kmalloc_128 cache'', ''kmalloc_256 cache'',
     ''kmalloc_512 cache'', ''kmalloc_1024 cache'', ''kmalloc_2048 cache'']"

fun create_caches :: "(string \<times> u64) list \<Rightarrow> 'a kheap_scheme \<Rightarrow> (u64 list \<times> 'a kheap_scheme) option" where
  "create_caches [] s = Some ([], s)"
| "create_caches ((name, sz) # rest) s = do {
     (c, s) \<leftarrow> slab_cache_create name sz s;
     (cs, s) \<leftarrow> create_caches rest s;
     Some (c # cs, s)
   }"

definition slab_init :: "'a kheap_scheme \<Rightarrow> 'a kheap_scheme option" where
  "slab_init s = do {
     let s = upd_cache (root_cache s) (\<lambda>_. zero_cache\<lparr>cache_name := ''cache cache'',
               object_size := SIZEOF_CACHE, pages_per_slab := slab_pages SIZEOF_CACHE\<rparr>) s;
     let s = s\<lparr>cache_list := root_cache s\<rparr>;
     (cs, s) \<leftarrow> create_caches (zip kmalloc_names kmalloc_sizes) s;
     Some (s\<lparr>kmalloc_caches := cs\<rparr>)
   }"

definition kmalloc :: "u64 \<Rightarrow> 'a kheap_scheme \<Rightarrow> (u64 \<times> 'a kheap_scheme) option" where
  "kmalloc sz s =
     (if sz = 0 then Some (0, s)
      else case find (\<lambda>c. sz \<le> object_size (caches s c)) (kmalloc_caches s) of
        Some c \<Rightarrow> cache_alloc_object c s
      | None \<Rightarrow> do {
          let page_count = DIV_CEIL sz PAGE_SIZE;
          (ret, p) \<leftarrow> pmm_alloc (page_count + 1) (vm_pmm s);
          let s = s\<lparr>vm_pmm := p\<rparr>;
          if ret = 0 then Some (0, s)
          else Some (ret + PAGE_SIZE,
                 s\<lparr>big_headers := (big_headers s)(ret := \<lparr>bh_magic = BIG_ALLOC_HEADER_MAGIC,
                      bh_page_count = page_count, bh_size = sz\<rparr>)\<rparr>)
        })"

fun free_in_caches :: "u64 list \<Rightarrow> u64 \<Rightarrow> 'a kheap_scheme \<Rightarrow> 'a kheap_scheme option" where
  "free_in_caches [] ptr s = Some s"
| "free_in_caches (c # cs) ptr s = do {
     (ok, s) \<leftarrow> cache_free_object c ptr s;
     if ok then Some s else free_in_caches cs ptr s
   }"

definition kfree :: "u64 \<Rightarrow> 'a kheap_scheme \<Rightarrow> 'a kheap_scheme option" where
  "kfree ptr s =
     (if ptr = 0 then Some s
      else if ptr AND 0xfff = 0 then do {
        let header = big_headers s (ptr - PAGE_SIZE);
        p \<leftarrow> pmm_free ptr (bh_page_count header + 1) (vm_pmm s);
        Some (s\<lparr>vm_pmm := p\<rparr>)
      }
      else free_in_caches (kmalloc_caches s) ptr s)"

text \<open>The search of \<^verbatim>\<open>krealloc\<close> along one list of slabs: is there a slab that holds the pointer, in a
  cache whose objects are large enough?\<close>

partial_function (option) slab_find_loop :: "u64 \<Rightarrow> u64 \<Rightarrow> bool \<Rightarrow> 'a kheap_scheme \<Rightarrow> bool option" where
  [code]: "slab_find_loop x ptr fits s =
     (if x = 0 then Some False
      else if in_slab s x ptr \<and> fits then Some True
      else slab_find_loop (sl_next (slabs s x)) ptr fits s)"

fun find_in_caches :: "u64 list \<Rightarrow> u64 \<Rightarrow> u64 \<Rightarrow> 'a kheap_scheme \<Rightarrow> bool option" where
  "find_in_caches [] ptr sz s = Some False"
| "find_in_caches (c # cs) ptr sz s = do {
     _ \<leftarrow> spinlock_acquire (cache_lock (caches s c));
     let fits = sz \<le> object_size (caches s c);
     found \<leftarrow> slab_find_loop (partial_slabs (caches s c)) ptr fits s;
     if found then Some True
     else do {
       found \<leftarrow> slab_find_loop (full_slabs (caches s c)) ptr fits s;
       if found then Some True else find_in_caches cs ptr sz s
     }
   }"

definition krealloc :: "u64 \<Rightarrow> u64 \<Rightarrow> 'a kheap_scheme \<Rightarrow> (u64 \<times> 'a kheap_scheme) option" where
  "krealloc ptr sz s =
     (if ptr = 0 then kmalloc sz s
      else if ptr AND 0xfff = 0 then
        let h = ptr - PAGE_SIZE; header = big_headers s h in
        if DIV_CEIL (bh_size header) PAGE_SIZE = DIV_CEIL sz PAGE_SIZE
        then Some (ptr, s\<lparr>big_headers := (big_headers s)(h := header\<lparr>bh_size := sz\<rparr>)\<rparr>)
        else do {
          (new_ptr, s) \<leftarrow> kmalloc sz s;
          if new_ptr = 0 then Some (0, s)
          else do {
            let header = big_headers s h;
            let n = (if sz < bh_size header then sz else bh_size header);
            let s = s\<lparr>bytes := memcpy_bytes new_ptr ptr (unat n) (bytes s)\<rparr>;
            s \<leftarrow> kfree ptr s;
            Some (new_ptr, s)
          }
        }
      else do {
        found \<leftarrow> find_in_caches (kmalloc_caches s) ptr sz s;
        if found then Some (ptr, s)
        else do {
          (new_ptr, s) \<leftarrow> kmalloc sz s;
          let s = (if new_ptr \<noteq> 0 then s\<lparr>bytes := memcpy_bytes new_ptr ptr (unat sz) (bytes s)\<rparr> else s);
          s \<leftarrow> kfree ptr s;
          Some (new_ptr, s)
        }
      })"

section \<open>Linked lists of slabs\<close>

fun dlist :: "(u64 \<Rightarrow> slab) \<Rightarrow> u64 \<Rightarrow> u64 \<Rightarrow> u64 list \<Rightarrow> bool" where
  "dlist h prev a [] \<longleftrightarrow> a = 0"
| "dlist h prev a (x # xs) \<longleftrightarrow> a = x \<and> x \<noteq> 0 \<and> sl_prev (h x) = prev \<and> dlist h x (sl_next (h x)) xs"

lemma dlist_cong:
  assumes "\<And>x. x \<in> set xs \<Longrightarrow> sl_prev (h' x) = sl_prev (h x) \<and> sl_next (h' x) = sl_next (h x)"
  shows "dlist h' p a xs = dlist h p a xs"
  using assms by (induction xs arbitrary: p a) auto

lemma dlist_upd_other: "x \<notin> set xs \<Longrightarrow> dlist (h(x := v)) p a xs = dlist h p a xs"
  by (rule dlist_cong) auto

lemma dlist_head: "dlist h p a xs \<Longrightarrow> a = (case xs of [] \<Rightarrow> 0 | x # _ \<Rightarrow> x)"
  by (cases xs) auto

lemma dlist_nonzero: "dlist h p a xs \<Longrightarrow> 0 \<notin> set xs"
  by (induction xs arbitrary: p a) auto

text \<open>Making \<open>q\<close> the predecessor of the first element.\<close>

lemma dlist_set_prev:
  assumes "dlist h p a (x # xs)" "distinct (x # xs)"
  shows "dlist (h(x := (h x)\<lparr>sl_prev := q\<rparr>)) q a (x # xs)"
  using assms by (auto simp: dlist_upd_other)

section \<open>The invariant\<close>

text \<open>The objects of a slab at address \<open>x\<close> start 576 bytes into it: behind the header and the bitmap,
  aligned to 16 bytes.\<close>

definition free_slots :: "slab \<Rightarrow> nat set" where
  "free_slots sl = {i. i < 512 \<and> \<not> BITMAP_TEST (sl_bitmap sl) i}"

definition obj_addr :: "u64 \<Rightarrow> u64 \<Rightarrow> nat \<Rightarrow> u64" where
  "obj_addr os x i = x + 576 + of_nat i * os"

definition size_ok :: "u64 \<Rightarrow> bool" where
  "size_ok os \<longleftrightarrow> 0 < os \<and> os \<le> 0x10000"

text \<open>A slab of cache \<open>c\<close> below the cursor \<open>cur\<close> of the page allocator.\<close>

definition slab_ok :: "(u64 \<Rightarrow> slab) \<Rightarrow> u64 \<Rightarrow> nat \<Rightarrow> u64 \<Rightarrow> u64 \<Rightarrow> bool" where
  "slab_ok h os cur c x \<longleftrightarrow>
     sl_cache (h x) = c \<and> total_objects (h x) = 512 \<and>
     available_objects (h x) = of_nat (card (free_slots (h x))) \<and> sl_buffer (h x) = x + 576 \<and>
     0 < unat x \<and> 4096 dvd unat x \<and> unat x + 4096 * unat (slab_pages os) \<le> 4096 * cur \<and> cur < 2 ^ 51"

definition slab_region :: "u64 \<Rightarrow> u64 \<Rightarrow> nat set" where
  "slab_region os x = {unat x..<unat x + 4096 * unat (slab_pages os)}"

definition cache_rep :: "(u64 \<Rightarrow> slab) \<Rightarrow> (u64 \<Rightarrow> cache) \<Rightarrow> nat \<Rightarrow> u64 \<Rightarrow> u64 list \<times> u64 list \<Rightarrow> bool" where
  "cache_rep h ca cur c L \<longleftrightarrow>
     cache_lock (ca c) = 0 \<and> empty_slabs (ca c) = 0 \<and> size_ok (object_size (ca c)) \<and>
     pages_per_slab (ca c) = slab_pages (object_size (ca c)) \<and>
     dlist h 0 (partial_slabs (ca c)) (fst L) \<and> dlist h 0 (full_slabs (ca c)) (snd L) \<and>
     distinct (fst L @ snd L) \<and>
     (\<forall>x\<in>set (fst L @ snd L). slab_ok h (object_size (ca c)) cur c x) \<and>
     (\<forall>x\<in>set (fst L). free_slots (h x) \<noteq> {})"

text \<open>The caches at the addresses \<open>C\<close>, with the lists \<open>L c\<close> of partial and full slabs of each: no two
  slabs overlap.\<close>

definition all_slabs :: "(u64 \<Rightarrow> u64 list \<times> u64 list) \<Rightarrow> u64 set \<Rightarrow> (u64 \<times> u64) set" where
  "all_slabs L C = {(c, x). c \<in> C \<and> x \<in> set (fst (L c) @ snd (L c))}"

definition heap_ok :: "'a kheap_scheme \<Rightarrow> u64 set \<Rightarrow> (u64 \<Rightarrow> u64 list \<times> u64 list) \<Rightarrow> bool" where
  "heap_ok s C L \<longleftrightarrow>
     (\<forall>c\<in>C. cache_rep (slabs s) (caches s) (last_used_index (vm_pmm s)) c (L c)) \<and>
     (\<forall>(c, x)\<in>all_slabs L C. \<forall>(d, y)\<in>all_slabs L C. x \<noteq> y \<longrightarrow>
        slab_region (object_size (caches s c)) x \<inter> slab_region (object_size (caches s d)) y = {})"

definition live :: "'a kheap_scheme \<Rightarrow> u64 set \<Rightarrow> (u64 \<Rightarrow> u64 list \<times> u64 list) \<Rightarrow> (u64 \<times> u64) set" where
  "live s C L = {(c, obj_addr (object_size (caches s c)) x i) | c x i.
     (c, x) \<in> all_slabs L C \<and> i < 512 \<and> BITMAP_TEST (sl_bitmap (slabs s x)) i}"

section \<open>Sizes and addresses\<close>

lemma unat_slab_pages:
  assumes "size_ok os"
  shows "unat (slab_pages os) = (unat os * 512 + 568 + 4095) div 4096"
proof -
  have os: "unat os \<le> 65536" using assms by (simp add: size_ok_def word_le_nat_alt)
  have "unat (os * 512) = unat os * 512" using os by (simp add: unat_word_ariths)
  then have "unat (os * 512 + 56 + 512) = unat os * 512 + 568" using os by (simp add: unat_word_ariths)
  then show ?thesis
    using os by (subst slab_pages_def, subst unat_DIV_CEIL)
      (simp_all add: OBJECTS_PER_SLAB_def SIZEOF_SLAB_def PAGE_SIZE_def)
qed

text \<open>All 512 objects fit behind the header: the rounding of the buffer to 16 bytes, which
  \<^verbatim>\<open>pages_per_slab\<close> does not count, never matters.\<close>

lemma objects_fit:
  assumes "size_ok os" "i < 512"
  shows "576 + i * unat os + unat os \<le> 4096 * unat (slab_pages os)"
proof -
  have "i * unat os + unat os \<le> 512 * unat os"
    using assms(2) mult_le_mono1 [of "Suc i" 512 "unat os"] by simp
  moreover have fit: "576 + 512 * u \<le> 4096 * ((u * 512 + 568 + 4095) div 4096)" for u :: nat
  proof -
    have "(u * 512 + 568 + 4095) div 4096 = ((u * 512 + 4663) div 512) div 8"
      by (simp add: div_mult2_eq [symmetric])
    also have "(u * 512 + 4663) div 512 = u + 9" by simp
    finally show ?thesis by simp
  qed
  ultimately show ?thesis using unat_slab_pages [OF assms(1)] fit [of "unat os"] by linarith
qed

lemma unat_obj_addr:
  assumes "size_ok os" "i < 512" "unat x + 4096 * unat (slab_pages os) \<le> 4096 * cur" "cur < 2 ^ 51"
  shows "unat (obj_addr os x i) = unat x + 576 + i * unat os"
proof -
  have fit: "576 + i * unat os + unat os \<le> 4096 * unat (slab_pages os)" by (rule objects_fit [OF assms(1,2)])
  have "unat (of_nat i * os) = i * unat os"
    using fit assms by (subst unat_mult_lem [THEN iffD1]) (simp_all add: unat_of_nat_u64)
  moreover have "unat (x + 576) = unat x + 576"
    using fit assms by (subst unat_add_lem [THEN iffD1]) simp_all
  ultimately show ?thesis
    using fit assms unfolding obj_addr_def by (subst unat_add_lem [THEN iffD1]) simp_all
qed

lemma obj_in_region:
  assumes "slab_ok h os cur c x" "size_ok os" "i < 512"
  shows "{unat (obj_addr os x i)..<unat (obj_addr os x i) + unat os} \<subseteq> slab_region os x"
    and "unat (obj_addr os x i) = unat x + 576 + i * unat os"
proof -
  show "unat (obj_addr os x i) = unat x + 576 + i * unat os"
    using assms by (intro unat_obj_addr) (auto simp: slab_ok_def)
  then show "{unat (obj_addr os x i)..<unat (obj_addr os x i) + unat os} \<subseteq> slab_region os x"
    using objects_fit [OF assms(2,3)] by (auto simp: slab_region_def)
qed

lemma obj_addr_neq_0:
  assumes "slab_ok h os cur c x" "size_ok os" "i < 512"
  shows "obj_addr os x i \<noteq> 0"
  using obj_in_region(2) [OF assms] by (auto simp: unat_eq_zero [symmetric])

lemma slab_below:
  assumes "slab_ok h os cur c x" "size_ok os"
  shows "unat x < 4096 * cur"
  using objects_fit [OF assms(2), of 0] assms(1) by (simp add: slab_ok_def)

text \<open>An object is found in its own slab at its own index, and in no other slab.\<close>

lemma obj_index:
  assumes "slab_ok h os cur c x" "size_ok os" "i < 512"
  shows "unat ((obj_addr os x i - (x + 576)) div os) = i"
proof -
  have os: "0 < unat os" using assms(2) by (auto simp: size_ok_def word_less_nat_alt)
  have m: "unat (of_nat i * os) = i * unat os"
    using objects_fit [OF assms(2,3)] assms
    by (subst unat_mult_lem [THEN iffD1]) (auto simp: unat_of_nat_u64 slab_ok_def)
  have "obj_addr os x i - (x + 576) = of_nat i * os" by (simp add: obj_addr_def)
  then show ?thesis
    using os by (simp only: unat_div m) simp
qed

lemma in_slab_iff:
  assumes "slab_ok (slabs s) os cur c x" "size_ok os" "object_size (caches s c) = os"
  shows "in_slab s x a \<longleftrightarrow> unat x + 576 \<le> unat a \<and> unat a < unat x + 576 + 512 * unat os"
proof -
  have b: "unat (x + 576) = unat x + 576" and o: "unat (os * 512) = unat os * 512"
    and e: "unat (x + 576 + os * 512) = unat x + 576 + unat os * 512"
  proof -
    have f: "576 + 511 * unat os + unat os \<le> 4096 * unat (slab_pages os)"
      using objects_fit [OF assms(2), of 511] by simp
    have lim: "unat x + 4096 * unat (slab_pages os) < 2 ^ 63" using assms(1) by (auto simp: slab_ok_def)
    show b: "unat (x + 576) = unat x + 576" using f lim by (subst unat_add_lem [THEN iffD1]) simp_all
    show o: "unat (os * 512) = unat os * 512" using f lim by (subst unat_mult_lem [THEN iffD1]) simp_all
    show "unat (x + 576 + os * 512) = unat x + 576 + unat os * 512"
      using f lim by (subst unat_add_lem [THEN iffD1]) (simp_all add: b o)
  qed
  show ?thesis
    using assms(1,3) by (simp add: in_slab_def Let_def slab_ok_def word_le_nat_alt word_less_nat_alt b e mult.commute)
qed

section \<open>Allocation from a slab\<close>

lemma free_slots_set:
  "i < 512 \<Longrightarrow> free_slots (sl\<lparr>sl_bitmap := BITMAP_SET (sl_bitmap sl) i, available_objects := a\<rparr>) =
     free_slots sl - {i}"
  by (auto simp: free_slots_def bitmap_simps)

lemma finite_free_slots [simp]: "finite (free_slots sl)"
  by (simp add: free_slots_def)

lemma card_free_slots: "card (free_slots sl) \<le> 512"
  using card_mono [of "{..<512}" "free_slots sl"] by (auto simp: free_slots_def)

definition take_slot :: "nat \<Rightarrow> slab \<Rightarrow> slab" where
  "take_slot i sl = sl\<lparr>sl_bitmap := BITMAP_SET (sl_bitmap sl) i, available_objects := available_objects sl - 1\<rparr>"

lemma free_slots_take: "i < 512 \<Longrightarrow> free_slots (take_slot i sl) = free_slots sl - {i}"
  by (simp add: take_slot_def free_slots_set)

lemma take_slot_available:
  assumes "available_objects sl = of_nat (card (free_slots sl))" "i \<in> free_slots sl"
  shows "available_objects (take_slot i sl) = of_nat (card (free_slots (take_slot i sl)))"
    and "available_objects (take_slot i sl) = 0 \<longleftrightarrow> free_slots (take_slot i sl) = {}"
    and "available_objects (take_slot i sl) = 511 \<longleftrightarrow> card (free_slots sl) = 512"
proof -
  have i: "i < 512" using assms(2) by (simp add: free_slots_def)
  have c: "card (free_slots sl) = Suc (card (free_slots (take_slot i sl)))"
    using card.remove [OF finite_free_slots assms(2)] by (simp add: free_slots_take [OF i])
  show a: "available_objects (take_slot i sl) = of_nat (card (free_slots (take_slot i sl)))"
  proof -
    have "available_objects (take_slot i sl) = available_objects sl - 1" by (simp add: take_slot_def)
    then show ?thesis using assms(1) c by simp
  qed
  have le: "card (free_slots (take_slot i sl)) \<le> 511" using c card_free_slots [of sl] by simp
  then have u: "unat (available_objects (take_slot i sl)) = card (free_slots (take_slot i sl))"
    by (simp add: a unat_of_nat_u64)
  show "available_objects (take_slot i sl) = 0 \<longleftrightarrow> free_slots (take_slot i sl) = {}"
    using u by (auto simp: unat_eq_zero [symmetric])
  show "available_objects (take_slot i sl) = 511 \<longleftrightarrow> card (free_slots sl) = 512"
    using u c by (auto simp: word_unat_eq_iff)
qed

lemma slab_alloc_object_ok:
  assumes "slab_ok (slabs s) os cur c x" "object_size (caches s c) = os" "free_slots (slabs s x) \<noteq> {}"
  shows "\<exists>i b. i \<in> free_slots (slabs s x) \<and>
    slab_alloc_object x s = (obj_addr os x i, (upd_slab x (take_slot i) s)\<lparr>bytes := b\<rparr>)"
proof -
  have sl: "total_objects (slabs s x) = 512" "x \<noteq> 0" "sl_cache (slabs s x) = c" "sl_buffer (slabs s x) = x + 576"
    using assms(1) by (auto simp: slab_ok_def unat_gt_0)
  obtain j where "j < 512" "\<not> BITMAP_TEST (sl_bitmap (slabs s x)) j"
    using assms(3) by (auto simp: free_slots_def)
  then obtain i where i: "find (\<lambda>i. \<not> BITMAP_TEST (sl_bitmap (slabs s x)) i) [0..<512] = Some i"
    by (cases "find (\<lambda>i. \<not> BITMAP_TEST (sl_bitmap (slabs s x)) i) [0..<512]") (auto simp: find_None_iff)
  then have "i \<in> free_slots (slabs s x)" by (auto simp: find_Some_iff free_slots_def)
  then show ?thesis
    using i sl assms(2) unfolding slab_alloc_object_def take_slot_def
    by (auto simp: Let_def obj_addr_def)
qed

section \<open>Moving the first slab of a list\<close>

lemma slab_head_set [simp]:
  "slab_head l (set_slab_head l' a c) = (if l = l' then a else slab_head l c)"
  by (cases l; cases l') auto

lemma set_slab_head_fields [simp]:
  "object_size (set_slab_head l a c) = object_size c" "pages_per_slab (set_slab_head l a c) = pages_per_slab c"
  "cache_lock (set_slab_head l a c) = cache_lock c"
  by (cases l; simp)+

text \<open>States that differ only in the links of slabs and in the list heads of the cache \<open>c\<close>.\<close>

definition same_data :: "slab \<Rightarrow> slab \<Rightarrow> bool" where
  "same_data a b \<longleftrightarrow>
     sl_cache a = sl_cache b \<and> available_objects a = available_objects b \<and>
     total_objects a = total_objects b \<and> sl_bitmap a = sl_bitmap b \<and> sl_buffer a = sl_buffer b"

definition same_but_links :: "u64 \<Rightarrow> 'a kheap_scheme \<Rightarrow> 'a kheap_scheme \<Rightarrow> bool" where
  "same_but_links c s s' \<longleftrightarrow>
     (\<forall>y. same_data (slabs s' y) (slabs s y)) \<and>
     (\<forall>d. d \<noteq> c \<longrightarrow> caches s' d = caches s d) \<and> vm_pmm s' = vm_pmm s \<and>
     object_size (caches s' c) = object_size (caches s c) \<and>
     pages_per_slab (caches s' c) = pages_per_slab (caches s c) \<and>
     cache_lock (caches s' c) = cache_lock (caches s c)"

lemma cache_move_head:
  assumes src: "dlist (slabs s) 0 (slab_head src (caches s c)) (x # xs)"
    and dest: "dlist (slabs s) 0 (slab_head dest (caches s c)) ys"
    and dist: "distinct (x # xs @ ys)" and ne: "src \<noteq> dest"
  shows "\<exists>s'. cache_move_slab c dest src x s = (True, s') \<and>
    dlist (slabs s') 0 (slab_head src (caches s' c)) xs \<and>
    dlist (slabs s') 0 (slab_head dest (caches s' c)) (x # ys) \<and>
    (\<forall>l. l \<noteq> src \<and> l \<noteq> dest \<longrightarrow> slab_head l (caches s' c) = slab_head l (caches s c)) \<and>
    (\<forall>y. y \<notin> set (x # xs @ ys) \<longrightarrow> slabs s' y = slabs s y) \<and> same_but_links c s s'"
proof -
  let ?h = "slabs s"
  have x: "x \<noteq> 0" "sl_prev (?h x) = 0" "slab_head src (caches s c) = x" using src by auto
  define h1 where "h1 = (case xs of [] \<Rightarrow> ?h | y # _ \<Rightarrow> ?h(y := (?h y)\<lparr>sl_prev := 0\<rparr>))"
  define h2 where "h2 = (case ys of [] \<Rightarrow> h1(x := (h1 x)\<lparr>sl_prev := 0, sl_next := 0\<rparr>)
    | y # _ \<Rightarrow> h1(x := (h1 x)\<lparr>sl_next := y, sl_prev := 0\<rparr>, y := (h1 y)\<lparr>sl_prev := x\<rparr>))"
  define ca where "ca = (caches s)(c := set_slab_head dest x
    (set_slab_head src (sl_next (?h x)) (caches s c)))"
  have nx: "sl_next (?h x) = (case xs of [] \<Rightarrow> 0 | y # _ \<Rightarrow> y)"
    using src by (auto dest: dlist_head)
  have dh: "slab_head dest (caches s c) = (case ys of [] \<Rightarrow> 0 | y # _ \<Rightarrow> y)" by (rule dlist_head [OF dest])
  have mv: "cache_move_slab c dest src x s = (True, s\<lparr>slabs := h2, caches := ca\<rparr>)"
    using x nx dh ne dist src dest
    by (cases xs; cases ys)
      (auto simp: cache_move_slab_def Let_def upd_slab_def upd_cache_def h2_def h1_def ca_def)
  have "dlist h2 0 (sl_next (?h x)) xs"
    using src dist unfolding h2_def h1_def
    by (cases xs; cases ys) (auto simp: dlist_upd_other)
  moreover have "dlist h2 0 x (x # ys)"
    using x dest dist unfolding h2_def h1_def
    by (cases xs; cases ys) (auto simp: dlist_upd_other)
  moreover have "h2 y = ?h y" if "y \<notin> set (x # xs @ ys)" for y
    using that by (cases xs; cases ys) (auto simp: h2_def h1_def)
  moreover have "same_data (h2 y) (?h y)" for y
    using dist by (cases xs; cases ys) (auto simp: h2_def h1_def same_data_def)
  ultimately show ?thesis
    using mv ne by (auto simp: same_but_links_def ca_def)
qed

section \<open>Allocation from a cache\<close>

lemma slab_ok_mono:
  assumes "slab_ok h os cur c x" "same_data (h' x) (h x)" "cur \<le> cur'" "cur' < 2 ^ 51"
  shows "slab_ok h' os cur' c x"
proof -
  have "free_slots (h' x) = free_slots (h x)" using assms(2) by (simp add: free_slots_def same_data_def)
  then show ?thesis using assms by (auto simp: slab_ok_def same_data_def)
qed

lemma same_data_refl [simp]: "same_data a a"
  by (simp add: same_data_def)

lemma heap_okD:
  assumes "heap_ok s C L" "(c, x) \<in> all_slabs L C"
  shows "slab_ok (slabs s) (object_size (caches s c)) (last_used_index (vm_pmm s)) c x"
    "size_ok (object_size (caches s c))" "x \<noteq> 0"
proof -
  have c: "c \<in> C" "x \<in> set (fst (L c) @ snd (L c))" using assms(2) by (auto simp: all_slabs_def)
  then have r: "cache_rep (slabs s) (caches s) (last_used_index (vm_pmm s)) c (L c)"
    using assms(1) by (simp add: heap_ok_def)
  show sl: "slab_ok (slabs s) (object_size (caches s c)) (last_used_index (vm_pmm s)) c x"
    using r c(2) unfolding cache_rep_def by blast
  show "size_ok (object_size (caches s c))" using r by (simp add: cache_rep_def)
  show "x \<noteq> 0" using sl by (auto simp: slab_ok_def)
qed

lemma all_slabs_owner:
  "heap_ok s C L \<Longrightarrow> (c, x) \<in> all_slabs L C \<Longrightarrow> (d, x) \<in> all_slabs L C \<Longrightarrow> c = d"
  using heap_okD(1) [of s C L c x] heap_okD(1) [of s C L d x] by (simp add: slab_ok_def)

lemma heap_ok_disjoint:
  "heap_ok s C L \<Longrightarrow> (c, x) \<in> all_slabs L C \<Longrightarrow> (d, y) \<in> all_slabs L C \<Longrightarrow> x \<noteq> y \<Longrightarrow>
   slab_region (object_size (caches s c)) x \<inter> slab_region (object_size (caches s d)) y = {}"
  unfolding heap_ok_def by blast

text \<open>Objects at different places have different addresses.\<close>

lemma obj_addr_inj:
  assumes "slab_ok h os cur c x" "slab_ok h' os cur' c' y" "size_ok os" "i < 512" "j < 512"
    and "x \<noteq> y \<Longrightarrow> slab_region os x \<inter> slab_region os y = {}"
    and "obj_addr os x i = obj_addr os y j"
  shows "x = y \<and> i = j"
proof -
  have os: "0 < unat os" using assms(3) by (auto simp: size_ok_def word_less_nat_alt)
  note ox = obj_in_region [OF assms(1,3,4)] and oy = obj_in_region [OF assms(2,3,5)]
  have "unat (obj_addr os x i) \<in> slab_region os x" "unat (obj_addr os x i) \<in> slab_region os y"
    using ox(1) oy(1) os assms(7) by auto
  then have xy: "x = y" using assms(6) by blast
  then have "i * unat os = j * unat os" using ox(2) oy(2) assms(7) by auto
  then show ?thesis using os xy by simp
qed

lemma heap_ok_alloc_step:
  assumes ok: "heap_ok s C L" and c: "c \<in> C" and os: "os = object_size (caches s c)"
    and ca: "\<And>d. d \<noteq> c \<Longrightarrow> caches s' d = caches s d" and os': "object_size (caches s' c) = os"
    and cur: "last_used_index (vm_pmm s) \<le> last_used_index (vm_pmm s')"
    and rep: "cache_rep (slabs s') (caches s') (last_used_index (vm_pmm s')) c P"
    and same: "\<And>d y. (d, y) \<in> all_slabs L C \<Longrightarrow> d \<noteq> c \<Longrightarrow> slabs s' y = slabs s y"
    and P: "set (fst P @ snd P) = insert x (set (fst (L c) @ snd (L c)))"
    and bm: "\<And>y. (c, y) \<in> all_slabs L C \<Longrightarrow> y \<noteq> x \<Longrightarrow> sl_bitmap (slabs s' y) = sl_bitmap (slabs s y)"
    and x: "sl_bitmap (slabs s' x) = BITMAP_SET b i" "i < 512" "\<not> BITMAP_TEST b i"
    and old: "(c, x) \<in> all_slabs L C \<and> b = sl_bitmap (slabs s x) \<or>
       (\<forall>j. \<not> BITMAP_TEST b j) \<and> 4096 * last_used_index (vm_pmm s) \<le> unat x"
  defines "L' \<equiv> L(c := P)"
  shows "heap_ok s' C L'"
    and "live s' C L' = insert (c, obj_addr os x i) (live s C L)"
    and "(c, obj_addr os x i) \<notin> live s C L"
proof -
  let ?cur = "last_used_index (vm_pmm s)" and ?cur' = "last_used_index (vm_pmm s')"
  have all: "all_slabs L' C = insert (c, x) (all_slabs L C)"
    using P c by (auto simp: all_slabs_def L'_def split: if_splits)
  have obs: "object_size (caches s' d) = object_size (caches s d)" for d
    using ca [of d] os os' by (cases "d = c") auto
  have lim: "?cur' < 2 ^ 51" and okx: "slab_ok (slabs s') os ?cur' c x" and sz: "size_ok os"
    using rep P os' by (auto simp: cache_rep_def slab_ok_def)
  have rep': "cache_rep (slabs s') (caches s') ?cur' d (L' d)" if d: "d \<in> C" for d
  proof (cases "d = c")
    case True
    then show ?thesis using rep by (simp add: L'_def)
  next
    case False
    have r: "cache_rep (slabs s) (caches s) ?cur d (L d)" using ok d by (auto simp: heap_ok_def)
    have sl: "slabs s' y = slabs s y" if "y \<in> set (fst (L d) @ snd (L d))" for y
      using same [of d y] d False that by (auto simp: all_slabs_def)
    have "dlist (slabs s') 0 a (fst (L d)) = dlist (slabs s) 0 a (fst (L d))"
      "dlist (slabs s') 0 a (snd (L d)) = dlist (slabs s) 0 a (snd (L d))" for a
      by (rule dlist_cong; simp add: sl)+
    then show ?thesis
      using r False sl lim cur unfolding cache_rep_def ca [OF False]
      by (auto simp: L'_def intro: slab_ok_mono)
  qed
  have disj_new: "slab_region os x \<inter> slab_region (object_size (caches s d)) y = {}"
    if "(d, y) \<in> all_slabs L C" "y \<noteq> x" for d y
  proof (cases "(c, x) \<in> all_slabs L C")
    case True
    then show ?thesis using heap_ok_disjoint [OF ok True that(1)] that(2) os by auto
  next
    case False
    then show ?thesis using old heap_okD(1) [OF ok that(1)] by (auto simp: slab_region_def slab_ok_def)
  qed
  have "slab_region (object_size (caches s' d)) y \<inter> slab_region (object_size (caches s' e)) z = {}"
    if "(d, y) \<in> all_slabs L' C" "(e, z) \<in> all_slabs L' C" "y \<noteq> z" for d e y z
    using that heap_ok_disjoint [OF ok, of d y e z] disj_new [of d y] disj_new [of e z] os
    unfolding all obs by (auto simp: Int_commute)
  then show ok': "heap_ok s' C L'" using rep' unfolding heap_ok_def by blast
  have test: "BITMAP_TEST (sl_bitmap (slabs s' y)) j \<longleftrightarrow>
      (d, y) = (c, x) \<and> j = i \<or> (d, y) \<in> all_slabs L C \<and> BITMAP_TEST (sl_bitmap (slabs s y)) j"
    if dy: "(d, y) \<in> all_slabs L' C" for d y j
  proof (cases "(d, y) = (c, x)")
    case True
    then show ?thesis
      using x(1) old slab_below [OF heap_okD(1,2) [OF ok, of c x]] by (auto simp: bitmap_simps)
  next
    case False
    then have "(d, y) \<in> all_slabs L C" using dy all by auto
    moreover have "y \<noteq> x" if "d = c" using that False by auto
    ultimately show ?thesis using same [of d y] bm [of y] False by (cases "d = c") auto
  qed
  have key: "(d, y) \<in> all_slabs L' C \<and> j < 512 \<and> BITMAP_TEST (sl_bitmap (slabs s' y)) j \<longleftrightarrow>
      (d = c \<and> y = x \<and> j = i) \<or>
      ((d, y) \<in> all_slabs L C \<and> j < 512 \<and> BITMAP_TEST (sl_bitmap (slabs s y)) j)" for d y j
    using test [of d y j] all x(2) by auto
  show "live s' C L' = insert (c, obj_addr os x i) (live s C L)"
    unfolding live_def obs key using os by auto
  show "(c, obj_addr os x i) \<notin> live s C L"
  proof
    assume "(c, obj_addr os x i) \<in> live s C L"
    then obtain y j where y: "(c, y) \<in> all_slabs L C" "j < 512" "BITMAP_TEST (sl_bitmap (slabs s y)) j"
        "obj_addr os x i = obj_addr os y j"
      using os by (auto simp: live_def)
    have "slab_ok (slabs s) os ?cur c y" using heap_okD(1) [OF ok y(1)] os by simp
    from obj_addr_inj [OF okx this sz x(2) y(2) _ y(4)] have "x = y \<and> i = j"
      using disj_new [OF y(1)] os by auto
    then show False using old y x(3) slab_below [OF heap_okD(1,2) [OF ok y(1)]] by auto
  qed
qed

text \<open>Taking an object from the first partial slab.\<close>

lemma alloc_from_partial:
  assumes ok: "heap_ok s C L" and c: "c \<in> C" and L: "fst (L c) = x # xs"
  shows "\<exists>a s' L'. cache_alloc_object c s = Some (a, s') \<and> heap_ok s' C L' \<and> (c, a) \<notin> live s C L \<and>
    live s' C L' = insert (c, a) (live s C L) \<and> vm_pmm s' = vm_pmm s \<and> a \<noteq> 0 \<and>
    (\<forall>d. object_size (caches s' d) = object_size (caches s d))"
proof -
  define os where "os = object_size (caches s c)"
  let ?h = "slabs s" and ?cur = "last_used_index (vm_pmm s)" and ?ys = "snd (L c)"
  have r: "cache_rep ?h (caches s) ?cur c (L c)" using ok c by (simp add: heap_ok_def)
  note r' = r [unfolded cache_rep_def L, folded os_def]
  have x: "slab_ok ?h os ?cur c x" "free_slots (?h x) \<noteq> {}" "partial_slabs (caches s c) = x" "x \<noteq> 0"
    using r' by (auto simp: slab_ok_def)
  define s1 where "s1 = upd_cache c (\<lambda>ca. ca\<lparr>cache_lock := 1\<rparr>) s"
  obtain i b where i: "i \<in> free_slots (?h x)"
      "slab_alloc_object x s1 = (obj_addr os x i, (upd_slab x (take_slot i) s1)\<lparr>bytes := b\<rparr>)"
    using slab_alloc_object_ok [of s1 os ?cur c x] x by (auto simp: s1_def upd_cache_def os_def)
  define s2 where "s2 = (upd_slab x (take_slot i) s1)\<lparr>bytes := b\<rparr>"
  have i': "i < 512" "\<not> BITMAP_TEST (sl_bitmap (?h x)) i" using i(1) by (auto simp: free_slots_def)
  note av = take_slot_available [OF _ i(1)]
  have avx: "available_objects (?h x) = of_nat (card (free_slots (?h x)))" using x(1) by (simp add: slab_ok_def)
  have h2: "slabs s2 = ?h(x := take_slot i (?h x))" by (simp add: s2_def upd_slab_def s1_def upd_cache_def)
  have c2: "caches s2 = (caches s)(c := (caches s c)\<lparr>cache_lock := 1\<rparr>)" "vm_pmm s2 = vm_pmm s"
    by (simp_all add: s2_def upd_slab_def s1_def upd_cache_def)
  have ok2: "slab_ok (slabs s2) os ?cur c y" if "y \<in> set (x # xs @ ?ys)" for y
  proof (cases "y = x")
    case True
    have "free_slots (take_slot i (?h x)) = free_slots (?h x) - {i}" by (rule free_slots_take [OF i'(1)])
    then show ?thesis
      using x(1) av(1) [OF avx] True by (simp add: slab_ok_def h2 take_slot_def)
  next
    case False
    then show ?thesis using r' that by (auto simp: slab_ok_def h2)
  qed
  have links2: "dlist (slabs s2) p a zs = dlist ?h p a zs" for p a zs
    by (rule dlist_cong) (simp add: h2 take_slot_def)
  have "\<exists>s3 P. cache_settle c x s2 = s3 \<and> same_but_links c s2 s3 \<and>
      empty_slabs (caches s3 c) = 0 \<and>
      dlist (slabs s3) 0 (partial_slabs (caches s3 c)) (fst P) \<and>
      dlist (slabs s3) 0 (full_slabs (caches s3 c)) (snd P) \<and>
      mset (fst P @ snd P) = mset (x # xs @ ?ys) \<and>
      (\<forall>y. y \<notin> set (x # xs @ ?ys) \<longrightarrow> slabs s3 y = slabs s2 y) \<and>
      (\<forall>y\<in>set (fst P). free_slots (slabs s2 y) \<noteq> {})"
  proof (cases "available_objects (slabs s2 x) = 0")
    case True
    have lists: "dlist (slabs s2) 0 (slab_head Partial (caches s2 c)) (x # xs)"
      "dlist (slabs s2) 0 (slab_head Full (caches s2 c)) ?ys"
      using r' by (simp_all add: c2 links2 del: dlist.simps)
    have dist: "distinct (x # xs @ ?ys)" using r' by auto
    obtain s3 where s3: "cache_move_slab c Full Partial x s2 = (True, s3)"
        "dlist (slabs s3) 0 (slab_head Partial (caches s3 c)) xs"
        "dlist (slabs s3) 0 (slab_head Full (caches s3 c)) (x # ?ys)"
        "\<forall>l. l \<noteq> Partial \<and> l \<noteq> Full \<longrightarrow> slab_head l (caches s3 c) = slab_head l (caches s2 c)"
        "\<forall>y. y \<notin> set (x # xs @ ?ys) \<longrightarrow> slabs s3 y = slabs s2 y" "same_but_links c s2 s3"
      using cache_move_head [OF lists dist] by blast
    have "slab_head Empty (caches s3 c) = slab_head Empty (caches s2 c)" using s3(4) by blast
    moreover have "\<forall>y\<in>set xs. free_slots (slabs s2 y) \<noteq> {}" using r' dist by (auto simp: h2)
    ultimately show ?thesis
      using True s3 r'
      by (intro exI [of _ s3] exI [of _ "(xs, x # ?ys)"]) (simp add: c2 cache_settle_def)
  next
    case False
    have "free_slots (slabs s2 x) \<noteq> {}" using False av(2) [OF avx] by (auto simp: h2)
    moreover have "free_slots (slabs s2 y) \<noteq> {}" if "y \<in> set xs" for y
      using r' that by (cases "y = x") (auto simp: h2)
    moreover have "cache_move_slab c Partial Empty x s2 = (False, s2)"
      using r' by (simp add: cache_move_slab_def c2)
    ultimately show ?thesis
      using False r'
      by (intro exI [of _ s2] exI [of _ "(x # xs, ?ys)"])
        (auto simp: c2 same_but_links_def links2 cache_settle_def simp del: dlist.simps)
  qed
 then obtain s3 P where s3: "cache_settle c x s2 = s3" "same_but_links c s2 s3"
      "empty_slabs (caches s3 c) = 0" "dlist (slabs s3) 0 (partial_slabs (caches s3 c)) (fst P)"
      "dlist (slabs s3) 0 (full_slabs (caches s3 c)) (snd P)" "mset (fst P @ snd P) = mset (x # xs @ ?ys)"
      "\<forall>y. y \<notin> set (x # xs @ ?ys) \<longrightarrow> slabs s3 y = slabs s2 y"
      "\<forall>y\<in>set (fst P). free_slots (slabs s2 y) \<noteq> {}"
    by blast
  define s4 where "s4 = upd_cache c (\<lambda>ca. ca\<lparr>cache_lock := 0\<rparr>) s3"
  have run: "cache_alloc_object c s = Some (obj_addr os x i, s4)"
  proof -
    have "partial_slabs (caches s1 c) = x" using x(3) by (simp add: s1_def upd_cache_def)
    then show ?thesis
      using r' x(4) i(2) s3(1)
      by (simp add: cache_alloc_object_def s4_def Let_def s1_def [symmetric] s2_def [symmetric])
  qed
  have data: "same_data (slabs s4 y) (slabs s2 y)" for y
    using s3(2) by (simp add: same_but_links_def s4_def upd_cache_def)
  have sets: "set (fst P @ snd P) = set (x # xs @ ?ys)" "distinct (fst P @ snd P)"
    using s3(6) r' mset_eq_setD [OF s3(6)] mset_eq_imp_distinct_iff [OF s3(6)] by auto
  have c4: "caches s4 d = caches s d" if "d \<noteq> c" for d
    using that s3(2) by (simp add: s4_def upd_cache_def same_but_links_def c2)
  have c4': "object_size (caches s4 c) = os" "pages_per_slab (caches s4 c) = slab_pages os"
      "vm_pmm s4 = vm_pmm s"
    using s3(2) r' by (simp_all add: s4_def upd_cache_def same_but_links_def c2 os_def)
  have "slab_ok (slabs s4) os ?cur c y \<and> (y \<in> set (fst P) \<longrightarrow> free_slots (slabs s4 y) \<noteq> {})"
    if "y \<in> set (fst P @ snd P)" for y
  proof -
    have "free_slots (slabs s4 y) = free_slots (slabs s2 y)"
      using data [of y] by (simp add: free_slots_def same_data_def)
    then show ?thesis
      using slab_ok_mono [OF ok2 [of y], of "slabs s4" ?cur] data [of y] that s3(8) x(1)
      unfolding sets(1) by (auto simp: slab_ok_def)
  qed
  then have rep4: "cache_rep (slabs s4) (caches s4) (last_used_index (vm_pmm s4)) c P"
    using sets(2) r' s3(3-5) unfolding cache_rep_def c4' by (auto simp: s4_def upd_cache_def)
  have own: "(c, y) \<in> all_slabs L C \<longleftrightarrow> y \<in> set (x # xs @ ?ys)" for y
    using c by (simp add: all_slabs_def L)
  have other: "slabs s4 y = slabs s y" if "(d, y) \<in> all_slabs L C" "d \<noteq> c" for d y
    using s3(7) all_slabs_owner [OF ok that(1), of c] that(2) own [of y]
    by (auto simp: s4_def upd_cache_def h2)
  have bm: "sl_bitmap (slabs s4 y) = sl_bitmap (slabs s y)" if "(c, y) \<in> all_slabs L C" "y \<noteq> x" for y
    using data [of y] that(2) by (simp add: same_data_def h2)
  have bx: "sl_bitmap (slabs s4 x) = BITMAP_SET (sl_bitmap (?h x)) i"
    using data [of x] by (simp add: same_data_def h2 take_slot_def)
  note step = heap_ok_alloc_step [OF ok c os_def c4 c4'(1) _ rep4 other _ bm bx i']
  have "heap_ok s4 C (L(c := P)) \<and> live s4 C (L(c := P)) = insert (c, obj_addr os x i) (live s C L) \<and>
      (c, obj_addr os x i) \<notin> live s C L"
    using step own [of x] sets(1) c4'(3) L by auto
  moreover have "obj_addr os x i \<noteq> 0" by (rule obj_addr_neq_0 [OF x(1) _ i'(1)]) (use r' in simp)
  moreover have "object_size (caches s4 d) = object_size (caches s d)" for d
    using c4 [of d] c4'(1) by (cases "d = c") (auto simp: os_def)
  ultimately show ?thesis using run c4'(3) by blast
qed

text \<open>Taking an object from a new slab.\<close>

definition new_slab :: "u64 \<Rightarrow> u64 \<Rightarrow> slab" where
  "new_slab c x = \<lparr>sl_cache = c, available_objects = 512, total_objects = 512, sl_bitmap = (\<lambda>_. 0),
     sl_buffer = x + 576, sl_prev = 0, sl_next = 0\<rparr>"

lemma free_slots_new: "free_slots (new_slab c x) = {..<512}"
  by (auto simp: free_slots_def new_slab_def BITMAP_TEST_def)

lemma buffer_offset:
  assumes "p < 2 ^ 51"
  shows "ALIGN_UP (of_nat p * PAGE_SIZE + SIZEOF_SLAB + OBJECTS_PER_SLAB) 16 = of_nat p * PAGE_SIZE + 576"
proof -
  let ?x = "of_nat p * PAGE_SIZE"
  have x: "unat ?x = p * 4096" using assms by (simp add: unat_frame)
  have v: "unat (?x + 568) = p * 4096 + 568"
    using assms by (subst unat_add_lem [THEN iffD1]) (simp_all add: x)
  have "unat (DIV_CEIL (?x + 568) 16) = p * 256 + 36"
    using assms by (subst unat_DIV_CEIL) (simp_all add: v)
  then have "unat (DIV_CEIL (?x + 568) 16 * 16) = p * 4096 + 576"
    using assms by (subst unat_mult_lem [THEN iffD1]) simp_all
  moreover have "unat (?x + 576) = p * 4096 + 576"
    using assms by (subst unat_add_lem [THEN iffD1]) (simp_all add: x)
  ultimately have "DIV_CEIL (?x + 568) 16 * 16 = ?x + 576" by (simp add: word_unat_eq_iff)
  then show ?thesis by (simp add: ALIGN_UP_def SIZEOF_SLAB_def OBJECTS_PER_SLAB_def add.assoc)
qed

lemma cache_alloc_slab_fresh:
  assumes os: "size_ok (object_size (caches s c))"
      "pages_per_slab (caches s c) = slab_pages (object_size (caches s c))" "empty_slabs (caches s c) = 0"
    and fr: "fresh_frames (unat (slab_pages (object_size (caches s c))) + n) (vm_pmm s)"
  defines "x \<equiv> of_nat (last_used_index (vm_pmm s)) * PAGE_SIZE"
  shows "\<exists>s'. cache_alloc_slab c s = Some (x, s') \<and> slabs s' = (slabs s)(x := new_slab c x) \<and>
    caches s' = (caches s)(c := (caches s c)\<lparr>empty_slabs := x\<rparr>) \<and> fresh_frames n (vm_pmm s') \<and>
    last_used_index (vm_pmm s') = last_used_index (vm_pmm s) + unat (slab_pages (object_size (caches s c)))"
proof -
  let ?k = "slab_pages (object_size (caches s c))"
  have k: "0 < unat ?k" "unat ?k < 2 ^ 64"
    using objects_fit [OF os(1), of 0] unsigned_less [of ?k, where 'a = nat] by simp_all
  note al = pmm_alloc_fresh_run [OF fr k]
  have "last_used_index (vm_pmm s) < 2 ^ 51" using fr by (simp add: fresh_frames_def)
  note buf = buffer_offset [OF this, folded x_def, unfolded OBJECTS_PER_SLAB_def]
  show ?thesis
    using al(1,2,3)
    by (auto simp: cache_alloc_slab_def os pmm_allocz_def Let_def upd_slab_def upd_cache_def x_def [symmetric]
        new_slab_def buf OBJECTS_PER_SLAB_def)
qed

lemma alloc_from_new:
  assumes ok: "heap_ok s C L" and c: "c \<in> C" and L: "fst (L c) = []"
    and fr: "fresh_frames (unat (slab_pages (object_size (caches s c))) + n) (vm_pmm s)"
  shows "\<exists>a s' L'. cache_alloc_object c s = Some (a, s') \<and> heap_ok s' C L' \<and> (c, a) \<notin> live s C L \<and>
    live s' C L' = insert (c, a) (live s C L) \<and> fresh_frames n (vm_pmm s') \<and> a \<noteq> 0 \<and>
    (\<forall>d. object_size (caches s' d) = object_size (caches s d))"
proof -
  define os where "os = object_size (caches s c)"
  let ?h = "slabs s" and ?cur = "last_used_index (vm_pmm s)" and ?ys = "snd (L c)"
  define x where "x = (of_nat ?cur * PAGE_SIZE :: u64)"
  have r: "cache_rep ?h (caches s) ?cur c (L c)" using ok c by (simp add: heap_ok_def)
  note r' = r [unfolded cache_rep_def L, folded os_def]
  define s1 where "s1 = upd_cache c (\<lambda>ca. ca\<lparr>cache_lock := 1\<rparr>) s"
  have c1: "caches s1 = (caches s)(c := (caches s c)\<lparr>cache_lock := 1\<rparr>)" "slabs s1 = ?h" "vm_pmm s1 = vm_pmm s"
    by (simp_all add: s1_def upd_cache_def)
  obtain s2 where s2: "cache_alloc_slab c s1 = Some (x, s2)" "slabs s2 = ?h(x := new_slab c x)"
      "caches s2 = (caches s1)(c := (caches s1 c)\<lparr>empty_slabs := x\<rparr>)" "fresh_frames n (vm_pmm s2)"
      "last_used_index (vm_pmm s2) = ?cur + unat (slab_pages os)"
    using cache_alloc_slab_fresh [of s1 c n] fr r' by (auto simp: c1 x_def os_def)
  have sz: "size_ok os" using r' by simp
  have cur: "0 < ?cur" "?cur + unat (slab_pages os) < 2 ^ 51"
    using fr s2(4,5) by (auto simp: fresh_frames_def)
  have ux: "unat x = 4096 * ?cur" using cur by (simp add: x_def unat_frame)
  have okn: "slab_ok (slabs s2) os (last_used_index (vm_pmm s2)) c x"
    using cur free_slots_new [of c x] by (simp add: slab_ok_def s2 ux) (simp add: new_slab_def)
  have ne: "free_slots (slabs s2 x) \<noteq> {}"
    using lessThan_empty_iff [of "512 :: nat"] by (simp add: s2(2) free_slots_new)
  obtain i b where i: "i \<in> free_slots (slabs s2 x)"
      "slab_alloc_object x s2 = (obj_addr os x i, (upd_slab x (take_slot i) s2)\<lparr>bytes := b\<rparr>)"
    using slab_alloc_object_ok [OF okn _ ne] by (auto simp: s2(3) c1 os_def)
  have i': "i < 512" "\<not> BITMAP_TEST (\<lambda>_. 0) i" using i(1) by (auto simp: free_slots_def BITMAP_TEST_def)
  define s3 where "s3 = (upd_slab x (take_slot i) s2)\<lparr>bytes := b\<rparr>"
  have h3: "slabs s3 = ?h(x := take_slot i (new_slab c x))" "caches s3 = caches s2" "vm_pmm s3 = vm_pmm s2"
    by (simp_all add: s3_def upd_slab_def s2)
  have av: "available_objects (slabs s3 x) = 511" "total_objects (slabs s3 x) = 512"
      "sl_prev (slabs s3 x) = 0" "sl_next (slabs s3 x) = 0"
    by (simp_all add: h3 take_slot_def new_slab_def)
  have x0: "x \<noteq> 0" using cur ux by auto
  have new: "x \<notin> set ?ys"
    using r' slab_below [OF _ sz, of ?h ?cur c x] ux by auto
  have "dlist (slabs s3) 0 (slab_head Empty (caches s3 c)) [x]" "dlist (slabs s3) 0 (slab_head Partial (caches s3 c)) []"
    using r' x0 av by (simp_all add: h3 s2 c1)
  from cache_move_head [OF this] obtain s4 where s4: "cache_move_slab c Partial Empty x s3 = (True, s4)"
      "empty_slabs (caches s4 c) = 0" "dlist (slabs s4) 0 (partial_slabs (caches s4 c)) [x]"
      "full_slabs (caches s4 c) = full_slabs (caches s3 c)"
      "\<forall>y. y \<noteq> x \<longrightarrow> slabs s4 y = slabs s3 y" "same_but_links c s3 s4"
    by (force dest: spec [of _ Full])
  define s5 where "s5 = upd_cache c (\<lambda>ca. ca\<lparr>cache_lock := 0\<rparr>) s4"
  have run: "cache_alloc_object c s = Some (obj_addr os x i, s5)"
    using r' i(2) s2(1) av s4(1)
    by (simp add: cache_alloc_object_def cache_settle_def s5_def Let_def s1_def [symmetric] s3_def [symmetric])
      (simp add: c1)
  have d5: "slabs s5 = slabs s4" "vm_pmm s5 = vm_pmm s2"
    using s4(6) by (simp_all add: s5_def upd_cache_def same_but_links_def h3)
  have data: "same_data (slabs s5 x) (take_slot i (new_slab c x))"
    using s4(6) by (simp add: same_but_links_def d5 h3) (metis fun_upd_same h3(1))
  have fs: "free_slots (slabs s5 x) = {..<512} - {i}"
    using data free_slots_take [OF i'(1), of "new_slab c x"]
    by (simp add: same_data_def free_slots_def [of "slabs s5 x"] free_slots_def [of "take_slot i (new_slab c x)"]
        free_slots_new)
  have c5: "caches s5 d = caches s d" if "d \<noteq> c" for d
    using that s4(6) by (simp add: s5_def upd_cache_def same_but_links_def h3 s2 c1)
  have c5': "object_size (caches s5 c) = os" "pages_per_slab (caches s5 c) = slab_pages os"
    "full_slabs (caches s5 c) = full_slabs (caches s c)" "empty_slabs (caches s5 c) = 0"
    "partial_slabs (caches s5 c) = partial_slabs (caches s4 c)" "cache_lock (caches s5 c) = 0"
    using s4(2,4,6) r' by (simp_all add: s5_def upd_cache_def same_but_links_def h3 s2 c1 os_def)
  have h5: "slabs s5 y = ?h y" if "y \<noteq> x" for y using that s4(5) by (simp add: d5 h3)
  have "available_objects (slabs s5 x) = 511" "card ({..<512} - {i}) = 511"
    using data i'(1) by (simp_all add: same_data_def take_slot_def new_slab_def card_Diff_singleton)
  then have okx: "slab_ok (slabs s5) os (last_used_index (vm_pmm s5)) c x"
    using okn data unfolding slab_ok_def fs
    by (simp add: s2 d5(2) same_data_def take_slot_def new_slab_def)
  have oky: "slab_ok (slabs s5) os (last_used_index (vm_pmm s5)) c y" if "y \<in> set ?ys" for y
  proof (rule slab_ok_mono)
    show "slab_ok ?h os ?cur c y" using r' that by auto
    show "same_data (slabs s5 y) (?h y)" using h5 [of y] new that by (cases "y = x") auto
  qed (use cur s2(5) in \<open>simp_all add: d5\<close>)
  have "dlist (slabs s5) 0 a ?ys = dlist ?h 0 a ?ys" for a
    by (rule dlist_cong) (use h5 new in metis)
  moreover have "({..<512} - {i} :: nat set) \<noteq> {}"
    using \<open>card ({..<512} - {i}) = 511\<close> by (metis card.empty zero_neq_numeral)
  ultimately have rep5: "cache_rep (slabs s5) (caches s5) (last_used_index (vm_pmm s5)) c ([x], ?ys)"
    using r' s4(3) okx oky new fs unfolding cache_rep_def c5' by (auto simp: d5)
  have other: "slabs s5 y = slabs s y" if "(d, y) \<in> all_slabs L C" for d y
  proof (rule h5)
    show "y \<noteq> x" using slab_below [OF heap_okD(1,2) [OF ok that]] ux by auto
  qed
  have bx: "sl_bitmap (slabs s5 x) = BITMAP_SET (\<lambda>_. 0) i"
    using data by (simp add: same_data_def take_slot_def new_slab_def)
  note step = heap_ok_alloc_step [OF ok c os_def c5 c5'(1) _ rep5 _ _ _ bx i']
  have "heap_ok s5 C (L(c := ([x], ?ys))) \<and>
      live s5 C (L(c := ([x], ?ys))) = insert (c, obj_addr os x i) (live s C L) \<and>
      (c, obj_addr os x i) \<notin> live s C L"
    using step other L ux s2(5) d5 by (auto simp: BITMAP_TEST_def)
  moreover have "obj_addr os x i \<noteq> 0" by (rule obj_addr_neq_0 [OF okx sz i'(1)])
  moreover have "object_size (caches s5 d) = object_size (caches s d)" for d
    using c5 [of d] c5'(1) by (cases "d = c") (auto simp: os_def)
  moreover have "fresh_frames n (vm_pmm s5)" using s2(4) d5(2) by simp
  ultimately show ?thesis using run by blast
qed

lemma cache_alloc_object_ok:
  assumes ok: "heap_ok s C L" and c: "c \<in> C"
    and fr: "fresh_frames (unat (slab_pages (object_size (caches s c))) + n) (vm_pmm s)"
  shows "\<exists>a s' L'. cache_alloc_object c s = Some (a, s') \<and> heap_ok s' C L' \<and> (c, a) \<notin> live s C L \<and>
    live s' C L' = insert (c, a) (live s C L) \<and> fresh_frames n (vm_pmm s') \<and> a \<noteq> 0 \<and>
    (\<forall>d. object_size (caches s' d) = object_size (caches s d))"
proof (cases "fst (L c)")
  case Nil
  then show ?thesis by (rule alloc_from_new [OF ok c _ fr])
next
  case (Cons x xs)
  have "fresh_frames n (vm_pmm s)" using fr by (rule fresh_frames_mono) simp
  then show ?thesis using alloc_from_partial [OF ok c Cons] by fastforce
qed

section \<open>Returning objects\<close>

definition hit :: "'a kheap_scheme \<Rightarrow> u64 \<Rightarrow> u64 \<Rightarrow> bool" where
  "hit s object x \<longleftrightarrow>
     in_slab s x object \<and>
     BITMAP_TEST (sl_bitmap (slabs s x))
       (unat ((object - sl_buffer (slabs s x)) div object_size (caches s (sl_cache (slabs s x)))))"

definition give_slot :: "nat \<Rightarrow> slab \<Rightarrow> slab" where
  "give_slot i sl = sl\<lparr>sl_bitmap := BITMAP_CLEAR (sl_bitmap sl) i, available_objects := available_objects sl + 1\<rparr>"

text \<open>On a list that ends, the loop of \<^verbatim>\<open>slab_free_object\<close> is a search for the first slab that holds the
  object.\<close>

lemma slab_free_loop_find:
  assumes "dlist (slabs s) p a xs"
  shows "slab_free_loop a object s =
    (case find (hit s object) xs of
       None \<Rightarrow> Some (False, s)
     | Some x \<Rightarrow> Some (True, upd_slab x (give_slot
         (unat ((object - sl_buffer (slabs s x)) div object_size (caches s (sl_cache (slabs s x)))))) s))"
  using assms
proof (induction xs arbitrary: p a)
  case Nil
  then show ?case by (subst slab_free_loop.simps) simp
next
  case (Cons x xs)
  then show ?case
    by (subst slab_free_loop.simps) (auto simp: hit_def [of s object x] give_slot_def [abs_def] Let_def)
qed

lemma lock_unlock:
  assumes "cache_lock (caches s c) = 0"
  shows "upd_cache c (\<lambda>ca. ca\<lparr>cache_lock := 0\<rparr>) (upd_cache c (\<lambda>ca. ca\<lparr>cache_lock := l\<rparr>) s) = s"
proof -
  have "(caches s c)\<lparr>cache_lock := 0\<rparr> = caches s c" using assms by (cases "caches s c") simp
  then show ?thesis by (cases s) (simp add: upd_cache_def)
qed

lemma upd_cache_slab_commute: "upd_cache c f (upd_slab x g s) = upd_slab x g (upd_cache c f s)"
  by (simp add: upd_cache_def upd_slab_def)

lemma slab_free_object_find:
  assumes l: "dlist (slabs s) p a xs" and own: "\<And>x. x \<in> set xs \<Longrightarrow> sl_cache (slabs s x) = c"
    and lock: "cache_lock (caches s c) = 0"
  shows "slab_free_object a object s =
    (case find (hit s object) xs of
       None \<Rightarrow> Some (False, s)
     | Some x \<Rightarrow> Some (True, upd_slab x (give_slot
         (unat ((object - sl_buffer (slabs s x)) div object_size (caches s c)))) s))"
proof (cases xs)
  case Nil
  then show ?thesis using l by (simp add: slab_free_object_def)
next
  case (Cons y ys)
  let ?s = "upd_cache c (\<lambda>ca. ca\<lparr>cache_lock := 1\<rparr>) s"
  have y: "a = y" "y \<noteq> 0" "sl_cache (slabs s y) = c" using l own Cons by auto
  have hit: "hit ?s object = hit s object"
    by (auto simp: hit_def in_slab_def upd_cache_def Let_def fun_eq_iff)
  have l': "dlist (slabs ?s) p a xs" using l by (simp add: upd_cache_def)
  show ?thesis
  proof (cases "find (hit s object) xs")
    case None
    then have "slab_free_loop a object ?s = Some (False, ?s)" using slab_free_loop_find [OF l'] hit by simp
    then show ?thesis
      using y lock None lock_unlock [OF lock]
      by (simp add: slab_free_object_def Let_def) (simp add: upd_cache_def)
  next
    case (Some x)
    then have x: "sl_cache (slabs s x) = c" using own by (auto simp: find_Some_iff)
    let ?g = "give_slot (unat ((object - sl_buffer (slabs s x)) div object_size (caches s c)))"
    have "slab_free_loop a object ?s = Some (True, upd_slab x ?g ?s)"
      using slab_free_loop_find [OF l'] hit Some x by (simp add: upd_cache_def)
    moreover have "sl_cache (slabs (upd_slab x ?g ?s) y) = c"
      using y x by (simp add: upd_slab_def upd_cache_def give_slot_def)
    ultimately show ?thesis
      using y lock Some lock_unlock [OF lock, of 1]
      by (simp add: slab_free_object_def Let_def upd_cache_slab_commute)
  qed
qed

lemma free_slots_give: "i < 512 \<Longrightarrow> free_slots (give_slot i sl) = insert i (free_slots sl)"
  by (auto simp: free_slots_def give_slot_def bitmap_simps)

text \<open>A live object is found in its own slab only; the address of an object of one cache is found in
  no other cache.\<close>

lemma hit_live:
  assumes ok: "heap_ok s C L" and y: "(d, y) \<in> all_slabs L C" "i < 512" and x: "(c, x) \<in> all_slabs L C"
    and o: "object = obj_addr (object_size (caches s d)) y i"
  shows "hit s object x \<longleftrightarrow> x = y \<and> BITMAP_TEST (sl_bitmap (slabs s y)) i"
proof -
  let ?od = "object_size (caches s d)" and ?oc = "object_size (caches s c)"
  note ky = heap_okD [OF ok y(1)] and kx = heap_okD [OF ok x]
  show ?thesis
  proof (cases "x = y")
    case True
    then have dc: "c = d" using all_slabs_owner [OF ok] x y(1) by blast
    have "in_slab s y object"
      using in_slab_iff [OF ky(1,2) refl, of object] obj_in_region(2) [OF ky(1,2) y(2)] ky(2) y(2)
      by (auto simp: o size_ok_def word_less_nat_alt)
    then show ?thesis
      using True dc ky(1) obj_index [OF ky(1,2) y(2)] by (simp add: hit_def slab_ok_def o)
  next
    case False
    have "0 < unat ?od" using ky(2) by (auto simp: size_ok_def word_less_nat_alt)
    then have "unat object \<in> slab_region ?od y" using obj_in_region(1) [OF ky(1,2) y(2)] by (auto simp: o)
    then have "unat object \<notin> slab_region ?oc x" using heap_ok_disjoint [OF ok x y(1) False] by blast
    then have "\<not> in_slab s x object"
      using in_slab_iff [OF kx(1,2) refl, of object] objects_fit [OF kx(2), of 511]
      by (auto simp: slab_region_def)
    then show ?thesis using False by (simp add: hit_def)
  qed
qed

lemma cache_free_object_find:
  assumes ok: "heap_ok s C L" and c: "c \<in> C"
  shows "cache_free_object c object s =
    (case find (hit s object) (fst (L c) @ snd (L c)) of
       None \<Rightarrow> Some (False, s)
     | Some x \<Rightarrow> Some (True, upd_slab x (give_slot
         (unat ((object - sl_buffer (slabs s x)) div object_size (caches s c)))) s))"
proof -
  have r: "cache_rep (slabs s) (caches s) (last_used_index (vm_pmm s)) c (L c)"
    using ok c by (simp add: heap_ok_def)
  have own: "sl_cache (slabs s x) = c" if "x \<in> set (fst (L c) @ snd (L c))" for x
    using r that by (auto simp: cache_rep_def slab_ok_def)
  note p = slab_free_object_find [of s 0 "partial_slabs (caches s c)" "fst (L c)" c object]
    and f = slab_free_object_find [of s 0 "full_slabs (caches s c)" "snd (L c)" c object]
  show ?thesis
    using p f r own
    by (cases "find (hit s object) (fst (L c))")
      (auto simp: cache_free_object_def find_append cache_rep_def split: option.split)
qed

lemma cache_free_object_live:
  assumes ok: "heap_ok s C L" and a: "(c, a) \<in> live s C L"
  shows "\<exists>s'. cache_free_object c a s = Some (True, s') \<and> heap_ok s' C L \<and>
    live s' C L = live s C L - {(c, a)} \<and> vm_pmm s' = vm_pmm s \<and> caches s' = caches s \<and>
    big_headers s' = big_headers s \<and> kmalloc_caches s' = kmalloc_caches s"
proof -
  define os where "os = object_size (caches s c)"
  obtain y i where y: "(c, y) \<in> all_slabs L C" "i < 512" "BITMAP_TEST (sl_bitmap (slabs s y)) i"
      "a = obj_addr os y i"
    using a by (auto simp: live_def os_def)
  have c: "c \<in> C" and yl: "y \<in> set (fst (L c) @ snd (L c))" using y(1) by (auto simp: all_slabs_def)
  have hy: "hit s a x \<longleftrightarrow> x = y" if "x \<in> set (fst (L c) @ snd (L c))" for x
    using hit_live [OF ok y(1,2), of c x a] y(3,4) that c by (auto simp: all_slabs_def os_def)
  have "find (hit s a) (fst (L c) @ snd (L c)) = Some y"
  proof (cases "find (hit s a) (fst (L c) @ snd (L c))")
    case None
    then show ?thesis using hy yl by (auto simp: find_None_iff)
  next
    case (Some x)
    then show ?thesis using hy find_SomeD [OF Some] by blast
  qed
  moreover note ky = heap_okD [OF ok y(1), folded os_def]
  moreover have "unat ((a - sl_buffer (slabs s y)) div os) = i"
    using obj_index [OF ky(1,2) y(2)] ky(1) y(4) by (simp add: slab_ok_def)
  ultimately have run: "cache_free_object c a s = Some (True, upd_slab y (give_slot i) s)"
    using cache_free_object_find [OF ok c, of a] by (simp add: os_def)
  define s' where "s' = upd_slab y (give_slot i) s"
  have h': "slabs s' = (slabs s)(y := give_slot i (slabs s y))" "caches s' = caches s" "vm_pmm s' = vm_pmm s"
    by (simp_all add: s'_def upd_slab_def)
  have slots: "free_slots (slabs s' y) = insert i (free_slots (slabs s y))" "i \<notin> free_slots (slabs s y)"
    using y(2,3) by (simp_all add: h' free_slots_give) (simp add: free_slots_def)
  have oky: "slab_ok (slabs s') os (last_used_index (vm_pmm s)) c y"
    using ky(1) slots unfolding slab_ok_def h' by (simp add: give_slot_def)
  have links: "dlist (slabs s') p b xs = dlist (slabs s) p b xs" for p b xs
    by (rule dlist_cong) (simp add: h' give_slot_def)
  have sl: "slab_ok (slabs s') (object_size (caches s d)) (last_used_index (vm_pmm s)) d x"
    if "(d, x) \<in> all_slabs L C" for d x
  proof (cases "x = y")
    case True
    then have "d = c" using all_slabs_owner [OF ok] that y(1) by blast
    then show ?thesis using oky True by (simp add: os_def)
  next
    case False
    then show ?thesis using heap_okD(1) [OF ok that] by (simp add: slab_ok_def h')
  qed
  have fs: "free_slots (slabs s' x) \<noteq> {}" if "free_slots (slabs s x) \<noteq> {}" for x
    using that slots by (cases "x = y") (auto simp: h')
  have "cache_rep (slabs s') (caches s') (last_used_index (vm_pmm s')) d (L d)" if "d \<in> C" for d
  proof -
    have "cache_rep (slabs s) (caches s) (last_used_index (vm_pmm s)) d (L d)"
      using ok that by (simp add: heap_ok_def)
    then show ?thesis
      using sl [of d] fs that unfolding cache_rep_def links h'(2,3) by (auto simp: all_slabs_def)
  qed
  then have "heap_ok s' C L" using ok unfolding heap_ok_def h'(2) by blast
  moreover have "live s' C L = live s C L - {(c, a)}"
  proof -
    have test: "BITMAP_TEST (sl_bitmap (slabs s' x)) j \<longleftrightarrow>
        BITMAP_TEST (sl_bitmap (slabs s x)) j \<and> \<not> (x = y \<and> j = i)" for x j
      by (auto simp: h' give_slot_def bitmap_simps)
    have ne: "(d, obj_addr (object_size (caches s d)) x j) \<noteq> (c, a)"
      if "(d, x) \<in> all_slabs L C" "j < 512" "\<not> (x = y \<and> j = i)" for d x j
    proof
      assume eq: "(d, obj_addr (object_size (caches s d)) x j) = (c, a)"
      then have "obj_addr os x j = obj_addr os y i" "slab_ok (slabs s) os (last_used_index (vm_pmm s)) c x"
        using y(4) heap_okD(1) [OF ok that(1)] by (auto simp: os_def)
      from obj_addr_inj [OF this(2) ky(1,2) that(2) y(2) _ this(1)] show False
        using that heap_ok_disjoint [OF ok that(1) y(1)] eq by (auto simp: os_def)
    qed
    show ?thesis
    proof (intro set_eqI iffI)
      fix e assume "e \<in> live s' C L"
      then obtain d x j where e: "e = (d, obj_addr (object_size (caches s d)) x j)" "(d, x) \<in> all_slabs L C"
          "j < 512" "BITMAP_TEST (sl_bitmap (slabs s x)) j" "\<not> (x = y \<and> j = i)"
        unfolding live_def h'(2) test by blast
      then show "e \<in> live s C L - {(c, a)}" using ne [OF e(2,3,5)] unfolding live_def by blast
    next
      fix e assume "e \<in> live s C L - {(c, a)}"
      then obtain d x j where e: "e = (d, obj_addr (object_size (caches s d)) x j)" "(d, x) \<in> all_slabs L C"
          "j < 512" "BITMAP_TEST (sl_bitmap (slabs s x)) j" "e \<noteq> (c, a)"
        unfolding live_def by blast
      then have "\<not> (x = y \<and> j = i)" using all_slabs_owner [OF ok e(2), of c] y by (auto simp: os_def)
      then show "e \<in> live s' C L" using e unfolding live_def h'(2) test by blast
    qed
  qed
  ultimately show ?thesis using run by (auto simp: s'_def upd_slab_def)
qed

section \<open>The interface of an object pool\<close>

text \<open>
  What a client of a cache (page maps, processes, threads, nodes of the file system) relies on:
  an object handed out is not in use, and giving it back is possible and affects no other object.
  \<open>holds n s A\<close> says that the objects \<open>A\<close> are in use in state \<open>s\<close> and \<open>n\<close> more can be had.
\<close>

fun free_all :: "(u64 \<Rightarrow> 's \<Rightarrow> (bool \<times> 's) option) \<Rightarrow> u64 list \<Rightarrow> 's \<Rightarrow> 's option" where
  "free_all free [] s = Some s"
| "free_all free (a # as) s = do { (ok, s) \<leftarrow> free a s; if ok then free_all free as s else None }"

locale object_pool =
  fixes alloc :: "'s \<Rightarrow> (u64 \<times> 's) option"
    and free :: "u64 \<Rightarrow> 's \<Rightarrow> (bool \<times> 's) option"
    and holds :: "nat \<Rightarrow> 's \<Rightarrow> u64 set \<Rightarrow> bool"
  assumes alloc_law: "holds (Suc n) s A \<Longrightarrow>
      \<exists>a s'. alloc s = Some (a, s') \<and> a \<notin> A \<and> a \<noteq> 0 \<and> holds n s' (insert a A)"
    and free_law: "holds n s A \<Longrightarrow> a \<in> A \<Longrightarrow> \<exists>s'. free a s = Some (True, s') \<and> holds n s' (A - {a})"
begin

lemma alloc_many:
  "holds (n + k) s A \<Longrightarrow>
   \<exists>as s'. take_frames alloc n s = Some (as, s') \<and> length as = n \<and> distinct as \<and> set as \<inter> A = {} \<and>
     0 \<notin> set as \<and> holds k s' (A \<union> set as)"
proof (induction n arbitrary: s A)
  case 0
  then show ?case by simp
next
  case (Suc n)
  obtain a s1 where a: "alloc s = Some (a, s1)" "a \<notin> A" "a \<noteq> 0" "holds (n + k) s1 (insert a A)"
    using alloc_law [of "n + k" s A] Suc.prems by auto
  obtain as s' where "take_frames alloc n s1 = Some (as, s')" "length as = n" "distinct as"
      "set as \<inter> insert a A = {}" "0 \<notin> set as" "holds k s' (insert a A \<union> set as)"
    using Suc.IH [OF a(4)] by blast
  with a show ?case by auto
qed

lemma free_many:
  "holds k s A \<Longrightarrow> set as \<subseteq> A \<Longrightarrow> distinct as \<Longrightarrow>
   \<exists>s'. free_all free as s = Some s' \<and> holds k s' (A - set as)"
proof (induction as arbitrary: s A)
  case Nil
  then show ?case by simp
next
  case (Cons a as)
  obtain s1 where s1: "free a s = Some (True, s1)" "holds k s1 (A - {a})"
    using free_law [of k s A a] Cons.prems by auto
  moreover have "set as \<subseteq> A - {a}" using Cons.prems(2,3) by auto
  moreover have "A - {a} - set as = A - set (a # as)" by auto
  ultimately show ?case using Cons.IH [OF s1(2)] Cons.prems(3) by auto
qed

end

text \<open>A cache provides it: while each new object may need a new slab there have to be frames for it.\<close>

definition cache_holds :: "u64 \<Rightarrow> nat \<Rightarrow> 'a kheap_scheme \<Rightarrow> u64 set \<Rightarrow> bool" where
  "cache_holds c n s A \<longleftrightarrow>
     (\<exists>C L. heap_ok s C L \<and> c \<in> C \<and> A = {a. (c, a) \<in> live s C L} \<and>
        fresh_frames (n * unat (slab_pages (object_size (caches s c)))) (vm_pmm s))"

interpretation pool: object_pool "cache_alloc_object c" "cache_free_object c" "cache_holds c" for c
proof
  fix n and s :: "'a kheap_scheme" and A
  assume "cache_holds c (Suc n) s A"
  then obtain C L where h: "heap_ok s C L" "c \<in> C" "A = {a. (c, a) \<in> live s C L}"
      "fresh_frames (unat (slab_pages (object_size (caches s c))) +
         n * unat (slab_pages (object_size (caches s c)))) (vm_pmm s)"
    by (auto simp: cache_holds_def)
  obtain a s' L' where a: "cache_alloc_object c s = Some (a, s')" "heap_ok s' C L'" "(c, a) \<notin> live s C L"
      "live s' C L' = insert (c, a) (live s C L)" "a \<noteq> 0"
      "fresh_frames (n * unat (slab_pages (object_size (caches s' c)))) (vm_pmm s')"
    using cache_alloc_object_ok [OF h(1,2,4)] by auto
  moreover have "cache_holds c n s' (insert a A)"
    unfolding cache_holds_def using a(2,4,6) h(2,3) by (intro exI [of _ C] exI [of _ L']) auto
  ultimately show "\<exists>a s'. cache_alloc_object c s = Some (a, s') \<and> a \<notin> A \<and> a \<noteq> 0 \<and> cache_holds c n s' (insert a A)"
    using h(3) by auto
next
  fix n and s :: "'a kheap_scheme" and A a
  assume "cache_holds c n s A" "a \<in> A"
  then obtain C L where h: "heap_ok s C L" "c \<in> C" "A = {a. (c, a) \<in> live s C L}" "(c, a) \<in> live s C L"
      "fresh_frames (n * unat (slab_pages (object_size (caches s c)))) (vm_pmm s)"
    by (auto simp: cache_holds_def)
  obtain s' where s': "cache_free_object c a s = Some (True, s')" "heap_ok s' C L"
      "live s' C L = live s C L - {(c, a)}" "vm_pmm s' = vm_pmm s" "caches s' = caches s"
    using cache_free_object_live [OF h(1,4)] by blast
  moreover have "cache_holds c n s' (A - {a})"
    unfolding cache_holds_def using s' h by (intro exI [of _ C] exI [of _ L]) auto
  ultimately show "\<exists>s'. cache_free_object c a s = Some (True, s') \<and> cache_holds c n s' (A - {a})" by auto
qed

section \<open>kmalloc and kfree\<close>

lemma cache_free_object_foreign:
  assumes ok: "heap_ok s C L" and a: "(c, a) \<in> live s C L" and d: "d \<in> C" "d \<noteq> c"
  shows "cache_free_object d a s = Some (False, s)"
proof -
  obtain y i where y: "(c, y) \<in> all_slabs L C" "i < 512" "a = obj_addr (object_size (caches s c)) y i"
    using a by (auto simp: live_def)
  have "\<not> hit s a x" if "x \<in> set (fst (L d) @ snd (L d))" for x
  proof -
    have x: "(d, x) \<in> all_slabs L C" using that d(1) by (simp add: all_slabs_def)
    have "x \<noteq> y" using all_slabs_owner [OF ok y(1), of d] x d(2) by blast
    then show ?thesis using hit_live [OF ok y(1,2) x y(3)] by simp
  qed
  then have "find (hit s a) (fst (L d) @ snd (L d)) = None" by (auto simp: find_None_iff)
  then show ?thesis using cache_free_object_find [OF ok d(1), of a] by simp
qed

lemma free_in_caches_live:
  assumes ok: "heap_ok s C L" and a: "(c, a) \<in> live s C L" and cs: "c \<in> set cs" "set cs \<subseteq> C"
  shows "\<exists>s'. free_in_caches cs a s = Some s' \<and> cache_free_object c a s = Some (True, s')"
  using cs
proof (induction cs)
  case Nil
  then show ?case by simp
next
  case (Cons d cs)
  then show ?case
    using cache_free_object_live [OF ok a] cache_free_object_foreign [OF ok a, of d]
    by (cases "d = c") auto
qed

definition kmalloc_ready :: "nat \<Rightarrow> 'a kheap_scheme \<Rightarrow> (u64 \<Rightarrow> u64 list \<times> u64 list) \<Rightarrow> bool" where
  "kmalloc_ready n s L \<longleftrightarrow>
     heap_ok s (set (kmalloc_caches s)) L \<and>
     map (\<lambda>c. object_size (caches s c)) (kmalloc_caches s) = kmalloc_sizes \<and> fresh_frames n (vm_pmm s)"

lemma find_map: "find P (map f xs) = map_option f (find (P \<circ> f) xs)"
  by (induction xs) auto

text \<open>Allocation and release leave the list of caches and the headers of large blocks alone.\<close>

lemma upd_frame [simp]:
  "kmalloc_caches (upd_slab x f s) = kmalloc_caches s" "kmalloc_caches (upd_cache c g s) = kmalloc_caches s"
  "big_headers (upd_slab x f s) = big_headers s" "big_headers (upd_cache c g s) = big_headers s"
  by (simp_all add: upd_slab_def upd_cache_def)

lemma cache_move_slab_frame:
  "kmalloc_caches (snd (cache_move_slab c d e x s)) = kmalloc_caches s"
  "big_headers (snd (cache_move_slab c d e x s)) = big_headers s"
  by (simp_all add: cache_move_slab_def Let_def)

lemma cache_alloc_object_frame:
  assumes "cache_alloc_object c s = Some (a, s')"
  shows "kmalloc_caches s' = kmalloc_caches s" "big_headers s' = big_headers s"
proof -
  have al: "kmalloc_caches t' = kmalloc_caches t \<and> big_headers t' = big_headers t"
    if "cache_alloc_slab c t = Some (x, t')" for t t' :: "'a kheap_scheme" and x
    using that by (auto simp: cache_alloc_slab_def pmm_allocz_def Let_def split: bind_splits)
  have ob: "kmalloc_caches (snd (slab_alloc_object x t)) = kmalloc_caches t"
      "big_headers (snd (slab_alloc_object x t)) = big_headers t" for x and t :: "'a kheap_scheme"
    by (auto simp: slab_alloc_object_def Let_def split: option.split)
  have se: "kmalloc_caches (cache_settle c x t) = kmalloc_caches t"
      "big_headers (cache_settle c x t) = big_headers t" for x and t :: "'a kheap_scheme"
    by (simp_all add: cache_settle_def cache_move_slab_frame)
  obtain l x0 x t where t: "(if x0 = 0 then cache_alloc_slab c (upd_cache c (\<lambda>ca. ca\<lparr>cache_lock := l\<rparr>) s)
        else Some (x0, upd_cache c (\<lambda>ca. ca\<lparr>cache_lock := l\<rparr>) s)) = Some (x, t)"
      "s' = upd_cache c (\<lambda>ca. ca\<lparr>cache_lock := spinlock_release (cache_lock ca)\<rparr>)
        (cache_settle c x (snd (slab_alloc_object x t)))"
    using assms unfolding cache_alloc_object_def Let_def case_prod_unfold
    by (auto simp only: bind_eq_Some_conv option.inject prod.inject fst_conv snd_conv)
  have "kmalloc_caches t = kmalloc_caches s \<and> big_headers t = big_headers s"
    using t(1) by (auto dest!: al split: if_splits)
  then show "kmalloc_caches s' = kmalloc_caches s" "big_headers s' = big_headers s"
    by (simp_all add: t(2) se ob)
qed

text \<open>The cache a small request is served from: the first whose objects are large enough.\<close>

lemma kmalloc_cache:
  assumes "kmalloc_ready n s L" "0 < sz" "find (\<lambda>k. sz \<le> k) kmalloc_sizes = Some k"
  shows "\<exists>c\<in>set (kmalloc_caches s). kmalloc sz s = cache_alloc_object c s \<and> object_size (caches s c) = k"
proof -
  have sizes: "map (\<lambda>c. object_size (caches s c)) (kmalloc_caches s) = kmalloc_sizes"
    using assms(1) by (simp add: kmalloc_ready_def)
  obtain c where c: "find (\<lambda>c. sz \<le> object_size (caches s c)) (kmalloc_caches s) = Some c"
      "object_size (caches s c) = k"
    using assms(3) by (auto simp: sizes [symmetric] find_map comp_def)
  then show ?thesis
    using find_SomeD [OF c(1)] assms(2) by (intro bexI [of _ c]) (auto simp: kmalloc_def)
qed

text \<open>The bytes of two live objects do not overlap.\<close>

lemma live_disjoint:
  assumes ok: "heap_ok s C L" and "(c, a) \<in> live s C L" "(d, b) \<in> live s C L" "(c, a) \<noteq> (d, b)"
  shows "{unat a..<unat a + unat (object_size (caches s c))} \<inter>
    {unat b..<unat b + unat (object_size (caches s d))} = {}"
proof -
  obtain x i where x: "(c, x) \<in> all_slabs L C" "i < 512" "a = obj_addr (object_size (caches s c)) x i"
    using assms(2) by (auto simp: live_def)
  obtain y j where y: "(d, y) \<in> all_slabs L C" "j < 512" "b = obj_addr (object_size (caches s d)) y j"
    using assms(3) by (auto simp: live_def)
  note kx = heap_okD [OF ok x(1)] and ky = heap_okD [OF ok y(1)]
  show ?thesis
  proof (cases "x = y")
    case True
    then have cd: "c = d" using all_slabs_owner [OF ok x(1), of d] y(1) by blast
    have ij: "i \<noteq> j" using assms(4) True cd x(3) y(3) by auto
    let ?o = "unat (object_size (caches s c))"
    have step: "m * ?o + ?o \<le> n * ?o" if "m < n" for m n :: nat
      using mult_le_mono1 [of "Suc m" n ?o] that by simp
    have "unat a = unat x + 576 + i * ?o" "unat b = unat x + 576 + j * ?o"
      using obj_in_region(2) [OF kx(1,2) x(2)] obj_in_region(2) [OF ky(1,2) y(2)] True cd x(3) y(3) by auto
    then have "unat a + ?o \<le> unat b \<or> unat b + ?o \<le> unat a"
      using step [of i j] step [of j i] ij by (cases i j rule: linorder_cases) auto
    then show ?thesis using cd by auto
  next
    case False
    then show ?thesis
      using obj_in_region(1) [OF kx(1,2) x(2)] obj_in_region(1) [OF ky(1,2) y(2)]
        heap_ok_disjoint [OF ok x(1) y(1) False] x(3) y(3) by blast
  qed
qed

section \<open>Properties\<close>

text \<open>C21: \<^verbatim>\<open>cache_alloc_object\<close> never fails while there are frames for one more slab: it returns an object
  that is not null and not in use, marks exactly that object as used, and keeps the caches
  well-formed: doubly linked lists of partial and full slabs that do not overlap, counters that
  agree with the bitmaps, no slab in the empty list, no full slab among the partial ones.\<close>

theorem cache_alloc_object_fresh:
  assumes "heap_ok s C L" "c \<in> C"
    "fresh_frames (unat (slab_pages (object_size (caches s c))) + n) (vm_pmm s)"
  shows "\<exists>a s' L'. cache_alloc_object c s = Some (a, s') \<and> a \<noteq> 0 \<and> heap_ok s' C L' \<and>
    (c, a) \<notin> live s C L \<and> live s' C L' = insert (c, a) (live s C L) \<and> fresh_frames n (vm_pmm s')"
  using cache_alloc_object_ok [OF assms] by blast

definition heap_sample :: kheap where
  "heap_sample = \<lparr>vm_pmm = pmm_sample, vm_mem = (\<lambda>_ _. 0), slabs = (\<lambda>_. new_slab 0 0),
     caches = (\<lambda>_. zero_cache\<lparr>object_size := 16, pages_per_slab := slab_pages 16\<rparr>),
     big_headers = (\<lambda>_. \<lparr>bh_magic = 0, bh_page_count = 0, bh_size = 0\<rparr>), bytes = (\<lambda>_. 0),
     root_cache = 1, kmalloc_caches = [], cache_list = 0\<rparr>"

lemma heap_sample_ok: "heap_ok heap_sample {c} (\<lambda>_. ([], []))"
  by (simp add: heap_ok_def cache_rep_def heap_sample_def zero_cache_def size_ok_def all_slabs_def)

lemma heap_sample_frames: "slab_pages 16 = 3" "fresh_frames 12 (vm_pmm heap_sample)"
    "object_size (caches heap_sample c) = 16"
proof -
  show "slab_pages 16 = 3"
    by (simp add: slab_pages_def DIV_CEIL_def OBJECTS_PER_SLAB_def SIZEOF_SLAB_def PAGE_SIZE_def)
  show "fresh_frames 12 (vm_pmm heap_sample)"
    by (auto simp: fresh_frames_def heap_sample_def pmm_sample_free) (auto simp: pmm_sample_def)
  show "object_size (caches heap_sample c) = 16" by (simp add: heap_sample_def)
qed

theorem cache_alloc_object_fresh_witness:
  "\<exists>a s' L'. cache_alloc_object 1 heap_sample = Some (a, s') \<and> a \<noteq> 0 \<and> heap_ok s' {1} L' \<and>
     live s' {1} L' = {(1, a)}"
proof -
  have "fresh_frames (unat (slab_pages (object_size (caches heap_sample 1))) + 9) (vm_pmm heap_sample)"
    using heap_sample_frames by simp
  from cache_alloc_object_fresh [OF heap_sample_ok _ this] show ?thesis
    by (auto simp: live_def all_slabs_def)
qed

text \<open>C22: a client that takes objects from a cache and gives them all back, in any order, leaves the
  cache holding exactly the objects it held before; the objects taken are different from each other
  and from those in use.\<close>

theorem cache_alloc_free_balance:
  assumes "cache_holds c (n + k) s A"
  shows "\<exists>as s'. take_frames (cache_alloc_object c) n s = Some (as, s') \<and> distinct as \<and> set as \<inter> A = {} \<and>
    (\<forall>bs. distinct bs \<and> set bs = set as \<longrightarrow>
       (\<exists>s''. free_all (cache_free_object c) bs s' = Some s'' \<and> cache_holds c k s'' A))"
proof -
  obtain as s' where as: "take_frames (cache_alloc_object c) n s = Some (as, s')" "distinct as"
      "set as \<inter> A = {}" "cache_holds c k s' (A \<union> set as)"
    using pool.alloc_many [OF assms] by blast
  have "\<exists>s''. free_all (cache_free_object c) bs s' = Some s'' \<and> cache_holds c k s'' A"
    if "distinct bs" "set bs = set as" for bs
  proof -
    have "A \<union> set as - set bs = A" using as(3) that(2) by auto
    then show ?thesis using pool.free_many [OF as(4), of bs] that by auto
  qed
  with as show ?thesis by blast
qed

theorem cache_alloc_free_balance_witness:
  "\<exists>as s'. take_frames (cache_alloc_object 1) 2 heap_sample = Some (as, s') \<and> distinct as"
proof -
  have "cache_holds 1 (2 + 0) heap_sample {}"
    unfolding cache_holds_def using heap_sample_ok fresh_frames_mono [OF heap_sample_frames(2), of 6]
    by (intro exI [of _ "{1}"] exI [of _ "\<lambda>_. ([], [])"])
      (auto simp: heap_sample_frames live_def all_slabs_def)
  from cache_alloc_free_balance [OF this] show ?thesis by blast
qed

text \<open>C23: \<^verbatim>\<open>kmalloc\<close> of a size some cache serves returns an object of the smallest such cache; its bytes
  do not overlap those of any object in use.\<close>

theorem kmalloc_small_disjoint:
  assumes "kmalloc_ready (unat (slab_pages k) + n) s L" "0 < sz" "find (\<lambda>k. sz \<le> k) kmalloc_sizes = Some k"
  shows "\<exists>a s' L' c. kmalloc sz s = Some (a, s') \<and> a \<noteq> 0 \<and> c \<in> set (kmalloc_caches s) \<and>
    object_size (caches s c) = k \<and> sz \<le> k \<and> kmalloc_ready n s' L' \<and>
    live s' (set (kmalloc_caches s)) L' = insert (c, a) (live s (set (kmalloc_caches s)) L) \<and>
    (\<forall>(d, b)\<in>live s (set (kmalloc_caches s)) L.
       {unat a..<unat a + unat sz} \<inter> {unat b..<unat b + unat (object_size (caches s d))} = {})"
proof -
  let ?C = "set (kmalloc_caches s)"
  have h: "heap_ok s ?C L" "map (\<lambda>c. object_size (caches s c)) (kmalloc_caches s) = kmalloc_sizes"
      "fresh_frames (unat (slab_pages k) + n) (vm_pmm s)"
    using assms(1) by (auto simp: kmalloc_ready_def)
  obtain c where c: "c \<in> ?C" "kmalloc sz s = cache_alloc_object c s" "object_size (caches s c) = k"
    using kmalloc_cache [OF assms] by blast
  obtain a s' L' where a: "cache_alloc_object c s = Some (a, s')" "heap_ok s' ?C L'" "(c, a) \<notin> live s ?C L"
      "live s' ?C L' = insert (c, a) (live s ?C L)" "fresh_frames n (vm_pmm s')" "a \<noteq> 0"
      "\<forall>d. object_size (caches s' d) = object_size (caches s d)"
    using cache_alloc_object_ok [OF h(1) c(1) h(3) [folded c(3)]] by blast
  have le: "sz \<le> k" using find_SomeD [OF assms(3)] by simp
  have dis: "{unat a..<unat a + unat sz} \<inter> {unat b..<unat b + unat (object_size (caches s d))} = {}"
    if "(d, b) \<in> live s ?C L" for d b
  proof -
    have "{unat a..<unat a + unat k} \<inter> {unat b..<unat b + unat (object_size (caches s d))} = {}"
    proof -
      have "(c, a) \<in> live s' ?C L'" "(d, b) \<in> live s' ?C L'" "(c, a) \<noteq> (d, b)" using that a(3,4) by auto
      from live_disjoint [OF a(2) this] show ?thesis using a(7) c(3) by simp
    qed
    moreover have "{unat a..<unat a + unat sz} \<subseteq> {unat a..<unat a + unat k}"
      using le by (auto simp: word_le_nat_alt)
    ultimately show ?thesis by blast
  qed
  have ball: "\<forall>(d, b)\<in>live s ?C L.
      {unat a..<unat a + unat sz} \<inter> {unat b..<unat b + unat (object_size (caches s d))} = {}"
    using dis by blast
  have "kmalloc_ready n s' L'"
    using a h(2) cache_alloc_object_frame(1) [OF a(1)] by (simp add: kmalloc_ready_def)
  moreover have "kmalloc sz s = Some (a, s')" using a(1) c(2) by simp
  ultimately show ?thesis using a(4,6) c(1,3) le ball by blast
qed

definition kmalloc_sample :: kheap where
  "kmalloc_sample = heap_sample\<lparr>kmalloc_caches := [1, 2, 3, 4, 5, 6, 7, 8, 9, 10, 11],
     caches := (\<lambda>c. let sz = kmalloc_sizes ! (unat c - 1) in
       zero_cache\<lparr>object_size := sz, pages_per_slab := slab_pages sz\<rparr>)\<rparr>"

lemma kmalloc_sample_ready: "n \<le> 12 \<Longrightarrow> kmalloc_ready n kmalloc_sample (\<lambda>_. ([], []))"
proof -
  assume n: "n \<le> 12"
  have "map (\<lambda>c. object_size (caches kmalloc_sample c)) (kmalloc_caches kmalloc_sample) = kmalloc_sizes"
    by (simp add: kmalloc_sample_def kmalloc_sizes_def)
  moreover have "cache_rep (slabs kmalloc_sample) (caches kmalloc_sample)
      (last_used_index (vm_pmm kmalloc_sample)) c ([], [])" if "c \<in> set (kmalloc_caches kmalloc_sample)" for c
    using that
    by (auto simp: kmalloc_sample_def cache_rep_def zero_cache_def size_ok_def kmalloc_sizes_def)
  moreover have "fresh_frames n (vm_pmm kmalloc_sample)"
    using fresh_frames_mono [OF heap_sample_frames(2) n] by (simp add: kmalloc_sample_def)
  ultimately show ?thesis by (auto simp: kmalloc_ready_def heap_ok_def all_slabs_def)
qed

theorem kmalloc_small_disjoint_witness:
  "\<exists>a s' L'. kmalloc 10 kmalloc_sample = Some (a, s') \<and> a \<noteq> 0 \<and> kmalloc_ready 9 s' L'"
proof -
  have "unat (slab_pages 16) + 9 \<le> 12" by (simp add: heap_sample_frames)
  moreover have "find (\<lambda>k. 10 \<le> k) kmalloc_sizes = Some 16" by (simp add: kmalloc_sizes_def)
  ultimately show ?thesis
    using kmalloc_small_disjoint [OF kmalloc_sample_ready, of 16 9 10] by auto
qed

text \<open>C24: \<^verbatim>\<open>kfree\<close> of an object in use that is not page aligned takes exactly that object out of use and
  touches no page. An object that happens to be page aligned is taken for a large block: \<^verbatim>\<open>kfree\<close> leaves
  it in use and returns pages, starting with the page of the object, to the page allocator.\<close>

theorem kfree_object:
  assumes "kmalloc_ready n s L" "(c, a) \<in> live s (set (kmalloc_caches s)) L" "a \<noteq> 0"
  shows "if a AND 0xfff \<noteq> 0
    then \<exists>s'. kfree a s = Some s' \<and> kmalloc_ready n s' L \<and> vm_pmm s' = vm_pmm s \<and>
      live s' (set (kmalloc_caches s)) L = live s (set (kmalloc_caches s)) L - {(c, a)}
    else kfree a s = map_option (\<lambda>p. s\<lparr>vm_pmm := p\<rparr>)
      (pmm_free a (bh_page_count (big_headers s (a - PAGE_SIZE)) + 1) (vm_pmm s))"
proof (cases "a AND 0xfff = 0")
  case True
  then show ?thesis
    using assms(3) by (cases "pmm_free a (bh_page_count (big_headers s (a - PAGE_SIZE)) + 1) (vm_pmm s)")
      (auto simp: kfree_def)
next
  case False
  have ok: "heap_ok s (set (kmalloc_caches s)) L" using assms(1) by (simp add: kmalloc_ready_def)
  have "c \<in> set (kmalloc_caches s)" using assms(2) by (auto simp: live_def all_slabs_def)
  then obtain s' where "free_in_caches (kmalloc_caches s) a s = Some s'" "cache_free_object c a s = Some (True, s')"
    using free_in_caches_live [OF ok assms(2)] by blast
  moreover from this obtain "heap_ok s' (set (kmalloc_caches s)) L"
      "live s' (set (kmalloc_caches s)) L = live s (set (kmalloc_caches s)) L - {(c, a)}"
      "vm_pmm s' = vm_pmm s" "caches s' = caches s" "kmalloc_caches s' = kmalloc_caches s"
    using cache_free_object_live [OF ok assms(2)] by auto
  ultimately show ?thesis
    using False assms(1,3) by (auto simp: kfree_def kmalloc_ready_def)
qed

theorem kfree_object_witness:
  "\<exists>a s'. kmalloc 10 kmalloc_sample = Some (a, s') \<and>
     (if a AND 0xfff \<noteq> 0 then \<exists>s''. kfree a s' = Some s'' \<and> vm_pmm s'' = vm_pmm s'
      else kfree a s' = map_option (\<lambda>p. s'\<lparr>vm_pmm := p\<rparr>)
        (pmm_free a (bh_page_count (big_headers s' (a - PAGE_SIZE)) + 1) (vm_pmm s')))"
proof -
  have r': "kmalloc_ready (unat (slab_pages 16) + 9) kmalloc_sample (\<lambda>_. ([], []))"
    by (rule kmalloc_sample_ready) (simp add: heap_sample_frames)
  then have r: "heap_ok kmalloc_sample (set (kmalloc_caches kmalloc_sample)) (\<lambda>_. ([], []))"
      "fresh_frames (unat (slab_pages 16) + 9) (vm_pmm kmalloc_sample)"
    by (auto simp: kmalloc_ready_def)
  obtain c where c: "c \<in> set (kmalloc_caches kmalloc_sample)" "kmalloc 10 kmalloc_sample = cache_alloc_object c kmalloc_sample"
      "object_size (caches kmalloc_sample c) = 16"
    using kmalloc_cache [OF r', of 10 16] by (auto simp: kmalloc_sizes_def)
  obtain a s' L' where a: "kmalloc 10 kmalloc_sample = Some (a, s')" "heap_ok s' (set (kmalloc_caches kmalloc_sample)) L'"
      "(c, a) \<in> live s' (set (kmalloc_caches kmalloc_sample)) L'" "a \<noteq> 0" "fresh_frames 9 (vm_pmm s')"
      "\<forall>d. object_size (caches s' d) = object_size (caches kmalloc_sample d)"
    using cache_alloc_object_ok [OF r(1) c(1) r(2) [folded c(3)]] c(2) by auto
  have "kmalloc_caches s' = kmalloc_caches kmalloc_sample" using a(1) c(2) cache_alloc_object_frame(1) by metis
  moreover from this have "kmalloc_ready 9 s' L'" using a r' by (simp add: kmalloc_ready_def)
  ultimately show ?thesis using kfree_object [of 9 s' L' c a] a by auto
qed

end
