(* ===== verification/Pagemap.thy ===== *)
theory Pagemap
  imports Slab
begin

text \<open>
  Whole address spaces: the functions of \<^verbatim>\<open>kernel/src/mem/vmm.c\<close> that make, copy and destroy page maps and
  build the kernel's own. Page maps are objects of a slab cache; their contents are in a store
  \<open>pagemaps\<close>. As in theory \<open>Vmm\<close> tables are named by their physical address, without the offset of the
  direct mapping. Whether the CPU has 57-bit addresses, the limits of the kernel's sections and the
  load addresses are arguments.
\<close>

record vms = kheap +
  pagemaps :: "u64 \<Rightarrow> pagemap"
  pagemap_cache :: u64
  kernel_pagemap :: u64

text \<open>A \<^verbatim>\<open>for\<close> loop whose body may not return.\<close>

fun each :: "('i \<Rightarrow> 's \<Rightarrow> 's option) \<Rightarrow> 'i list \<Rightarrow> 's \<Rightarrow> 's option" where
  "each f [] s = Some s"
| "each f (i # is) s = do { s \<leftarrow> f i s; each f is s }"

definition free_frames :: "u64 \<Rightarrow> u64 \<Rightarrow> 'a vm_scheme \<Rightarrow> 'a vm_scheme option" where
  "free_frames a n s = do { p \<leftarrow> pmm_free a n (vm_pmm s); Some (s\<lparr>vm_pmm := p\<rparr>) }"

fun destroy_levels_recursive :: "nat \<Rightarrow> u64 \<Rightarrow> nat \<Rightarrow> nat \<Rightarrow> 'a vm_scheme \<Rightarrow> 'a vm_scheme option" where
  "destroy_levels_recursive 0 level start stop s = Some s"
| "destroy_levels_recursive (Suc 0) level start stop s = free_frames level 1 s"
| "destroy_levels_recursive (Suc (Suc d)) level start stop s = do {
     s \<leftarrow> each (\<lambda>i s.
            let e = vm_mem s level i in
            if \<not> is_present e then Some s
            else do {
              s \<leftarrow> (if is_huge e \<and> d = 0 then free_frames level (BIGPAGE_SIZE div PAGE_SIZE) s else Some s);
              destroy_levels_recursive (Suc d) (table_of e) 0 512 s
            }) [start..<stop] s;
     free_frames level 1 s
   }"

definition vmm_new_pagemap :: "bool \<Rightarrow> 'a vms_scheme \<Rightarrow> (u64 \<times> 'a vms_scheme) option" where
  "vmm_new_pagemap la57 s = do {
     (pm, s) \<leftarrow> cache_alloc_object (pagemap_cache s) s;
     if pm = 0 then Some (0, s)
     else do {
       (t, s) \<leftarrow> pmm_allocz 1 s;
       if t = 0 then do { (_, s) \<leftarrow> cache_free_object (pagemap_cache s) pm s; Some (0, s) }
       else do {
         let kt = top_level (pagemaps s (kernel_pagemap s));
         let s = s\<lparr>pagemaps := (pagemaps s)(pm := \<lparr>top_level = t, has_level5 = la57, pm_lock = 0\<rparr>)\<rparr>;
         let m = fold (\<lambda>i m. set_entry t i (m kt i) m) [256..<512] (vm_mem s);
         Some (pm, s\<lparr>vm_mem := m\<rparr>)
       }
     }
   }"

definition vmm_destroy_pagemap :: "u64 \<Rightarrow> 'a vms_scheme \<Rightarrow> 'a vms_scheme option" where
  "vmm_destroy_pagemap pm s = do {
     l \<leftarrow> spinlock_acquire (pm_lock (pagemaps s pm));
     let s = s\<lparr>pagemaps := (pagemaps s)(pm := (pagemaps s pm)\<lparr>pm_lock := l\<rparr>)\<rparr>;
     let p = pagemaps s pm;
     s \<leftarrow> destroy_levels_recursive (if has_level5 p then 5 else 4) (top_level p) 0 256 s;
     s \<leftarrow> free_frames (top_level p) 1 s;
     (_, s) \<leftarrow> cache_free_object (pagemap_cache s) pm s;
     Some s
   }"

text \<open>
  Copying a page map: the loops over the four levels of the old tables, whatever the depth of the
  tree is, and the copy of one page.
\<close>

text \<open>
  Frames that hold tables are in \<open>vm_mem\<close>, all other contents in \<open>bytes\<close>. A frame of user memory is filled
  through its bytes, so clearing new frames and copying a page is done in both.
\<close>

definition alloc_cleared :: "u64 \<Rightarrow> 'a kheap_scheme \<Rightarrow> (u64 \<times> 'a kheap_scheme) option" where
  "alloc_cleared pages s = do {
     (a, s) \<leftarrow> pmm_allocz pages s;
     Some (a, s\<lparr>bytes := memset_bytes a 0 (unat (pages * PAGE_SIZE)) (bytes s)\<rparr>)
   }"

text \<open>The pages of a range and the frames they get, and the loops that map them one by one.\<close>

definition page_frames :: "u64 \<Rightarrow> u64 \<Rightarrow> u64 \<Rightarrow> (u64 \<times> u64) list" where
  "page_frames vaddr paddr n = map (\<lambda>i. (vaddr + of_nat i * PAGE_SIZE, paddr + of_nat i * PAGE_SIZE)) [0..<unat n]"

definition map_range ::
    "u64 \<Rightarrow> u64 \<Rightarrow> u64 \<Rightarrow> u64 \<Rightarrow> u64 \<Rightarrow> 'a vms_scheme \<Rightarrow> (bool \<times> 'a vms_scheme) option" where
  "map_range pm vaddr paddr n flags s =
     map_pages (\<lambda>v p. vmm_map_page (pagemaps s pm) v p flags) (page_frames vaddr paddr n) s"

definition fork_page :: "u64 \<Rightarrow> nat \<Rightarrow> nat \<Rightarrow> nat \<Rightarrow> nat \<Rightarrow> u64 \<Rightarrow> 'a vms_scheme \<Rightarrow> 'a vms_scheme option" where
  "fork_page new_pm i j k l e s = do {
     (paddr, s) \<leftarrow> alloc_cleared 1 s;
     let s = s\<lparr>vm_mem := (vm_mem s)(paddr := vm_mem s (table_of e)),
               bytes := memcpy_bytes paddr (table_of e) (unat PAGE_SIZE) (bytes s)\<rparr>;
     (_, s) \<leftarrow> vmm_map_page (pagemaps s new_pm)
        (entries_to_vaddr (of_nat i) (of_nat j) (of_nat k) (of_nat l)) paddr (e AND PTE_FLAG_MASK) s;
     Some s
   }"

definition each_present ::
    "u64 \<Rightarrow> nat \<Rightarrow> (nat \<Rightarrow> u64 \<Rightarrow> 'a vms_scheme \<Rightarrow> 'a vms_scheme option) \<Rightarrow> 'a vms_scheme \<Rightarrow> 'a vms_scheme option" where
  "each_present t n f s =
     each (\<lambda>i s. if is_present (vm_mem s t i) then f i (vm_mem s t i) s else Some s) [0..<n] s"

definition vmm_fork_pagemap :: "bool \<Rightarrow> u64 \<Rightarrow> 'a vms_scheme \<Rightarrow> (u64 \<times> 'a vms_scheme) option" where
  "vmm_fork_pagemap la57 old_pm s = do {
     (new_pm, s) \<leftarrow> vmm_new_pagemap la57 s;
     if new_pm = 0 then Some (0, s)
     else do {
       s \<leftarrow> each_present (top_level (pagemaps s old_pm)) 256 (\<lambda>i e4.
              each_present (table_of e4) 512 (\<lambda>j e3.
                each_present (table_of e3) 512 (\<lambda>k e2.
                  each_present (table_of e2) 512 (\<lambda>l e1. fork_page new_pm i j k l e1)))) s;
       Some (new_pm, s)
     }
   }"

section \<open>The kernel's page map\<close>

text \<open>The pages of a range, from its start rounded down to its end rounded up, as the loops count them.\<close>

definition page_range :: "u64 \<Rightarrow> u64 \<Rightarrow> u64 list" where
  "page_range a b =
     (let a = ALIGN_DOWN a PAGE_SIZE; b = ALIGN_UP b PAGE_SIZE
      in if b \<le> a then [] else map (\<lambda>i. a + of_nat i * PAGE_SIZE) [0..<unat ((b - a) div PAGE_SIZE)])"

definition vmm_readonly_data_after_init :: "u64 \<Rightarrow> u64 \<Rightarrow> 'a vms_scheme \<Rightarrow> 'a vms_scheme option" where
  "vmm_readonly_data_after_init a b s =
     each (\<lambda>addr s. do {
         (ok, s) \<leftarrow> vmm_update_flags (pagemaps s (kernel_pagemap s)) addr (PTE_PRESENT OR PTE_NX) s;
         if ok then Some s else None
       }) (page_range a b) s"

definition vmm_unmap_text_after_init ::
    "u64 \<Rightarrow> u64 \<Rightarrow> u64 \<Rightarrow> u64 \<Rightarrow> 'a vms_scheme \<Rightarrow> 'a vms_scheme option" where
  "vmm_unmap_text_after_init virtual_base physical_base a b s = do {
     s \<leftarrow> each (\<lambda>addr s. do {
            (ok, s) \<leftarrow> vmm_unmap_page (pagemaps s (kernel_pagemap s)) addr s;
            if ok then Some s else None
          }) (page_range a b) s;
     let start = ALIGN_DOWN a PAGE_SIZE; let stop = ALIGN_UP b PAGE_SIZE;
     free_frames (start - virtual_base + physical_base) (DIV_CEIL stop start) s
   }"

text \<open>\<^verbatim>\<open>vmm_init\<close>: the top level, the direct mapping of the low 4 GB and of the memory map, and the sections.\<close>

definition map_big :: "u64 \<Rightarrow> u64 \<Rightarrow> 'a vms_scheme \<Rightarrow> 'a vms_scheme option" where
  "map_big high_vma paddr s = do {
     (_, s) \<leftarrow> vmm_map_page (pagemaps s (kernel_pagemap s)) (paddr + high_vma) paddr
        (PTE_PRESENT OR PTE_WRITABLE OR PTE_SIZE OR PTE_GLOBAL OR PTE_NX) s;
     Some s
   }"

definition map_section ::
    "(u64 \<Rightarrow> u64) \<Rightarrow> u64 \<Rightarrow> u64 \<times> u64 \<Rightarrow> 'a vms_scheme \<Rightarrow> 'a vms_scheme option" where
  "map_section paddr_of flags r s =
     each (\<lambda>addr s. do {
         (_, s) \<leftarrow> vmm_map_page (pagemaps s (kernel_pagemap s)) addr (paddr_of addr) flags s;
         Some s
       }) (page_range (fst r) (snd r)) s"

definition direct_mapped :: "memmap_type \<Rightarrow> bool" where
  "direct_mapped t \<longleftrightarrow>
     t = USABLE \<or> t = BOOTLOADER_RECLAIMABLE \<or> t = KERNEL_AND_MODULES \<or> t = FRAMEBUFFER"

definition map_entry :: "u64 \<Rightarrow> memmap_entry \<Rightarrow> 'a vms_scheme \<Rightarrow> 'a vms_scheme option" where
  "map_entry high_vma e s =
     (if \<not> direct_mapped (me_type e) then Some s
      else each (\<lambda>j. map_big high_vma (ALIGN_DOWN (me_base e) BIGPAGE_SIZE + of_nat j * BIGPAGE_SIZE))
             [0..<unat (DIV_CEIL (me_length e) BIGPAGE_SIZE)] s)"

record kernel_image =
  ki_text :: "u64 \<times> u64"
  ki_rodata :: "u64 \<times> u64"
  ki_data :: "u64 \<times> u64"
  ki_virtual_base :: u64
  ki_physical_base :: u64

definition SIZEOF_PAGEMAP :: u64 where "SIZEOF_PAGEMAP = 24"

definition vmm_init ::
    "bool \<Rightarrow> u64 \<Rightarrow> memmap_entry list \<Rightarrow> kernel_image \<Rightarrow> 'a vms_scheme \<Rightarrow> 'a vms_scheme option" where
  "vmm_init la57 high_vma memmap img s = do {
     (c, s) \<leftarrow> slab_cache_create ''pagemap cache'' SIZEOF_PAGEMAP s;
     if c = 0 then None
     else do {
       (kp, s) \<leftarrow> cache_alloc_object c (s\<lparr>pagemap_cache := c\<rparr>);
       (t, s) \<leftarrow> pmm_allocz 1 s;
       if t = 0 \<or> kp = 0 then None
       else do {
         let s = s\<lparr>kernel_pagemap := kp,
                   pagemaps := (pagemaps s)(kp := \<lparr>top_level = t, has_level5 = la57, pm_lock = 0\<rparr>)\<rparr>;
         s \<leftarrow> each (\<lambda>i s. do {
                (f, s) \<leftarrow> pmm_allocz 1 s;
                Some (s\<lparr>vm_mem := set_entry t i (f OR PTE_PRESENT OR PTE_WRITABLE) (vm_mem s)\<rparr>)
              }) [256..<512] s;
         s \<leftarrow> each (\<lambda>i. map_big high_vma (of_nat i * BIGPAGE_SIZE)) [0..<0x7ff] s;
         s \<leftarrow> each (map_entry high_vma) memmap s;
         let paddr_of = (\<lambda>a. a - ki_virtual_base img + ki_physical_base img);
         s \<leftarrow> map_section (\<lambda>a. ALIGN_DOWN (paddr_of a) PAGE_SIZE) (PTE_PRESENT OR PTE_GLOBAL) (ki_text img) s;
         s \<leftarrow> map_section paddr_of (PTE_PRESENT OR PTE_GLOBAL OR PTE_NX) (ki_rodata img) s;
         map_section paddr_of (PTE_PRESENT OR PTE_WRITABLE OR PTE_GLOBAL OR PTE_NX) (ki_data img) s
       }
     }
   }"

section \<open>A new page map\<close>

lemma copy_entries:
  assumes "t \<noteq> kt"
  shows "fold (\<lambda>i m. set_entry t i (m kt i) m) [a..<n] m = m(t := (\<lambda>i. if a \<le> i \<and> i < n then m kt i else m t i))"
proof (induction n)
  case (Suc n)
  show ?case
  proof (cases "a \<le> n")
    case True
    then have "fold (\<lambda>i m. set_entry t i (m kt i) m) [a..<Suc n] m =
        set_entry t n (m kt n) (m(t := (\<lambda>i. if a \<le> i \<and> i < n then m kt i else m t i)))"
      using assms by (simp add: Suc fun_upd_def)
    also have "\<dots> = m(t := (\<lambda>i. if a \<le> i \<and> i < Suc n then m kt i else m t i))"
      using True by (auto simp: set_entry_def fun_eq_iff less_Suc_eq)
    finally show ?thesis .
  next
    case False
    then have "(\<lambda>i. if a \<le> i \<and> i < Suc n then m kt i else m t i) = m t" by (auto simp: fun_eq_iff)
    then show ?thesis using False by simp
  qed
qed simp

text \<open>A table that does not occur in a tree can change without changing the tree.\<close>

lemma ptbl_outside:
  assumes "\<And>q t. length q \<le> length p \<Longrightarrow> path_ok q \<Longrightarrow> ptbl m root q = Some t \<Longrightarrow> m' t = m t" "path_ok p"
  shows "ptbl m' root p = ptbl m root p"
  using assms
proof (induction p arbitrary: root)
  case (Cons i p)
  have "child m' root i = child m root i" using Cons.prems(1) [of "[]"] by (simp add: child_def)
  moreover have "ptbl m' r p = ptbl m r p" if "child m root i = Some r" for r
  proof (rule Cons.IH)
    show "m' t = m t" if "length q \<le> length p" "path_ok q" "ptbl m r q = Some t" for q t
      using Cons.prems that \<open>child m root i = Some r\<close> by (intro Cons.prems(1) [of "i # q"]) auto
    show "path_ok p" using Cons.prems(2) by simp
  qed
  ultimately show ?case by (simp split: option.split)
qed simp

lemma map_ok_outside:
  assumes ok: "map_ok k pm s"
    and m: "\<And>t. t \<notin> frames_ahead (vm_pmm s) \<Longrightarrow> vm_mem s' t = vm_mem s t"
    and p: "frames_ahead (vm_pmm s') \<subseteq> frames_ahead (vm_pmm s)" "fresh_frames n (vm_pmm s')"
  shows "map_ok n pm s'"
    and "path_ok q \<Longrightarrow> length q \<le> pm_depth pm \<Longrightarrow> entry_at pm s' q i = entry_at pm s q i"
proof -
  let ?r = "top_level pm"
  have same: "vm_mem s' t = vm_mem s t"
    if "ptbl (vm_mem s) ?r q = Some t" "length q \<le> pm_depth pm" "path_ok q" for q t
  proof -
    have "t \<notin> frames_ahead (vm_pmm s)" using pt_apartD [of "pm_depth pm" "vm_mem s" ?r _ q t] that ok by (auto simp: map_ok_def)
    then show ?thesis by (rule m)
  qed
  have tbl: "ptbl (vm_mem s') ?r q = ptbl (vm_mem s) ?r q" if "path_ok q" "length q \<le> pm_depth pm" for q
    using that by (intro ptbl_outside) (auto intro: same)
  then show "path_ok q \<Longrightarrow> length q \<le> pm_depth pm \<Longrightarrow> entry_at pm s' q i = entry_at pm s q i"
    using same by (auto simp: pte_def split: option.split)
  have "pt_wf (pm_depth pm) (vm_mem s') ?r"
    using ok tbl same unfolding map_ok_def pt_wf_def by (metis Suc_leD less_imp_le_nat)
  moreover have "pt_apart (pm_depth pm) (vm_mem s') ?r (frames_ahead (vm_pmm s'))"
    using ok tbl p(1) unfolding map_ok_def pt_apart_def by (metis subsetD)
  ultimately show "map_ok n pm s'" using ok p(2) by (simp add: map_ok_def)
qed

section \<open>Ranges of pages\<close>

text \<open>In the lower half the index path of an address stands for its page number.\<close>

lemma unat_page: "unat (drop_bit 12 (a :: u64)) = unat a div 4096"
  by (simp add: drop_bit_eq_div unat_div)

lemma vpage_page:
  fixes a b :: u64
  assumes "a < 2 ^ 48" "b < 2 ^ 48"
  shows "vpage pm a = vpage pm b \<longleftrightarrow> unat a div 4096 = unat b div 4096"
proof -
  have high: "\<not> bit x n" if "48 \<le> n" "x < 2 ^ 48" for x :: u64 and n
  proof -
    have "take_bit 48 x = x" using that(2) by (simp add: take_bit_eq_mod mod_word_less)
    then show ?thesis using that(1) by (metis bit_take_bit_iff leD)
  qed
  have "vpage pm a = vpage pm b \<longleftrightarrow> (\<forall>n\<ge>12. bit a n = bit b n)"
    using high assms unfolding vpage_eq_bits by (auto split: if_splits)
  also have "\<dots> \<longleftrightarrow> drop_bit 12 a = drop_bit 12 b"
  proof
    assume "\<forall>n\<ge>12. bit a n = bit b n"
    then show "drop_bit 12 a = drop_bit 12 b" by (intro bit_word_eqI) (simp add: bit_drop_bit_eq)
  next
    assume eq: "drop_bit 12 a = drop_bit 12 b"
    have "bit x n = bit (drop_bit 12 x) (n - 12)" if "12 \<le> n" for x :: u64 and n using that by (simp add: bit_drop_bit_eq)
    then show "\<forall>n\<ge>12. bit a n = bit b n" using eq by simp
  qed
  also have "\<dots> \<longleftrightarrow> unat a div 4096 = unat b div 4096"
    unfolding unat_page [symmetric] by (simp add: word_unat_eq_iff)
  finally show ?thesis .
qed

lemma page_of_range:
  fixes v :: u64
  assumes "unat v + 4096 * n \<le> 2 ^ 47" "i < n"
  shows "unat (v + of_nat i * PAGE_SIZE) = unat v + 4096 * i" "v + of_nat i * PAGE_SIZE < 2 ^ 48"
proof -
  have i: "i < 2 ^ 47" using assms by simp
  show u: "unat (v + of_nat i * PAGE_SIZE) = unat v + 4096 * i"
    using assms i by (simp add: PAGE_SIZE_def unat_word_ariths unat_of_nat)
  show "v + of_nat i * PAGE_SIZE < 2 ^ 48"
    using u assms by (simp add: word_less_nat_alt)
qed

lemma map_range_lookup:
  fixes s :: "'a vms_scheme"
  assumes P: "P = pagemaps s pm" and ok: "map_ok (pm_depth P * (unat n + k)) P s" and fl: "table_flags flags" "\<not> is_huge flags"
    and v: "unat vaddr + 4096 * unat n \<le> 2 ^ 47"
    and small: "\<And>i. i < unat n \<Longrightarrow> \<not> large P s (vaddr + of_nat i * PAGE_SIZE)"
  shows "\<exists>s'. map_range pm vaddr paddr n flags s = Some (True, s') \<and> map_ok (pm_depth P * k) P s' \<and>
    (\<forall>i<unat n. vmm_get_page_mapping P (vaddr + of_nat i * PAGE_SIZE) s' =
       Some ((paddr + of_nat i * PAGE_SIZE) OR flags)) \<and>
    (\<forall>w. (\<forall>i<unat n. vpage P w \<noteq> vpage P (vaddr + of_nat i * PAGE_SIZE)) \<longrightarrow>
       vmm_get_page_mapping P w s' = vmm_get_page_mapping P w s)"
proof -
  let ?ps = "page_frames vaddr paddr n"
  have dist: "distinct (map (vpage P \<circ> fst) ?ps)"
  proof -
    have "i = j" if "i < unat n" "j < unat n" "vpage P (vaddr + of_nat i * PAGE_SIZE) = vpage P (vaddr + of_nat j * PAGE_SIZE)" for i j
    proof -
      note i = page_of_range [OF v that(1)] and j = page_of_range [OF v that(2)]
      have "(unat vaddr + 4096 * i) div 4096 = (unat vaddr + 4096 * j) div 4096"
        using that(3) unfolding vpage_page [OF i(2) j(2)] i(1) j(1) .
      then show "i = j" by simp
    qed
    then show ?thesis by (auto simp: page_frames_def distinct_map inj_on_def comp_def)
  qed
  have small: "\<forall>(v, p)\<in>set ?ps. \<not> large P s v" using small by (auto simp: page_frames_def)
  have ready: "map_ok (pm_depth P * (length ?ps + k)) P s \<and> table_flags flags \<and> \<not> is_huge flags"
    using ok fl by (simp add: page_frames_def)
  obtain s' where s': "map_pages (\<lambda>v p. vmm_map_page P v p flags) ?ps s = Some (True, s')"
      "map_ok (pm_depth P * k) P s'"
      "\<forall>(v, p)\<in>set ?ps. vmm_get_page_mapping P v s' = Some (p OR flags)"
      "\<forall>w. vpage P w \<notin> (vpage P \<circ> fst) ` set ?ps \<longrightarrow> vmm_get_page_mapping P w s' = vmm_get_page_mapping P w s"
    using pages.map_pages_lookup [where pm = P and flags = flags, OF ready small dist] by blast
  have "vmm_get_page_mapping P (vaddr + of_nat i * PAGE_SIZE) s' = Some ((paddr + of_nat i * PAGE_SIZE) OR flags)"
    if "i < unat n" for i
    using s'(3) that by (auto simp: page_frames_def)
  moreover have "vmm_get_page_mapping P w s' = vmm_get_page_mapping P w s"
    if "\<forall>i<unat n. vpage P w \<noteq> vpage P (vaddr + of_nat i * PAGE_SIZE)" for w
  proof -
    have "vpage P w \<notin> (vpage P \<circ> fst) ` set ?ps" using that by (auto simp: page_frames_def)
    then show ?thesis using s'(4) by blast
  qed
  ultimately show ?thesis using s'(1,2) unfolding map_range_def P by blast
qed

text \<open>Mapping changes tables and the frame allocator, nothing else.\<close>

definition same_rest :: "'a vm_scheme \<Rightarrow> 'a vm_scheme \<Rightarrow> bool" where
  "same_rest s s' \<longleftrightarrow> s' = s\<lparr>vm_pmm := vm_pmm s', vm_mem := vm_mem s'\<rparr>"

lemma same_rest_refl [simp]: "same_rest s s"
  by (simp add: same_rest_def)

lemma same_rest_upd: "same_rest s t \<Longrightarrow> same_rest s (t\<lparr>vm_mem := m\<rparr>)" "same_rest s t \<Longrightarrow> same_rest s (t\<lparr>vm_pmm := p\<rparr>)"
  by (cases s; cases t; simp add: same_rest_def)+

lemma same_rest_trans: "same_rest s t \<Longrightarrow> same_rest t u \<Longrightarrow> same_rest s u"
  by (cases s; cases t; cases u) (simp add: same_rest_def)

lemma pmm_allocz_rest: "pmm_allocz n s = Some (f, s') \<Longrightarrow> same_rest s s'"
  by (auto simp: pmm_allocz_def same_rest_def split: bind_splits)

lemma ensure_table_rest: "ensure_table flags t i s = Some (b, s') \<Longrightarrow> same_rest s s'"
  by (auto simp: ensure_table_def Let_def split: if_splits bind_splits intro!: same_rest_upd dest: pmm_allocz_rest)

lemma walk_alloc_rest: "walk_alloc flags is t s = Some (r, s') \<Longrightarrow> same_rest s s'"
proof (induction "is" arbitrary: t s)
  case (Cons i "is")
  then show ?case
    by (auto split: if_splits bind_splits dest!: ensure_table_rest intro: same_rest_trans)
qed simp

lemma vmm_map_page_rest: "vmm_map_page pm v p flags s = Some (b, s') \<Longrightarrow> same_rest s s'"
  unfolding vmm_map_page_def
  by (auto split: if_splits bind_splits option.splits intro!: same_rest_upd simp del: walk_alloc.simps
      dest!: walk_alloc_rest) (blast intro: same_rest_trans)+

lemma map_pages_rest:
  "map_pages (\<lambda>v p. vmm_map_page pm v p flags) ps s = Some (b, s') \<Longrightarrow> same_rest s s'"
proof (induction ps arbitrary: s)
  case (Cons vp ps)
  then show ?case
    by (cases vp) (auto split: if_splits bind_splits dest!: vmm_map_page_rest intro: same_rest_trans)
qed simp

section \<open>Properties\<close>

text \<open>C14: a new page map has the kernel's half of the address space in common with the kernel's page map
  and maps nothing in the user's half; making it changes no mapping of the kernel's page map.\<close>

theorem vmm_new_pagemap_halves:
  assumes "cache_alloc_object (pagemap_cache s) s = Some (pm, s1)" "pm \<noteq> 0" "pm \<noteq> kernel_pagemap s1"
    "K = pagemaps s1 (kernel_pagemap s1)" "map_ok (Suc n) K s1" "la57 = has_level5 K"
  shows "\<exists>s'. vmm_new_pagemap la57 s = Some (pm, s') \<and>
    (\<forall>vaddr. vmm_get_page_mapping K vaddr s' = vmm_get_page_mapping K vaddr s1) \<and>
    (\<forall>vaddr. vmm_get_page_mapping (pagemaps s' pm) vaddr s' =
       (if 256 \<le> hd (upper_path K vaddr) then vmm_get_page_mapping K vaddr s1 else Some (-1)))"
proof -
  let ?kt = "top_level K"
  have "fresh_frames (Suc n) (vm_pmm s1)" using assms(5) by (simp add: map_ok_def)
  then obtain f p where f: "pmm_allocz 1 s1 = Some (f, s1\<lparr>vm_pmm := p, vm_mem := (vm_mem s1)(f := (\<lambda>_. 0))\<rparr>)"
      "fresh_frames n p" "f \<in> frames_ahead (vm_pmm s1)" "frames_ahead p \<subseteq> frames_ahead (vm_pmm s1)" "f \<noteq> 0"
    using pmm_allocz_one [of n s1] by blast
  have kt: "f \<noteq> ?kt" using pt_apartD [of "pm_depth K" "vm_mem s1" ?kt _ "[]" ?kt] assms(5) f(3) by (auto simp: map_ok_def)
  define m where "m = (vm_mem s1)(f := (\<lambda>i. if 256 \<le> i \<and> i < 512 then vm_mem s1 ?kt i else 0))"
  define s' where "s' = s1\<lparr>vm_pmm := p,
      pagemaps := (pagemaps s1)(pm := \<lparr>top_level = f, has_level5 = la57, pm_lock = 0\<rparr>), vm_mem := m\<rparr>"
  have mem: "fold (\<lambda>i m. set_entry f i (m ?kt i) m) [256..<512] ((vm_mem s1)(f := (\<lambda>_. 0))) = m"
    using kt by (subst copy_entries) (auto simp: m_def fun_eq_iff)
  have new: "vmm_new_pagemap la57 s = Some (pm, s')"
    using assms(1-4) f(1,5)
    by (simp add: vmm_new_pagemap_def s'_def Let_def mem [unfolded assms(4)] del: upt_rec_numeral)
  have out: "vm_mem s' t = vm_mem s1 t" if "t \<notin> frames_ahead (vm_pmm s1)" for t
    using f(3) that by (auto simp: s'_def m_def)
  have ok': "map_ok n K s'" and same: "\<And>q i. path_ok q \<Longrightarrow> length q \<le> pm_depth K \<Longrightarrow> entry_at K s' q i = entry_at K s1 q i"
    using map_ok_outside [OF assms(5) out, of n] f(2,4) by (auto simp: s'_def)
  have kernel: "vmm_get_page_mapping K vaddr s' = vmm_get_page_mapping K vaddr s1" for vaddr
  proof -
    obtain up i2 i1 where v: "vpage K vaddr = (up, i2, i1)" by (cases "vpage K vaddr") auto
    show ?thesis
      by (intro same_lookup [OF assms(5) ok' v] same) (use vpage_path [OF v] in auto)
  qed
  have N: "vmm_get_page_mapping (pagemaps s' pm) vaddr s' =
       (if 256 \<le> hd (upper_path K vaddr) then vmm_get_page_mapping K vaddr s' else Some (-1))" for vaddr
  proof -
    obtain i r where up: "upper_path K vaddr = i # r" "i < 512"
      using upper_path_ok [of K vaddr] length_upper_path [of K vaddr]
      by (cases "upper_path K vaddr") (auto simp: pm_depth_def simp del: length_upper_path split: if_splits)
    have upN: "upper_path (pagemaps s' pm) vaddr = i # r"
      using up(1) assms(6) by (simp add: s'_def upper_path_def)
    have "m f i = (if 256 \<le> i then m ?kt i else 0)" using kt up(2) by (auto simp: m_def)
    then have "walk m (i # r) f = (if 256 \<le> i then walk m (i # r) ?kt else None)" by simp
    then show ?thesis
      using assms(5) unfolding vmm_get_page_mapping_def upN up(1) by (simp add: s'_def map_ok_def)
  qed
  show ?thesis using new kernel N by auto
qed

text \<open>A state in which the cache of page maps has a slab with room.\<close>

definition vms_sample :: vms where
  "vms_sample = kheap.extend
     (heap_sample\<lparr>caches := (\<lambda>_. zero_cache\<lparr>object_size := 24, partial_slabs := 0x9000\<rparr>),
        slabs := (\<lambda>_. \<lparr>sl_cache = 1, available_objects = 5, total_objects = 9, sl_bitmap = (\<lambda>_. 0),
          sl_buffer = 0x9100, sl_prev = 0, sl_next = 0\<rparr>)\<rparr>)
     \<lparr>pagemaps = (\<lambda>_. pm_sample), pagemap_cache = 1, kernel_pagemap = 0\<rparr>"

theorem vmm_new_pagemap_halves_witness:
  "\<exists>s'. vmm_new_pagemap False vms_sample = Some (0x9100, s') \<and>
     vmm_get_page_mapping (pagemaps s' 0x9100) 0x400000 s' = Some (-1)"
proof -
  have "BITMAP_TEST (\<lambda>_. 0) 0 = False" by (simp add: BITMAP_TEST_bit)
  then have "\<exists>s1. cache_alloc_object 1 vms_sample = Some (0x9100, s1) \<and> vm_mem s1 = vm_mem vm_sample \<and>
      vm_pmm s1 = vm_pmm vm_sample \<and> pagemaps s1 0 = pm_sample \<and> kernel_pagemap s1 = 0"
    by (simp add: cache_alloc_object_def vms_sample_def kheap.extend_def heap_sample_def zero_cache_def
        slab_alloc_object_def cache_settle_def upd_cache_def upd_slab_def Let_def vm_sample_def upt_conv_Cons)
  then obtain s1 where s1: "cache_alloc_object (pagemap_cache vms_sample) vms_sample = Some (0x9100, s1)"
      "vm_mem s1 = vm_mem vm_sample" "vm_pmm s1 = vm_pmm vm_sample" "pagemaps s1 (kernel_pagemap s1) = pm_sample"
      "0x9100 \<noteq> kernel_pagemap s1"
    by (auto simp: vms_sample_def kheap.extend_def)
  have "map_ok (Suc 0) pm_sample s1"
    using map_ok_sample [of "Suc 0"] s1(2,3) by (simp add: map_ok_def)
  moreover have "hd (upper_path pm_sample 0x400000) = 0"
    by (simp add: upper_path_def pm_sample_def pml_index_def)
  ultimately show ?thesis
    using vmm_new_pagemap_halves [OF s1(1) _ s1(5) s1(4) [symmetric], of 0 False]
    by (auto simp: pm_sample_def)
qed

end
