(* ===== verification/Threads.thy ===== *)
theory Threads
  imports ScFile Pagemap
begin

text \<open>
  Threads and the three lists of the scheduler: the first part of \<^verbatim>\<open>kernel/src/sys/sched.c\<close> with \<^verbatim>\<open>struct thread\<close>
  of \<^verbatim>\<open>kernel/include/sys/process.h\<close>. Threads live in a store and are linked by their \<^verbatim>\<open>next\<close> fields, as in the
  code; a walk along a cyclic list does not return. The state of the whole kernel is the file layer's
  extended by the threads, the process tables and the memory manager \<open>km\<close>. One CPU is modelled; the
  thread it runs is \<open>cpu_thread\<close>, and \<open>running\<close> of the file layer is that thread's process.

  The last fields are what the kernel keeps about the CPU: the stacks for interrupts, system calls and
  page faults, the time the timer is set to, the page table in use and three of its registers; the
  offset of the direct mapping, whether addresses have 57 bits and the size of the saved FPU state are
  fixed at start. \<open>stale_slots\<close> is what newly allocated arrays hold. The contents of the FPU are left out.
\<close>

datatype thread_state = THREAD_RUNNING | THREAD_READY_TO_RUN | THREAD_SLEEPING | THREAD_ZOMBIE

record registers =
  r_r15 :: u64
  r_r14 :: u64
  r_r13 :: u64
  r_r12 :: u64
  r_r11 :: u64
  r_r10 :: u64
  r_r9 :: u64
  r_r8 :: u64
  r_rsi :: u64
  r_rdi :: u64
  r_rbp :: u64
  r_rdx :: u64
  r_rcx :: u64
  r_rbx :: u64
  r_rax :: u64
  r_int_number :: u64
  r_error_code :: u64
  r_rip :: u64
  r_cs :: u64
  r_rflags :: u64
  r_rsp :: u64
  r_ss :: u64

record thread =
  t_tid :: int
  t_state :: thread_state
  t_process :: nat
  t_is_user :: bool
  t_lock :: u64
  t_timeslice :: u64
  t_sleep_until :: u64
  t_ticks :: timespec
  t_kernel_stack :: u64
  t_page_fault_stack :: u64
  t_user_stack :: u64
  t_user_stack_paddr :: u64
  t_ctx :: registers
  t_fpu_storage :: u64
  t_fs_base :: u64
  t_gs_base :: u64
  t_next :: nat

record dead_process =
  dp_pid :: int
  dp_ppid :: int
  dp_status :: int

record ksys = os +
  threads :: "nat \<Rightarrow> thread"
  next_thread :: nat
  runnable_threads :: nat
  blocking_threads :: nat
  zombie_threads :: nat
  thread_list_lock :: u64
  thread_management_lock :: u64
  kernel_process :: nat
  cpu_thread :: nat
  next_proc :: nat
  running_processes :: "vector option"
  dead_processes :: "dead_process list"
  next_pid :: int
  process_list_lock :: u64
  time_monotonic :: timespec
  km :: vms
  stale_slots :: "nat \<Rightarrow> u64"
  high_vma :: u64
  la57 :: bool
  fpu_storage_size :: u64
  cpu_user_stack :: u64
  cpu_kernel_stack :: u64
  cpu_ist2 :: u64
  cpu_oneshot :: u64
  cpu_cr3 :: u64
  msr_fs_base :: u64
  msr_gs_base :: u64
  msr_kernel_gs_base :: u64

definition upd_thread :: "nat \<Rightarrow> (thread \<Rightarrow> thread) \<Rightarrow> 'a ksys_scheme \<Rightarrow> 'a ksys_scheme" where
  "upd_thread t f s = s\<lparr>threads := (threads s)(t := f (threads s t))\<rparr>"

datatype tlist = Runnable | Blocking | Zombies

definition list_head :: "tlist \<Rightarrow> 'a ksys_scheme \<Rightarrow> nat" where
  "list_head l s = (case l of Runnable \<Rightarrow> runnable_threads s | Blocking \<Rightarrow> blocking_threads s | Zombies \<Rightarrow> zombie_threads s)"

definition set_list_head :: "tlist \<Rightarrow> nat \<Rightarrow> 'a ksys_scheme \<Rightarrow> 'a ksys_scheme" where
  "set_list_head l t s =
     (case l of Runnable \<Rightarrow> s\<lparr>runnable_threads := t\<rparr> | Blocking \<Rightarrow> s\<lparr>blocking_threads := t\<rparr>
      | Zombies \<Rightarrow> s\<lparr>zombie_threads := t\<rparr>)"

text \<open>The walks of \<^verbatim>\<open>add_thread_to_list\<close> to the last thread and of \<^verbatim>\<open>remove_thread_from_list\<close> to the thread
  before the given one, 0 if there is none.\<close>

partial_function (option) last_thread :: "(nat \<Rightarrow> thread) \<Rightarrow> nat \<Rightarrow> nat option" where
  [code]: "last_thread ts iter = (if t_next (ts iter) \<noteq> 0 then last_thread ts (t_next (ts iter)) else Some iter)"

partial_function (option) thread_before :: "(nat \<Rightarrow> thread) \<Rightarrow> nat \<Rightarrow> nat \<Rightarrow> nat option" where
  [code]: "thread_before ts iter t =
     (if iter = 0 then Some 0
      else if t_next (ts iter) = t then Some iter
      else thread_before ts (t_next (ts iter)) t)"

definition lock_threads :: "'a ksys_scheme \<Rightarrow> 'a ksys_scheme option" where
  "lock_threads s = do { l \<leftarrow> spinlock_acquire (thread_list_lock s); Some (s\<lparr>thread_list_lock := l\<rparr>) }"

definition unlock_threads :: "'a ksys_scheme \<Rightarrow> 'a ksys_scheme" where
  "unlock_threads s = s\<lparr>thread_list_lock := spinlock_release (thread_list_lock s)\<rparr>"

definition add_thread_to_list :: "tlist \<Rightarrow> nat \<Rightarrow> 'a ksys_scheme \<Rightarrow> 'a ksys_scheme option" where
  "add_thread_to_list l t s = do {
     s \<leftarrow> lock_threads s;
     if list_head l s = 0 then Some (unlock_threads (set_list_head l t s))
     else do {
       iter \<leftarrow> last_thread (threads s) (list_head l s);
       Some (unlock_threads (upd_thread iter (\<lambda>th. th\<lparr>t_next := t\<rparr>) s))
     }
   }"

definition remove_thread_from_list :: "tlist \<Rightarrow> nat \<Rightarrow> 'a ksys_scheme \<Rightarrow> 'a ksys_scheme option" where
  "remove_thread_from_list l t s = do {
     s \<leftarrow> lock_threads s;
     if list_head l s = t then
       if t = 0 then None
       else Some (unlock_threads (upd_thread t (\<lambda>th. th\<lparr>t_next := 0\<rparr>) (set_list_head l (t_next (threads s t)) s)))
     else do {
       iter \<leftarrow> thread_before (threads s) (list_head l s) t;
       if iter = 0 then Some (unlock_threads s)
       else if t = 0 then None
       else
         let s = upd_thread iter (\<lambda>th. th\<lparr>t_next := t_next (threads s t)\<rparr>) s
         in Some (unlock_threads (upd_thread t (\<lambda>th. th\<lparr>t_next := 0\<rparr>) s))
     }
   }"

text \<open>The thread \<^verbatim>\<open>get_next_thread\<close> returns is locked.\<close>

partial_function (option) ready_from :: "(nat \<Rightarrow> thread) \<Rightarrow> nat \<Rightarrow> nat option" where
  [code]: "ready_from ts iter =
     (if iter = 0 then Some 0
      else if t_state (ts iter) \<noteq> THREAD_READY_TO_RUN then ready_from ts (t_next (ts iter))
      else if fst (spinlock_test_and_acquire (t_lock (ts iter))) then Some iter
      else ready_from ts (t_next (ts iter)))"

definition get_next_thread :: "nat \<Rightarrow> 'a ksys_scheme \<Rightarrow> (nat \<times> 'a ksys_scheme) option" where
  "get_next_thread current s = do {
     t \<leftarrow> ready_from (threads s) (if current \<noteq> 0 then t_next (threads s current) else runnable_threads s);
     Some (t, if t = 0 then s
              else upd_thread t (\<lambda>th. th\<lparr>t_lock := snd (spinlock_test_and_acquire (t_lock th))\<rparr>) s)
   }"

definition sched_thread_enqueue :: "nat \<Rightarrow> 'a ksys_scheme \<Rightarrow> 'a ksys_scheme option" where
  "sched_thread_enqueue t s = add_thread_to_list Runnable t s"

definition sched_thread_dequeue :: "nat \<Rightarrow> 'a ksys_scheme \<Rightarrow> 'a ksys_scheme option" where
  "sched_thread_dequeue t s = do {
     s \<leftarrow> remove_thread_from_list Runnable t s;
     add_thread_to_list Zombies t (upd_thread t (\<lambda>th. th\<lparr>t_state := THREAD_ZOMBIE\<rparr>) s)
   }"

section \<open>Lists of threads\<close>

text \<open>The threads reached from a head, in order, ending in null.\<close>

fun chain :: "(nat \<Rightarrow> thread) \<Rightarrow> nat \<Rightarrow> nat list \<Rightarrow> bool" where
  "chain ts h [] \<longleftrightarrow> h = 0"
| "chain ts h (x # xs) \<longleftrightarrow> h = x \<and> x \<noteq> 0 \<and> chain ts (t_next (ts x)) xs"

definition queue :: "tlist \<Rightarrow> nat list \<Rightarrow> 'a ksys_scheme \<Rightarrow> bool" where
  "queue l xs s \<longleftrightarrow> chain (threads s) (list_head l s) xs \<and> distinct xs"

lemma chain_head: "chain ts h xs \<Longrightarrow> h = (case xs of [] \<Rightarrow> 0 | x # _ \<Rightarrow> x)"
  by (cases xs) auto

lemma chain_cong: "chain ts h xs \<Longrightarrow> (\<And>x. x \<in> set xs \<Longrightarrow> t_next (ts' x) = t_next (ts x)) \<Longrightarrow> chain ts' h xs"
  by (induction xs arbitrary: h) auto

lemma chain_nonzero: "chain ts h xs \<Longrightarrow> 0 \<notin> set xs"
  by (induction xs arbitrary: h) auto

lemma chain_append_last:
  "chain ts h xs \<Longrightarrow> distinct xs \<Longrightarrow> xs \<noteq> [] \<Longrightarrow> t \<notin> set xs \<Longrightarrow> t \<noteq> 0 \<Longrightarrow> t_next (ts t) = 0 \<Longrightarrow>
   chain (ts(last xs := (ts (last xs))\<lparr>t_next := t\<rparr>)) h (xs @ [t])"
proof (induction xs arbitrary: h)
  case (Cons x xs)
  show ?case
  proof (cases "xs = []")
    case True
    then show ?thesis using Cons.prems by auto
  next
    case False
    then have "chain (ts(last xs := (ts (last xs))\<lparr>t_next := t\<rparr>)) (t_next (ts x)) (xs @ [t])"
      using Cons.prems by (intro Cons.IH) auto
    moreover have "last xs \<noteq> x" using Cons.prems(2) False by auto
    ultimately show ?thesis using Cons.prems False by (auto simp: fun_upd_def)
  qed
qed simp

lemma last_thread_chain: "chain ts h xs \<Longrightarrow> xs \<noteq> [] \<Longrightarrow> last_thread ts h = Some (last xs)"
proof (induction xs arbitrary: h)
  case (Cons x xs)
  then show ?case
    by (cases xs) (subst last_thread.simps; auto)+
qed simp

lemma thread_before_chain:
  "chain ts h xs \<Longrightarrow> distinct xs \<Longrightarrow> t \<noteq> 0 \<Longrightarrow> h \<noteq> t \<Longrightarrow>
   thread_before ts h t = Some (if t \<in> set xs then last (takeWhile (\<lambda>x. x \<noteq> t) xs) else 0)"
proof (induction xs arbitrary: h)
  case Nil
  then show ?case by (subst thread_before.simps) simp
next
  case (Cons x xs)
  show ?case
  proof (cases xs)
    case Nil
    then show ?thesis
      using Cons.prems by (subst thread_before.simps, subst thread_before.simps) auto
  next
    case (Cons y ys)
    then have "t_next (ts x) = y" using Cons.prems(1) by simp
    then show ?thesis
      using Cons.prems Cons.IH [of y] Cons by (subst thread_before.simps) auto
  qed
qed

lemma chain_remove:
  assumes "chain ts h (as @ a # t # bs)" "distinct (as @ a # t # bs)"
  shows "chain (ts(a := (ts a)\<lparr>t_next := t_next (ts t)\<rparr>, t := (ts t)\<lparr>t_next := 0\<rparr>)) h (as @ a # bs)"
  using assms
proof (induction as arbitrary: h)
  case Nil
  then show ?case by (auto intro: chain_cong)
next
  case (Cons x as)
  then show ?case by auto
qed

text \<open>The invariant of the scheduler: three disjoint lists that end in null; threads in none of them are not
  linked to others; the lock of the lists is free between operations.\<close>

definition sched_ok :: "(tlist \<Rightarrow> nat list) \<Rightarrow> 'a ksys_scheme \<Rightarrow> bool" where
  "sched_ok L s \<longleftrightarrow>
     thread_list_lock s = 0 \<and> (\<forall>l. queue l (L l) s) \<and> (\<forall>l l'. l \<noteq> l' \<longrightarrow> set (L l) \<inter> set (L l') = {}) \<and>
     (\<forall>t. (\<forall>l. t \<notin> set (L l)) \<longrightarrow> t_next (threads s t) = 0)"

text \<open>A step that only relinks threads.\<close>

definition relinked :: "'a ksys_scheme \<Rightarrow> 'a ksys_scheme \<Rightarrow> bool" where
  "relinked s s' \<longleftrightarrow> (\<forall>x. (threads s' x)\<lparr>t_next := 0\<rparr> = (threads s x)\<lparr>t_next := 0\<rparr>) \<and>
     s' = s\<lparr>threads := threads s', runnable_threads := runnable_threads s', blocking_threads := blocking_threads s',
            zombie_threads := zombie_threads s', thread_list_lock := thread_list_lock s'\<rparr>"

lemma list_head_simps [simp]:
  "list_head l (s\<lparr>thread_list_lock := v\<rparr>) = list_head l s"
  "list_head l (upd_thread t f s) = list_head l s"
  "list_head l (set_list_head l' t s) = (if l = l' then t else list_head l s)"
  "threads (set_list_head l' t s) = threads s" "thread_list_lock (set_list_head l t s) = thread_list_lock s"
  "threads (upd_thread t f s) = (threads s)(t := f (threads s t))"
  "thread_list_lock (upd_thread t f s) = thread_list_lock s"
  by (auto simp: list_head_def set_list_head_def upd_thread_def split: tlist.split)

lemma relinked_refl [simp]: "relinked s s"
  by (simp add: relinked_def)

lemma relinked_lock: "relinked s (s\<lparr>thread_list_lock := l\<rparr>)"
  by (simp add: relinked_def)

lemma relinked_head: "relinked s (set_list_head l t s)"
  by (auto simp: relinked_def set_list_head_def split: tlist.split)

lemma relinked_next: "relinked s (upd_thread t (\<lambda>th. th\<lparr>t_next := n\<rparr>) s)"
  by (simp add: relinked_def upd_thread_def)

lemma relinked_trans: "relinked s t \<Longrightarrow> relinked t u \<Longrightarrow> relinked s u"
  unfolding relinked_def by (cases s; cases t; cases u) auto

lemma lock_threads_free: "thread_list_lock s = 0 \<Longrightarrow> lock_threads s = Some (s\<lparr>thread_list_lock := 1\<rparr>)"
  by (simp add: lock_threads_def)

lemma unlock_threads_eq: "unlock_threads s = s\<lparr>thread_list_lock := 0\<rparr>"
  by (simp add: unlock_threads_def spinlock_release_def)

lemma sched_okD:
  assumes "sched_ok L s"
  shows "chain (threads s) (list_head l s) (L l)" "distinct (L l)" "thread_list_lock s = 0"
    "(\<And>l. t \<notin> set (L l)) \<Longrightarrow> t_next (threads s t) = 0"
    "x \<in> set (L l) \<Longrightarrow> l \<noteq> l' \<Longrightarrow> x \<notin> set (L l')"
  using assms unfolding sched_ok_def queue_def by blast+

lemma add_thread_ok:
  assumes ok: "sched_ok L s" and t: "t \<noteq> 0" "\<And>l. t \<notin> set (L l)"
  shows "\<exists>s'. add_thread_to_list l t s = Some s' \<and> sched_ok (L(l := L l @ [t])) s' \<and> relinked s s'"
proof (cases "L l = []")
  case True
  then have h: "list_head l s = 0" using sched_okD(1) [OF ok, of l] by simp
  let ?s' = "(set_list_head l t (s\<lparr>thread_list_lock := 1\<rparr>))\<lparr>thread_list_lock := 0\<rparr>"
  have "add_thread_to_list l t s = Some ?s'"
    using ok h by (simp add: add_thread_to_list_def lock_threads_free sched_ok_def unlock_threads_eq)
  moreover have "sched_ok (L(l := L l @ [t])) ?s'"
  proof -
    have "t_next (threads s x) = 0" if "\<forall>k. x \<notin> set ((L(l := L l @ [t])) k)" for x
      by (rule sched_okD(4) [OF ok]) (use that True in \<open>metis fun_upd_other empty_iff empty_set\<close>)
    then show ?thesis using ok t True unfolding sched_ok_def queue_def by (simp add: fun_upd_def)
  qed
  moreover have "relinked s ?s'" 
      by (rule relinked_trans [OF relinked_trans [OF relinked_lock relinked_head] relinked_lock])
  ultimately show ?thesis by blast
next
  case False
  note c = sched_okD(1,2) [OF ok, of l]
  have h: "list_head l s \<noteq> 0" using chain_head [OF c(1)] chain_nonzero [OF c(1)] False by (cases "L l") auto
  let ?e = "last (L l)"
  let ?s' = "(upd_thread ?e (\<lambda>th. th\<lparr>t_next := t\<rparr>) (s\<lparr>thread_list_lock := 1\<rparr>))\<lparr>thread_list_lock := 0\<rparr>"
  have run: "add_thread_to_list l t s = Some ?s'"
    using ok h last_thread_chain [OF c(1) False]
    by (simp add: add_thread_to_list_def lock_threads_free sched_ok_def unlock_threads_eq)
  have "chain ((threads s)(?e := (threads s ?e)\<lparr>t_next := t\<rparr>)) (list_head l s) (L l @ [t])"
    using chain_append_last [OF c False] t ok by (auto simp: sched_ok_def)
  moreover have "chain ((threads s)(?e := (threads s ?e)\<lparr>t_next := t\<rparr>)) (list_head k s) (L k)" if "k \<noteq> l" for k
  proof (rule chain_cong)
    show "chain (threads s) (list_head k s) (L k)" using ok by (auto simp: sched_ok_def queue_def)
    have "?e \<notin> set (L k)" using ok that False unfolding sched_ok_def by (meson disjoint_iff last_in_set)
    then show "x \<in> set (L k) \<Longrightarrow> t_next (((threads s)(?e := (threads s ?e)\<lparr>t_next := t\<rparr>)) x) = t_next (threads s x)" for x
      by auto
  qed
  moreover have "?e \<in> set (L l)" using False by simp
  ultimately have "sched_ok (L(l := L l @ [t])) ?s'"
    using ok t by (auto simp: sched_ok_def queue_def)
  moreover have "relinked s ?s'" 
      by (rule relinked_trans [OF relinked_trans [OF relinked_lock relinked_next] relinked_lock])
  ultimately show ?thesis using run by blast
qed

text \<open>The lists after changing one of them and the links of threads that are in no other.\<close>

lemma sched_ok_relink:
  assumes ok: "sched_ok L s"
    and l: "chain ts h xs" "set xs \<subseteq> set (L l)" "distinct xs"
    and same: "\<And>x. x \<notin> set (L l) \<Longrightarrow> t_next (ts x) = t_next (threads s x)"
    and out: "\<And>x. x \<in> set (L l) \<Longrightarrow> x \<notin> set xs \<Longrightarrow> t_next (ts x) = 0"
    and s': "threads s' = ts" "list_head l s' = h" "\<And>k. k \<noteq> l \<Longrightarrow> list_head k s' = list_head k s" "thread_list_lock s' = 0"
  shows "sched_ok (L(l := xs)) s'"
proof -
  have "chain ts (list_head k s) (L k)" if "k \<noteq> l" for k
    using sched_okD(1) [OF ok, of k]
    by (rule chain_cong) (use same sched_okD(5) [OF ok _ that] in blast)
  then have "queue k ((L(l := xs)) k) s'" for k
    using l s' sched_okD(2) [OF ok, of k] by (cases "k = l") (auto simp: queue_def)
  moreover have "set ((L(l := xs)) k) \<inter> set ((L(l := xs)) k') = {}" if "k \<noteq> k'" for k k'
    using sched_okD(5) [OF ok] l(2) that by (auto split: if_splits)
  moreover have "t_next (ts t) = 0" if "\<forall>k. t \<notin> set ((L(l := xs)) k)" for t
  proof (cases "t \<in> set (L l)")
    case True
    then show ?thesis using out that by (metis fun_upd_same)
  next
    case False
    then have "\<And>k. t \<notin> set (L k)" using that by (metis fun_upd_other)
    then show ?thesis using same [OF False] sched_okD(4) [OF ok] by simp
  qed
  ultimately show ?thesis using s' by (simp add: sched_ok_def)
qed

lemma remove_thread_ok:
  assumes ok: "sched_ok L s" and t: "t \<in> set (L l)"
  shows "\<exists>s'. remove_thread_from_list l t s = Some s' \<and> sched_ok (L(l := remove1 t (L l))) s' \<and> relinked s s'"
proof -
  note c = sched_okD(1,2) [OF ok, of l]
  have t0: "t \<noteq> 0" using chain_nonzero [OF c(1)] t by metis
  obtain as bs where L: "L l = as @ t # bs" "t \<notin> set as" using split_list_first [OF t] by blast
  then have r: "remove1 t (L l) = as @ bs" by (simp add: remove1_append)
  show ?thesis
  proof (cases as rule: rev_cases)
    case Nil
    let ?s' = "(upd_thread t (\<lambda>th. th\<lparr>t_next := 0\<rparr>) (set_list_head l (t_next (threads s t)) (s\<lparr>thread_list_lock := 1\<rparr>)))
      \<lparr>thread_list_lock := 0\<rparr>"
    have h: "list_head l s = t" "chain (threads s) (t_next (threads s t)) bs" using c L Nil by auto
    have "remove_thread_from_list l t s = Some ?s'"
      using h t0 ok by (simp add: remove_thread_from_list_def lock_threads_free sched_okD(3) unlock_threads_eq)
    moreover have "sched_ok (L(l := bs)) ?s'"
    proof (rule sched_ok_relink [OF ok])
      show "chain ((threads s)(t := (threads s t)\<lparr>t_next := 0\<rparr>)) (t_next (threads s t)) bs"
        using h(2) by (rule chain_cong) (use c L in auto)
    qed (use c L Nil in \<open>auto split: if_splits\<close>)
    moreover have "relinked s ?s'" 
      by (rule relinked_trans [OF relinked_trans [OF relinked_trans [OF relinked_lock relinked_head] relinked_next] relinked_lock])
    ultimately show ?thesis using r Nil by auto
  next
    case (snoc as' a)
    let ?s' = "(upd_thread t (\<lambda>th. th\<lparr>t_next := 0\<rparr>)
      (upd_thread a (\<lambda>th. th\<lparr>t_next := t_next (threads s t)\<rparr>) (s\<lparr>thread_list_lock := 1\<rparr>)))\<lparr>thread_list_lock := 0\<rparr>"
    have h: "list_head l s \<noteq> t" using chain_head [OF c(1)] L snoc by (cases as') auto
    have at: "a \<noteq> t" "a \<noteq> 0" using c(2) L snoc chain_nonzero [OF c(1)] by auto
    have "takeWhile (\<lambda>x. x \<noteq> t) (L l) = as" using L by (auto simp: takeWhile_append)
    then have "thread_before (threads s) (list_head l s) t = Some a"
      using thread_before_chain [OF c t0 h] t snoc by simp
    then have "remove_thread_from_list l t s = Some ?s'"
      using h at t0 ok by (simp add: remove_thread_from_list_def lock_threads_free sched_okD(3) unlock_threads_eq Let_def)
    moreover have "sched_ok (L(l := as @ bs)) ?s'"
    proof (rule sched_ok_relink [OF ok])
      show "chain ((threads s)(a := (threads s a)\<lparr>t_next := t_next (threads s t)\<rparr>, t := (threads s t)\<lparr>t_next := 0\<rparr>))
          (list_head l s) (as @ bs)"
        using chain_remove [of "threads s" "list_head l s" as' a t bs] c L snoc by simp
    qed (use c L snoc at in \<open>auto split: if_splits\<close>)
    moreover have "relinked s ?s'" 
      by (rule relinked_trans [OF relinked_trans [OF relinked_trans [OF relinked_lock relinked_next] relinked_next] relinked_lock])
    ultimately show ?thesis using r by auto
  qed
qed

definition zero_timespec :: timespec where "zero_timespec = \<lparr>tv_sec = 0, tv_nsec = 0\<rparr>"

definition zero_registers :: registers where
  "zero_registers = \<lparr>r_r15 = 0, r_r14 = 0, r_r13 = 0, r_r12 = 0, r_r11 = 0, r_r10 = 0, r_r9 = 0, r_r8 = 0, r_rsi = 0,
     r_rdi = 0, r_rbp = 0, r_rdx = 0, r_rcx = 0, r_rbx = 0, r_rax = 0, r_int_number = 0, r_error_code = 0, r_rip = 0,
     r_cs = 0, r_rflags = 0, r_rsp = 0, r_ss = 0\<rparr>"

definition zero_thread :: thread where
  "zero_thread = \<lparr>t_tid = 0, t_state = THREAD_RUNNING, t_process = 0, t_is_user = False, t_lock = 0, t_timeslice = 0,
     t_sleep_until = 0, t_ticks = zero_timespec, t_kernel_stack = 0, t_page_fault_stack = 0, t_user_stack = 0,
     t_user_stack_paddr = 0, t_ctx = zero_registers, t_fpu_storage = 0, t_fs_base = 0, t_gs_base = 0, t_next = 0\<rparr>"

section \<open>A state for examples\<close>

text \<open>Three threads of process 1: 1 runs, 2 and 3 are ready, all in the runnable list.\<close>

definition sample_thread :: "nat \<Rightarrow> thread" where
  "sample_thread t = zero_thread\<lparr>t_tid := int t, t_process := 1, t_state := (if t = 1 then THREAD_RUNNING else THREAD_READY_TO_RUN),
     t_lock := (if t = 1 then 1 else 0), t_next := (if t = 1 then 2 else if t = 2 then 3 else 0)\<rparr>"

definition sample_ksys :: ksys where
  "sample_ksys = os.extend (sample_os False)
     \<lparr>threads = sample_thread, next_thread = 4, runnable_threads = 1, blocking_threads = 0, zombie_threads = 0,
      thread_list_lock = 0, thread_management_lock = 0, kernel_process = 2, cpu_thread = 1, next_proc = 3,
      running_processes = Some (vector_create 8 (\<lambda>_. 0)), dead_processes = [], next_pid = 2, process_list_lock = 0,
      time_monotonic = zero_timespec, km = vms_sample, stale_slots = (\<lambda>_. 0), high_vma = 0xffff800000000000,
      la57 = False, fpu_storage_size = 512, cpu_user_stack = 0, cpu_kernel_stack = 0, cpu_ist2 = 0, cpu_oneshot = 0,
      cpu_cr3 = 0, msr_fs_base = 0, msr_gs_base = 0, msr_kernel_gs_base = 0\<rparr>"

lemma sample_ksys_simps:
  "procs sample_ksys p = sample_proc False" "km sample_ksys = vms_sample" "threads sample_ksys = sample_thread"
  "runnable_threads sample_ksys = 1" "blocking_threads sample_ksys = 0" "zombie_threads sample_ksys = 0"
  "thread_list_lock sample_ksys = 0" "thread_management_lock sample_ksys = 0" "cpu_thread sample_ksys = 1"
  "mem_left sample_ksys = 10"
  by (simp_all add: sample_ksys_def os.extend_def sample_os_simps)

end
