(* ===== verification/Ustack.thy ===== *)
theory Ustack
  imports Fd
begin

text \<open>
  The stack a program starts with, the middle part of \<^verbatim>\<open>thread_create\<close> of \<^verbatim>\<open>kernel/src/sys/process.c\<close>.
\<close>

text \<open>
  The strings of the environment and of the arguments, then the two arrays of pointers to them. The code
  writes through the frames of the stack, whose end is \<open>stack_top\<close>, and computes pointers relative to the
  end \<open>rsp\<close> of the stack in the address space of the program.
\<close>

definition poke :: "u64 \<Rightarrow> u8 list \<Rightarrow> (u64 \<Rightarrow> u8) \<Rightarrow> u64 \<Rightarrow> u8" where
  "poke a bs m = fold (\<lambda>i m. m(a + of_nat i := bs ! i)) [0..<length bs] m"

definition poke_word :: "u64 \<Rightarrow> u64 \<Rightarrow> (u64 \<Rightarrow> u8) \<Rightarrow> u64 \<Rightarrow> u8" where
  "poke_word a w = poke a (le_bytes 8 (uint w))"

fun push_strings :: "cstring list \<Rightarrow> u64 \<Rightarrow> (u64 \<Rightarrow> u8) \<Rightarrow> u64 \<times> (u64 \<Rightarrow> u8)" where
  "push_strings [] stack m = (stack, m)"
| "push_strings (x # xs) stack m =
     (let stack = stack - of_nat (length x) - 1
      in push_strings xs stack (poke (stack + of_nat (length x)) [0] (poke stack x m)))"

fun store_pointers :: "cstring list \<Rightarrow> u64 \<Rightarrow> u64 \<Rightarrow> (u64 \<Rightarrow> u8) \<Rightarrow> u64 \<times> (u64 \<Rightarrow> u8)" where
  "store_pointers [] slot old_rsp m = (old_rsp, m)"
| "store_pointers (x # xs) slot old_rsp m =
     (let old_rsp = old_rsp - (of_nat (length x) + 1)
      in store_pointers xs (slot + 8) old_rsp (poke_word slot old_rsp m))"

record stack_image =
  si_mem :: "u64 \<Rightarrow> u8"
  si_argc :: u64
  si_argv :: u64
  si_envp :: u64
  si_rsp :: u64

definition build_stack :: "u64 \<Rightarrow> u64 \<Rightarrow> cstring list \<Rightarrow> cstring list \<Rightarrow> (u64 \<Rightarrow> u8) \<Rightarrow> stack_image" where
  "build_stack stack_top rsp argv envp m =
     (let (stack, m) = push_strings envp stack_top m;
          (stack, m) = push_strings argv stack m;
          stack = ALIGN_DOWN stack 16;
          stack = (if odd (length argv + length envp + 1) then stack - 8 else stack);
          stack = stack - 8; m = poke_word stack 0 m;
          stack = stack - 8 * of_nat (length envp);
          (old_rsp, m) = store_pointers envp stack rsp m;
          rdx = rsp - (stack_top - stack);
          stack = stack - 8; m = poke_word stack 0 m;
          stack = stack - 8 * of_nat (length argv);
          (_, m) = store_pointers argv stack old_rsp m
      in \<lparr>si_mem = m, si_argc = of_nat (length argv), si_argv = rsp - (stack_top - stack), si_envp = rdx,
          si_rsp = rsp - (stack_top - stack)\<rparr>)"

section \<open>Words and strings in memory\<close>

definition le_value :: "u8 list \<Rightarrow> int" where
  "le_value bs = foldr (\<lambda>b v. uint b + 256 * v) bs 0"

definition load_word :: "(u64 \<Rightarrow> u8) \<Rightarrow> u64 \<Rightarrow> u64" where
  "load_word m a = word_of_int (le_value (map (\<lambda>i. m (a + of_nat i)) [0..<8]))"

definition str_at :: "(u64 \<Rightarrow> u8) \<Rightarrow> u64 \<Rightarrow> cstring \<Rightarrow> bool" where
  "str_at m a x \<longleftrightarrow> (\<forall>i\<le>length x. m (a + of_nat i) = (x @ [0]) ! i)"

lemma le_value_le_bytes: "le_value (le_bytes n w) = w mod 256 ^ n"
proof (induction n arbitrary: w)
  case (Suc n)
  have "uint (word_of_int w :: u8) = w mod 256" by (simp add: uint_word_of_int)
  then show ?case using Suc [of "w div 256"] by (simp add: le_value_def zmod_zmult2_eq)
qed (simp add: le_value_def)

lemma length_le_bytes [simp]: "length (le_bytes n w) = n"
  by (induction n arbitrary: w) auto

lemma load_word_bytes:
  assumes "\<And>i. i < 8 \<Longrightarrow> m (a + of_nat i) = le_bytes 8 (uint w) ! i"
  shows "load_word m a = w"
proof -
  have "map (\<lambda>i. m (a + of_nat i)) [0..<8] = le_bytes 8 (uint w)"
    using assms by (intro nth_equalityI) auto
  moreover have "uint w < 256 ^ 8" using uint_lt2p [of w] by simp
  ultimately show ?thesis by (simp add: load_word_def le_value_le_bytes)
qed

lemma unat_of_nat_64: "k < 2 ^ 64 \<Longrightarrow> unat (of_nat k :: u64) = k"
  by (simp add: unat_of_nat)

lemma unat_minus_of_nat: "0 < k \<Longrightarrow> k < 2 ^ 64 \<Longrightarrow> unat (- (of_nat k :: u64)) = 2 ^ 64 - k"
proof -
  assume k: "0 < k" "k < 2 ^ 64"
  have "(of_nat (2 ^ 64 - k) :: u64) = - of_nat k" using k by (simp add: of_nat_diff)
  then have "- (of_nat k :: u64) = of_nat (2 ^ 64 - k)" by simp
  then show ?thesis using k unat_of_nat_64 [of "2 ^ 64 - k"] by (simp del: of_nat_diff)
qed

lemma poke_apply:
  assumes "length bs < 2 ^ 64"
  shows "poke a bs m x = (if unat (x - a) < length bs then bs ! unat (x - a) else m x)"
proof -
  have "fold (\<lambda>i m. m(a + of_nat i := bs ! i)) [0..<k] m x = (if unat (x - a) < k then bs ! unat (x - a) else m x)"
    if "k \<le> length bs" for k
    using that
  proof (induction k)
    case (Suc k)
    have "x = a + of_nat k \<longleftrightarrow> unat (x - a) = k"
    proof
      assume "x = a + of_nat k"
      then show "unat (x - a) = k" using Suc.prems assms by (simp add: unat_of_nat_64)
    next
      assume "unat (x - a) = k"
      then have "of_nat k = x - a" by auto
      then show "x = a + of_nat k" by simp
    qed
    then show ?case using Suc by (auto simp: less_Suc_eq)
  qed simp
  then show ?thesis by (simp add: poke_def)
qed


text \<open>
  Addresses are measured by their distance below the end \<open>T\<close> of the stack. \<open>unchanged T lo hi m m'\<close>: only the
  bytes at distances from \<open>lo + 1\<close> to \<open>hi\<close> may differ.
\<close>

definition unchanged :: "u64 \<Rightarrow> nat \<Rightarrow> nat \<Rightarrow> (u64 \<Rightarrow> u8) \<Rightarrow> (u64 \<Rightarrow> u8) \<Rightarrow> bool" where
  "unchanged T lo hi m m' \<longleftrightarrow>
     (\<forall>d. d < 2 ^ 64 \<longrightarrow> d \<le> lo \<or> hi < d \<longrightarrow> m' (T - of_nat d) = m (T - of_nat d))"

definition holds :: "u64 \<Rightarrow> (u64 \<Rightarrow> u8) \<Rightarrow> nat \<Rightarrow> u8 list \<Rightarrow> bool" where
  "holds T m d bs \<longleftrightarrow> (\<forall>i<length bs. m (T - of_nat d + of_nat i) = bs ! i)"

lemma below_end: "i \<le> d \<Longrightarrow> T - of_nat d + of_nat i = T - (of_nat (d - i) :: u64)"
  by (simp add: of_nat_diff)

lemma poke_holds:
  assumes "length bs \<le> d" "d < 2 ^ 64"
  shows "holds T (poke (T - of_nat d) bs m) d bs" "unchanged T (d - length bs) d m (poke (T - of_nat d) bs m)"
proof -
  have len: "length bs < 2 ^ 64" using assms by simp
  show "holds T (poke (T - of_nat d) bs m) d bs"
    using assms by (auto simp: holds_def poke_apply [OF len] unat_of_nat_64)
  have "\<not> unat (of_nat d - (of_nat e :: u64)) < length bs" if "e < 2 ^ 64" "e \<le> d - length bs \<or> d < e" for e
  proof (cases "e \<le> d")
    case True
    then show ?thesis using that assms by (auto simp: unat_of_nat_64 simp flip: of_nat_diff)
  next
    case False
    then have "of_nat d - of_nat e = - (of_nat (e - d) :: u64)" by (simp add: of_nat_diff)
    then have "unat (of_nat d - (of_nat e :: u64)) = 2 ^ 64 - (e - d)"
      using False that unat_minus_of_nat [of "e - d"] by (simp del: of_nat_diff)
    then show ?thesis using False that assms by simp
  qed
  then show "unchanged T (d - length bs) d m (poke (T - of_nat d) bs m)"
    by (auto simp: unchanged_def poke_apply [OF len])
qed

lemma unchanged_refl [simp]: "unchanged T lo hi m m"
  by (simp add: unchanged_def)

lemma unchanged_trans:
  "unchanged T a b m m' \<Longrightarrow> unchanged T b c m' m'' \<Longrightarrow> a \<le> b \<Longrightarrow> b \<le> c \<Longrightarrow> unchanged T a c m m''"
  by (auto simp: unchanged_def)

lemma unchanged_mono: "unchanged T a b m m' \<Longrightarrow> a' \<le> a \<Longrightarrow> b \<le> b' \<Longrightarrow> unchanged T a' b' m m'"
  by (auto simp: unchanged_def)

lemma holds_unchanged:
  assumes "holds T m d bs" "unchanged T lo hi m m'" "d < 2 ^ 64" "length bs \<le> d" "d \<le> lo \<or> hi \<le> d - length bs"
  shows "holds T m' d bs"
  unfolding holds_def
proof (intro allI impI)
  fix i assume i: "i < length bs"
  then have "d - i < 2 ^ 64" "d - i \<le> lo \<or> hi < d - i" using assms(3-5) by auto
  then have "m' (T - of_nat (d - i)) = m (T - of_nat (d - i))"
    using assms(2) unfolding unchanged_def by blast
  then show "m' (T - of_nat d + of_nat i) = bs ! i"
    using assms(1,4) i by (simp add: holds_def below_end del: of_nat_diff)
qed

lemma holds_append:
  assumes "holds T m d xs" "holds T m (d - length xs) ys" "length xs \<le> d"
  shows "holds T m d (xs @ ys)"
  unfolding holds_def
proof (intro allI impI)
  fix i assume i: "i < length (xs @ ys)"
  show "m (T - of_nat d + of_nat i) = (xs @ ys) ! i"
  proof (cases "i < length xs")
    case True
    then show ?thesis using assms(1) by (simp add: holds_def nth_append)
  next
    case False
    then have "T - of_nat (d - length xs) + of_nat (i - length xs) = T - (of_nat d :: u64) + of_nat i"
      using assms(3) by simp
    moreover have "m (T - of_nat (d - length xs) + of_nat (i - length xs)) = ys ! (i - length xs)"
      using assms(2) i False unfolding holds_def by (metis add_diff_inverse_nat length_append nat_add_left_cancel_less)
    ultimately have "m (T - of_nat d + of_nat i) = ys ! (i - length xs)" by metis
    then show ?thesis using False by (simp add: nth_append)
  qed
qed

section \<open>The layout of the stack\<close>

text \<open>The distances at which the strings of a list start when they are pushed from distance \<open>e\<close> on, and the
  distance reached.\<close>

fun starts :: "nat \<Rightarrow> cstring list \<Rightarrow> nat list" where
  "starts e [] = []"
| "starts e (x # xs) = (e + length x + 1) # starts (e + length x + 1) xs"

definition pushed :: "nat \<Rightarrow> cstring list \<Rightarrow> nat" where
  "pushed e xs = e + (\<Sum>x\<leftarrow>xs. length x + 1)"

lemma pushed_simps [simp]: "pushed e [] = e" "pushed e (x # xs) = pushed (e + length x + 1) xs"
  by (simp_all add: pushed_def)

lemma pushed_ge: "e \<le> pushed e xs"
  by (simp add: pushed_def)

lemma starts_bound: "i < length xs \<Longrightarrow> e + length (xs ! i) + 1 \<le> starts e xs ! i \<and> starts e xs ! i \<le> pushed e xs"
proof (induction xs arbitrary: e i)
  case (Cons x xs)
  show ?case
  proof (cases i)
    case 0
    then show ?thesis using pushed_ge [of "e + length x + 1" xs] by simp
  next
    case (Suc j)
    then show ?thesis using Cons.IH [of j "e + length x + 1"] Cons.prems by auto
  qed
qed simp

lemma length_starts [simp]: "length (starts e xs) = length xs"
  by (induction xs arbitrary: e) auto

lemma push_strings_layout:
  "pushed e xs < 2 ^ 64 \<Longrightarrow> \<exists>m'. push_strings xs (T - of_nat e) m = (T - of_nat (pushed e xs), m') \<and>
     unchanged T e (pushed e xs) m m' \<and> (\<forall>i<length xs. holds T m' (starts e xs ! i) (xs ! i @ [0]))"
proof (induction xs arbitrary: e m)
  case (Cons x xs)
  let ?e = "e + length x + 1"
  have e: "?e < 2 ^ 64" using Cons.prems pushed_ge [of ?e xs] by simp
  define m1 where "m1 = poke (T - of_nat ?e) x m"
  define m2 where "m2 = poke (T - of_nat (e + 1)) [0] m1"
  have m1: "holds T m1 ?e x" "unchanged T (e + 1) ?e m m1"
    using poke_holds [of x ?e T m] e by (simp_all add: m1_def)
  have m2: "holds T m2 (e + 1) [0]" "unchanged T e (e + 1) m1 m2"
    using poke_holds [of "[0]" "e + 1" T m1] e by (simp_all add: m2_def)
  have x: "holds T m2 ?e (x @ [0])"
    using holds_unchanged [OF m1(1) m2(2) e] m2(1) by (intro holds_append) auto
  have u: "unchanged T e ?e m m2" using m1(2) m2(2) by (auto simp: unchanged_def)
  obtain m' where m': "push_strings xs (T - of_nat ?e) m2 = (T - of_nat (pushed ?e xs), m')"
      "unchanged T ?e (pushed ?e xs) m2 m'" "\<forall>i<length xs. holds T m' (starts ?e xs ! i) (xs ! i @ [0])"
    using Cons.IH [of ?e m2] Cons.prems by auto
  have "holds T m' ?e (x @ [0])" using holds_unchanged [OF x m'(2) e] by simp
  then have "\<forall>i<length (x # xs). holds T m' (starts e (x # xs) ! i) ((x # xs) ! i @ [0])"
    using m'(3) by (auto simp: nth_Cons' less_Suc_eq_0_disj)
  moreover have "unchanged T e (pushed e (x # xs)) m m'"
    using unchanged_trans [OF u m'(2)] pushed_ge [of ?e xs] by simp
  moreover have "push_strings (x # xs) (T - of_nat e) m = push_strings xs (T - of_nat ?e) m2"
    by (simp add: m1_def m2_def Let_def algebra_simps)
  ultimately show ?case using m'(1) by simp
qed simp

lemma store_pointers_layout:
  "8 * length xs \<le> g \<Longrightarrow> g < 2 ^ 64 \<Longrightarrow>
   \<exists>m'. store_pointers xs (T - of_nat g) (R - of_nat e) m = (R - of_nat (pushed e xs), m') \<and>
     unchanged T (g - 8 * length xs) g m m' \<and>
     (\<forall>i<length xs. holds T m' (g - 8 * i) (le_bytes 8 (uint (R - of_nat (starts e xs ! i) :: u64))))"
proof (induction xs arbitrary: g e m)
  case (Cons x xs)
  let ?e = "e + length x + 1" and ?w = "R - of_nat (e + length x + 1) :: u64"
  define m1 where "m1 = poke_word (T - of_nat g) ?w m"
  have m1: "holds T m1 g (le_bytes 8 (uint ?w))" "unchanged T (g - 8) g m m1"
    using poke_holds [of "le_bytes 8 (uint ?w)" g T m] Cons.prems by (simp_all add: m1_def poke_word_def)
  have g8: "8 * length xs \<le> g - 8" "g - 8 < 2 ^ 64" using Cons.prems by auto
  obtain m' where m': "store_pointers xs (T - of_nat (g - 8)) (R - of_nat ?e) m1 = (R - of_nat (pushed ?e xs), m')"
      "unchanged T (g - 8 - 8 * length xs) (g - 8) m1 m'"
      "\<forall>i<length xs. holds T m' (g - 8 - 8 * i) (le_bytes 8 (uint (R - of_nat (starts ?e xs ! i) :: u64)))"
    using Cons.IH [of "g - 8" ?e m1, OF g8] by blast
  have "holds T m' g (le_bytes 8 (uint ?w))"
    using holds_unchanged [OF m1(1) m'(2)] Cons.prems by simp
  then have "\<forall>i<length (x # xs). holds T m' (g - 8 * i) (le_bytes 8 (uint (R - of_nat (starts e (x # xs) ! i) :: u64)))"
    using m'(3) by (auto simp: less_Suc_eq_0_disj)
  moreover have "unchanged T (g - 8 * length (x # xs)) g m m'"
    using m1(2) m'(2) Cons.prems(1) by (auto simp: unchanged_def)
  moreover have "T - of_nat (g - 8) = T - of_nat g + (8 :: u64)" using Cons.prems(1) by simp
  then have "store_pointers (x # xs) (T - of_nat g) (R - of_nat e) m = store_pointers xs (T - of_nat (g - 8)) (R - of_nat ?e) m1"
    by (simp add: m1_def Let_def algebra_simps del: of_nat_diff)
  ultimately show ?case using m'(1) by simp
qed simp


lemma unat_align_16: "unat (ALIGN_DOWN x 16) = unat x div 16 * 16"
proof -
  have "unat x div 16 * 16 < 2 ^ 64" using unat_lt_64 [of x] div_times_less_eq_dividend [of "unat x" 16] by linarith
  then show ?thesis by (simp add: ALIGN_DOWN_def unat_word_ariths unat_div)
qed

lemma round_down_16:
  fixes A k :: nat
  assumes "A + 15 \<le> 16 * k"
  shows "(16 * k - A) div 16 * 16 = 16 * k - (A + 15) div 16 * 16"
proof -
  define q where "q = (A + 15) div 16"
  have q: "A \<le> 16 * q" "16 * q \<le> A + 15" unfolding q_def by linarith+
  then have "16 * k - A = (16 * q - A) + (k - q) * 16" "16 * q - A < 16" using assms by auto
  then have "(16 * k - A) div 16 = k - q" by simp
  then show ?thesis by (simp add: q_def diff_mult_distrib)
qed

lemma align_below:
  assumes "unat T mod 16 = 0" "A + 15 \<le> unat T"
  shows "ALIGN_DOWN (T - of_nat A) 16 = T - of_nat ((A + 15) div 16 * 16)"
proof -
  have A: "A < 2 ^ 64" "(A + 15) div 16 * 16 \<le> unat T" using assms(2) unat_lt_64 [of T] by auto
  then have d: "unat (T - of_nat B) = unat T - B" if "B \<le> unat T" for B
    using that unat_lt_64 [of T] by (subst unat_sub) (auto simp: word_le_nat_alt unat_of_nat_64)
  have "unat (ALIGN_DOWN (T - of_nat A) 16) = (unat T - A) div 16 * 16"
    using assms(2) by (simp add: unat_align_16 d)
  also have "\<dots> = unat T - (A + 15) div 16 * 16"
    using round_down_16 [of A "unat T div 16"] assms by (simp add: mod_eq_0_iff_dvd)
  also have "\<dots> = unat (T - of_nat ((A + 15) div 16 * 16))" using d [OF A(2)] by simp
  finally show ?thesis by (simp add: word_unat_eq_iff)
qed

lemma holds_load: "holds T m d (le_bytes 8 (uint w)) \<Longrightarrow> load_word m (T - of_nat d) = w"
  by (rule load_word_bytes) (auto simp: holds_def)

lemma holds_str: "holds T m d (x @ [0]) \<Longrightarrow> str_at m (T - of_nat d) x"
  by (auto simp: holds_def str_at_def)

text \<open>The space two lists take: the strings, the arrays with their null pointers, and padding.\<close>

definition stack_needed :: "cstring list \<Rightarrow> cstring list \<Rightarrow> nat" where
  "stack_needed argv envp = pushed (pushed 0 envp) argv + 8 * (length argv + length envp) + 48"


text \<open>An array of pointers and the null pointer behind it.\<close>

lemma store_array_layout:
  fixes T R :: u64
  assumes "f + 8 + 8 * length xs < 2 ^ 64"
  defines "g \<equiv> f + 8 + 8 * length xs"
  shows "\<exists>m'. store_pointers xs (T - of_nat g) (R - of_nat e) (poke_word (T - of_nat (f + 8)) 0 m) = (R - of_nat (pushed e xs), m') \<and>
     unchanged T f g m m' \<and> holds T m' (f + 8) (le_bytes 8 0) \<and>
     (\<forall>i<length xs. holds T m' (g - 8 * i) (le_bytes 8 (uint (R - of_nat (starts e xs ! i)))))"
proof -
  define m1 where "m1 = poke_word (T - of_nat (f + 8)) 0 m"
  have m1: "holds T m1 (f + 8) (le_bytes 8 0)" "unchanged T f (f + 8) m m1"
    using poke_holds [of "le_bytes 8 0" "f + 8" T m] assms by (simp_all add: m1_def poke_word_def)
  have g: "8 * length xs \<le> g" "g < 2 ^ 64" "g - 8 * length xs = f + 8" "f + 8 \<le> g" using assms by auto
  obtain m' where m': "store_pointers xs (T - of_nat g) (R - of_nat e) m1 = (R - of_nat (pushed e xs), m')"
      "unchanged T (f + 8) g m1 m'" "\<forall>i<length xs. holds T m' (g - 8 * i) (le_bytes 8 (uint (R - of_nat (starts e xs ! i))))"
    using store_pointers_layout [OF g(1,2), of T R e m1] unfolding g(3) by blast
  have "holds T m' (f + 8) (le_bytes 8 0)"
    by (rule holds_unchanged [OF m1(1) m'(2)]) (use g in auto)
  moreover have "unchanged T f g m m'" using unchanged_trans [OF m1(2) m'(2)] g by simp
  ultimately show ?thesis using m' m1_def by blast
qed

text \<open>Where the arrays of pointers to the environment and to the arguments start, by the distance \<open>a\<close> the
  strings reach.\<close>

definition padded :: "nat \<Rightarrow> nat \<Rightarrow> nat" where
  "padded a n = (a + 15) div 16 * 16 + (if odd (n + 1) then 8 else 0)"

definition env_start :: "cstring list \<Rightarrow> cstring list \<Rightarrow> nat" where
  "env_start argv envp =
     padded (pushed (pushed 0 envp) argv) (length argv + length envp) + 8 + 8 * length envp"

definition arg_start :: "cstring list \<Rightarrow> cstring list \<Rightarrow> nat" where
  "arg_start argv envp = env_start argv envp + 8 + 8 * length argv"

lemma padded_bounds: "a \<le> padded a n" "padded a n \<le> a + 23"
  by (auto simp: padded_def)

lemma arg_start_bounds:
  "arg_start argv envp \<le> stack_needed argv envp" "arg_start argv envp mod 16 = 8"
proof -
  let ?n = "length argv + length envp" and ?a = "pushed (pushed 0 envp) argv"
  show "arg_start argv envp \<le> stack_needed argv envp"
    using padded_bounds(2) [of ?a ?n] by (simp add: arg_start_def env_start_def stack_needed_def)
  have "arg_start argv envp = 16 * ((?a + 15) div 16) + 8 * (?n + 2 + (if odd (?n + 1) then 1 else 0))"
    by (simp add: arg_start_def env_start_def padded_def)
  moreover have "odd (?n + 2 + (if odd (?n + 1) then 1 else 0))" by simp
  ultimately obtain q where "arg_start argv envp = 16 * ((?a + 15) div 16) + 8 * (2 * q + 1)" by (metis oddE)
  then show "arg_start argv envp mod 16 = 8" by presburger
qed

lemma padded_stack:
  fixes T :: u64
  assumes "unat T mod 16 = 0" "a + 15 \<le> unat T"
  shows "(if odd (n + 1) then ALIGN_DOWN (T - of_nat a) 16 - 8 else ALIGN_DOWN (T - of_nat a) 16) = T - of_nat (padded a n)"
  using align_below [OF assms] by (simp add: padded_def)

lemma build_stack_stages:
  assumes "push_strings envp T m = (s1, m1)" "push_strings argv s1 m1 = (s2, m2)"
    "(if odd (length argv + length envp + 1) then ALIGN_DOWN s2 16 - 8 else ALIGN_DOWN s2 16) = s3"
    "s4 = s3 - 8" "g = s4 - 8 * of_nat (length envp)" "store_pointers envp g R (poke_word s4 0 m2) = (r, m3)"
    "s5 = g - 8" "h = s5 - 8 * of_nat (length argv)" "store_pointers argv h r (poke_word s5 0 m3) = (r', m4)"
  shows "build_stack T R argv envp m = \<lparr>si_mem = m4, si_argc = of_nat (length argv), si_argv = R - (T - h),
    si_envp = R - (T - g), si_rsp = R - (T - h)\<rparr>"
  unfolding build_stack_def Let_def assms(1) prod.case assms(2,3) assms(4) [symmetric] assms(5) [symmetric] assms(6)
    assms(7) [symmetric] assms(8) [symmetric] assms(9) ..

text \<open>The whole image by distances below the end of the stack.\<close>

lemma build_stack_image:
  fixes T R :: u64
  assumes T: "unat T mod 16 = 0" and fits: "stack_needed argv envp \<le> unat T"
  defines "E \<equiv> pushed 0 envp" and "ge \<equiv> env_start argv envp" and "ga \<equiv> arg_start argv envp"
  obtains m' where "build_stack T R argv envp m = \<lparr>si_mem = m', si_argc = of_nat (length argv),
       si_argv = R - of_nat ga, si_envp = R - of_nat ge, si_rsp = R - of_nat ga\<rparr>"
    "unchanged T 0 ga m m'"
    "\<And>i. i < length envp \<Longrightarrow> holds T m' (starts 0 envp ! i) (envp ! i @ [0])"
    "\<And>i. i < length envp \<Longrightarrow> holds T m' (ge - 8 * i) (le_bytes 8 (uint (R - of_nat (starts 0 envp ! i))))"
    "holds T m' (ge - 8 * length envp) (le_bytes 8 0)"
    "\<And>i. i < length argv \<Longrightarrow> holds T m' (starts E argv ! i) (argv ! i @ [0])"
    "\<And>i. i < length argv \<Longrightarrow> holds T m' (ga - 8 * i) (le_bytes 8 (uint (R - of_nat (starts E argv ! i))))"
    "holds T m' (ga - 8 * length argv) (le_bytes 8 0)"
proof -
  define A where "A = pushed E argv"
  define F where "F = padded A (length argv + length envp)"
  have ge: "ge = F + 8 + 8 * length envp" "ga = ge + 8 + 8 * length argv"
    by (simp_all add: ge_def ga_def env_start_def arg_start_def A_def E_def F_def)
  have A: "E \<le> A" "A \<le> F" by (simp_all add: A_def F_def pushed_ge padded_bounds)
  have "ga \<le> unat T" using arg_start_bounds(1) fits unfolding ga_def by (rule order_trans)
  then have lim: "A < 2 ^ 64" "E < 2 ^ 64" "F + 8 + 8 * length envp < 2 ^ 64" "ge + 8 + 8 * length argv < 2 ^ 64" "A + 15 \<le> unat T"
    using A unat_lt_64 [of T] fits by (auto simp: ge stack_needed_def A_def E_def)
  obtain m1 where m1: "push_strings envp (T - of_nat 0) m = (T - of_nat E, m1)" "unchanged T 0 E m m1"
      "\<forall>i<length envp. holds T m1 (starts 0 envp ! i) (envp ! i @ [0])"
    using push_strings_layout [of 0 envp T m] lim(2) unfolding E_def by blast
  obtain m2 where m2: "push_strings argv (T - of_nat E) m1 = (T - of_nat A, m2)" "unchanged T E A m1 m2"
      "\<forall>i<length argv. holds T m2 (starts E argv ! i) (argv ! i @ [0])"
    using push_strings_layout [of E argv T m1] lim(1) unfolding A_def by blast
  obtain m4 where m4: "store_pointers envp (T - of_nat ge) (R - of_nat 0) (poke_word (T - of_nat (F + 8)) 0 m2) = (R - of_nat E, m4)"
      "unchanged T F ge m2 m4" "holds T m4 (F + 8) (le_bytes 8 0)"
      "\<forall>i<length envp. holds T m4 (ge - 8 * i) (le_bytes 8 (uint (R - of_nat (starts 0 envp ! i))))"
    using store_array_layout [OF lim(3), of T R 0 m2] unfolding E_def ge(1) by blast
  obtain m6 where m6: "store_pointers argv (T - of_nat ga) (R - of_nat E) (poke_word (T - of_nat (ge + 8)) 0 m4) = (R - of_nat A, m6)"
      "unchanged T ge ga m4 m6" "holds T m6 (ge + 8) (le_bytes 8 0)"
      "\<forall>i<length argv. holds T m6 (ga - 8 * i) (le_bytes 8 (uint (R - of_nat (starts E argv ! i))))"
    using store_array_layout [OF lim(4), of T R E m4] unfolding A_def ge(2) by blast
  have u2: "unchanged T A ga m2 m6"
    using unchanged_mono [OF unchanged_trans [OF m4(2) m6(2)]] A by (simp add: ge)
  have u1: "unchanged T E ga m1 m6" using unchanged_trans [OF m2(2) u2] A by (simp add: ge)
  show ?thesis
  proof (rule that [of m6])
    show "build_stack T R argv envp m = \<lparr>si_mem = m6, si_argc = of_nat (length argv),
        si_argv = R - of_nat ga, si_envp = R - of_nat ge, si_rsp = R - of_nat ga\<rparr>"
      using build_stack_stages [OF m1(1) [simplified] m2(1) padded_stack [OF T lim(5), folded F_def] _ _ m4(1) [simplified of_nat_0 diff_zero] _ _ m6(1)]
      by (simp add: ge F_def algebra_simps)
    show "unchanged T 0 ga m m6" using unchanged_trans [OF m1(2) u1] A by (simp add: ge)
    show "holds T m6 (starts 0 envp ! i) (envp ! i @ [0])" if "i < length envp" for i
      using m1(3) that starts_bound [OF that, of 0] lim(2)
      by (intro holds_unchanged [OF _ u1]) (auto simp: E_def)
    show "holds T m6 (starts E argv ! i) (argv ! i @ [0])" if "i < length argv" for i
      using m2(3) that starts_bound [OF that, of E] lim(1)
      by (intro holds_unchanged [OF _ u2]) (auto simp: A_def)
    show "holds T m6 (ge - 8 * i) (le_bytes 8 (uint (R - of_nat (starts 0 envp ! i))))" if "i < length envp" for i
      using m4(4) that lim(4) by (intro holds_unchanged [OF _ m6(2)]) (auto simp: ge)
    show "holds T m6 (ge - 8 * length envp) (le_bytes 8 0)"
      using m4(3) lim(3) by (intro holds_unchanged [OF _ m6(2)]) (auto simp: ge)
  qed (use m6 in \<open>auto simp: ge(2)\<close>)
qed


lemma misaligned_sub:
  fixes x :: u64
  assumes "d mod 16 = 8" "unat x mod 16 = 0"
  shows "unat (x - of_nat d) mod 16 = 8"
proof -
  have d: "uint (of_nat d :: u64) = int d mod 2 ^ 64"
    using take_bit_eq_mod [of 64 "int d"] by (simp add: unsigned_of_nat zmod_int take_bit_eq_mod)
  have "uint (x - of_nat d) mod 16 = ((uint x - uint (of_nat d :: u64)) mod 2 ^ 64) mod 16"
    by (simp add: uint_word_ariths)
  also have "\<dots> = (uint x - uint (of_nat d :: u64)) mod 16" by (rule mod_mod_cancel) simp
  also have "\<dots> = (uint x mod 16 - (int d mod 2 ^ 64) mod 16) mod 16"
    unfolding d by (rule mod_diff_eq [symmetric])
  also have "(int d mod 2 ^ 64) mod 16 = int d mod 16" by (rule mod_mod_cancel) simp
  also have "int d mod 16 = 8" using assms(1) by presburger
  also have "uint x mod 16 = 0" using assms(2) unfolding uint_nat by presburger
  finally have "uint (x - of_nat d) mod 16 = 8" by simp
  moreover have "int (unat y mod 16) = uint y mod 16" for y :: u64
    by (simp only: zmod_int uint_nat of_nat_numeral)
  ultimately have "int (unat (x - of_nat d) mod 16) = 8" by metis
  then show ?thesis by (simp only: of_nat_eq_numeral_iff)
qed

lemma unchanged_at: "unchanged T 0 h m m' \<Longrightarrow> x = T \<or> h < unat (T - x) \<Longrightarrow> m' x = m x"
proof -
  assume u: "unchanged T 0 h m m'" and x: "x = T \<or> h < unat (T - x)"
  have "T - of_nat (unat (T - x)) = x" by simp
  then show ?thesis using u x unat_lt_64 [of "T - x"] unfolding unchanged_def by (metis cancel_comm_monoid_add_class.diff_cancel le0 unat_0)
qed

text \<open>C16: the stack a program starts with. When the strings fit below its end, the arrays whose addresses the
  program gets in \<^verbatim>\<open>rsi\<close> and \<^verbatim>\<open>rdx\<close> hold pointers to copies of the arguments and of the environment, each
  array ended by a null pointer; the stack pointer is at the array of arguments, 8 bytes off a multiple
  of 16 as after a call, and nothing outside the used part of the stack is written.\<close>

theorem build_stack_layout:
  fixes T rsp :: u64
  assumes "unat T mod 16 = 0" "unat rsp mod 16 = 0" "stack_needed argv envp \<le> unat T"
    and si: "si = build_stack T rsp argv envp m" and phys: "phys = (\<lambda>v. v - rsp + T)"
  shows "(\<forall>i<length argv. str_at (si_mem si) (phys (load_word (si_mem si) (phys (si_argv si + 8 * of_nat i)))) (argv ! i)) \<and>
    load_word (si_mem si) (phys (si_argv si + 8 * of_nat (length argv))) = 0 \<and>
    (\<forall>i<length envp. str_at (si_mem si) (phys (load_word (si_mem si) (phys (si_envp si + 8 * of_nat i)))) (envp ! i)) \<and>
    load_word (si_mem si) (phys (si_envp si + 8 * of_nat (length envp))) = 0 \<and>
    si_argc si = of_nat (length argv) \<and> si_rsp si = si_argv si \<and> unat (si_rsp si) mod 16 = 8 \<and>
    (\<forall>x. x = T \<or> rsp - si_rsp si < T - x \<longrightarrow> si_mem si x = m x)"
proof -
  obtain m' where b: "build_stack T rsp argv envp m = \<lparr>si_mem = m', si_argc = of_nat (length argv),
       si_argv = rsp - of_nat (arg_start argv envp), si_envp = rsp - of_nat (env_start argv envp),
       si_rsp = rsp - of_nat (arg_start argv envp)\<rparr>"
    and u: "unchanged T 0 (arg_start argv envp) m m'"
    and e: "\<And>i. i < length envp \<Longrightarrow> holds T m' (starts 0 envp ! i) (envp ! i @ [0])"
      "\<And>i. i < length envp \<Longrightarrow> holds T m' (env_start argv envp - 8 * i) (le_bytes 8 (uint (rsp - of_nat (starts 0 envp ! i))))"
      "holds T m' (env_start argv envp - 8 * length envp) (le_bytes 8 0)"
    and a: "\<And>i. i < length argv \<Longrightarrow> holds T m' (starts (pushed 0 envp) argv ! i) (argv ! i @ [0])"
      "\<And>i. i < length argv \<Longrightarrow>
         holds T m' (arg_start argv envp - 8 * i) (le_bytes 8 (uint (rsp - of_nat (starts (pushed 0 envp) argv ! i))))"
      "holds T m' (arg_start argv envp - 8 * length argv) (le_bytes 8 0)"
    using build_stack_image [OF assms(1,3)] by blast
  have p: "phys (rsp - of_nat d + 8 * of_nat i) = T - of_nat (d - 8 * i)" if "8 * i \<le> d" for d i
    using that by (simp add: phys)
  have w: "load_word m' (T - of_nat d) = 0" if "holds T m' d (le_bytes 8 0)" for d
    using holds_load [of T m' d 0] that by simp
  have le: "8 * i \<le> arg_start argv envp" if "i \<le> length argv" for i using that by (simp add: arg_start_def)
  have le': "8 * i \<le> env_start argv envp" if "i \<le> length envp" for i using that by (simp add: env_start_def)
  have "unat (rsp - of_nat (arg_start argv envp)) mod 16 = 8"
    using arg_start_bounds(2) assms(2) by (rule misaligned_sub)
  moreover have "m' x = m x" if "x = T \<or> rsp - (rsp - of_nat (arg_start argv envp)) < T - x" for x
    using unchanged_at [OF u, of x] that arg_start_bounds(1) [of argv envp] assms(3) unat_lt_64 [of T]
    by (auto simp: word_less_nat_alt unat_of_nat_64)
  moreover have "str_at m' (phys (rsp - of_nat d)) x" if "holds T m' d (x @ [0])" for d x
    using holds_str [OF that] by (simp add: phys)
  moreover have "load_word m' (T - of_nat (arg_start argv envp - 8 * i)) = rsp - of_nat (starts (pushed 0 envp) argv ! i)"
    if "i < length argv" for i using a(2) [OF that] by (rule holds_load)
  moreover have "load_word m' (T - of_nat (env_start argv envp - 8 * i)) = rsp - of_nat (starts 0 envp ! i)"
    if "i < length envp" for i using e(2) [OF that] by (rule holds_load)
  ultimately show ?thesis
    using a e w le le' by (simp add: si b p del: of_nat_diff)
qed


theorem build_stack_layout_witness:
  "\<exists>si. si = build_stack 0x80000 0x70000000000 [[108, 115], [47]] [[80, 61]] (\<lambda>_. 1) \<and>
     str_at (si_mem si) (load_word (si_mem si) (si_argv si + 8 - 0x70000000000 + 0x80000) - 0x70000000000 + 0x80000) [47]"
proof -
  let ?si = "build_stack 0x80000 0x70000000000 [[108, 115], [47]] [[80, 61]] (\<lambda>_. 1)"
  have "stack_needed [[108, 115], [47]] [[80, 61]] \<le> unat (0x80000 :: u64)"
    by (simp add: stack_needed_def)
  then have "\<forall>i<length [[108, 115], [47 :: u8]]. str_at (si_mem ?si) (load_word (si_mem ?si)
      (si_argv ?si + 8 * of_nat i - 0x70000000000 + 0x80000) - 0x70000000000 + 0x80000) ([[108, 115], [47]] ! i)"
    using build_stack_layout [OF _ _ _ refl refl, of "0x80000" "0x70000000000" "[[108, 115], [47]]" "[[80, 61]]" "\<lambda>_. 1"]
    by simp
  from this [THEN spec, of 1] show ?thesis by (intro exI [of _ ?si]) simp
qed

end
