(* ===== verification/Process.thy ===== *)
theory Process
  imports Threads Ustack
begin

text \<open>
  Processes and threads: \<^verbatim>\<open>kernel/src/sys/process.c\<close>. Objects of the three caches are numbers of the stores;
  one of them costs one unit of \<open>mem_left\<close>, and \<open>None\<close> is a panic, a fault, a deadlock or a wait without
  end. Frames and page tables come from the memory manager \<open>km\<close>.

  Freed objects keep their contents until they are handed out again; the numbers of the model are not
  reused. What runs while a process waits is an argument \<open>others\<close>.
\<close>

definition STACK_SIZE :: u64 where "STACK_SIZE = 0x40000"
definition STACK_PAGES :: u64 where "STACK_PAGES = STACK_SIZE div PAGE_SIZE"
definition WNOHANG :: u32 where "WNOHANG = 1"
definition SIZEOF_PTR :: nat where "SIZEOF_PTR = 8"

definition USER_RW :: u64 where "USER_RW = PTE_PRESENT OR PTE_WRITABLE OR PTE_USER OR PTE_NX"

definition zero_process :: process where
  "zero_process = \<lparr>pr_pid = 0, pr_state = PROCESS_RUNNING, pr_name = [], pr_status = 0, pr_pagemap = 0,
     pr_code_base = 0, pr_thread_stack_top = 0, pr_brk = 0, pr_brk_next = 0, pr_cwd = 0, pr_fd_lock = 0,
     pr_fds = replicate MAX_FDS 0, pr_ticks = zero_timespec, pr_parent = 0, pr_children = None, pr_threads = None\<rparr>"

section \<open>Access to the parts of the state\<close>

definition in_km :: "(vms \<Rightarrow> ('r \<times> vms) option) \<Rightarrow> 'a ksys_scheme \<Rightarrow> ('r \<times> 'a ksys_scheme) option" where
  "in_km f s = do { (r, k) \<leftarrow> f (km s); Some (r, s\<lparr>km := k\<rparr>) }"

definition run_km :: "(vms \<Rightarrow> vms option) \<Rightarrow> 'a ksys_scheme \<Rightarrow> 'a ksys_scheme option" where
  "run_km f s = do { k \<leftarrow> f (km s); Some (s\<lparr>km := k\<rparr>) }"

definition alloc_frames :: "u64 \<Rightarrow> 'a vm_scheme \<Rightarrow> (u64 \<times> 'a vm_scheme) option" where
  "alloc_frames n s = do { (a, p) \<leftarrow> pmm_alloc n (vm_pmm s); Some (a, s\<lparr>vm_pmm := p\<rparr>) }"

definition new_vector :: "'a ksys_scheme \<Rightarrow> vector option \<times> 'a ksys_scheme" where
  "new_vector s =
     (let (ok, s) = take_mem s; (ok, s) = (if ok then take_mem s else (False, s))
      in (if ok then Some (vector_create SIZEOF_PTR (stale_slots s)) else None, s))"

definition push :: "vector option \<Rightarrow> nat \<Rightarrow> 'a ksys_scheme \<Rightarrow> vector option" where
  "push v x s = snd (vector_push_back (stale_slots s) v (of_nat x))"

definition drop_value :: "vector option \<Rightarrow> nat \<Rightarrow> vector option" where
  "drop_value v x = snd (vector_remove_by_value v (of_nat x))"

section \<open>Processes\<close>

definition create_std_fd :: "nat \<Rightarrow> nat \<Rightarrow> u32 \<Rightarrow> 'a ksys_scheme \<Rightarrow> (bool \<times> 'a ksys_scheme) option" where
  "create_std_fd p node flags s =
     (let (fd, s) = fd_create node flags s in
      if fd = 0 then Some (False, s)
      else do { (n, s) \<leftarrow> fd_alloc_fdnum p fd s; Some (0 \<le> n, s) })"

definition create_std_file_descriptors ::
    "nat \<Rightarrow> cstring \<Rightarrow> 'a ksys_scheme \<Rightarrow> (bool \<times> 'a ksys_scheme) option" where
  "create_std_file_descriptors p console_path s = do {
     console_node \<leftarrow> vfs_get_node s (pr_cwd (procs s p)) console_path;
     if console_node = 0 then Some (False, s)
     else do {
       (ok, s) \<leftarrow> create_std_fd p console_node O_RDONLY s;
       if \<not> ok then Some (False, s)
       else do {
         (ok, s) \<leftarrow> create_std_fd p console_node O_WRONLY s;
         if \<not> ok then Some (False, s) else create_std_fd p console_node O_WRONLY s
       }
     }
   }"

text \<open>The loop of \<^verbatim>\<open>process_create\<close> over the descriptors of the parent.\<close>

fun dup_fds :: "nat \<Rightarrow> nat \<Rightarrow> nat list \<Rightarrow> 'a ksys_scheme \<Rightarrow> (bool \<times> 'a ksys_scheme) option" where
  "dup_fds old new [] s = Some (True, s)"
| "dup_fds old new (i # is) s =
     (if pr_fds (procs s old) ! i = 0 then dup_fds old new is s
      else do {
        (r, s) \<leftarrow> fd_dup old (int i) new (int i) True False s;
        if r < 0 then Some (False, s) else dup_fds old new is s
      })"

definition process_create_failed :: "nat \<Rightarrow> 'a ksys_scheme \<Rightarrow> (nat \<times> 'a ksys_scheme) option" where
  "process_create_failed new s = do {
     s \<leftarrow> (if pr_pagemap (procs s new) \<noteq> 0 then run_km (vmm_destroy_pagemap (pr_pagemap (procs s new))) s else Some s);
     Some (0, s)
   }"

definition register_process :: "nat \<Rightarrow> 'a ksys_scheme \<Rightarrow> (nat \<times> 'a ksys_scheme) option" where
  "register_process new s = do {
     let s = upd_proc new (\<lambda>q. q\<lparr>pr_pid := next_pid s\<rparr>) s;
     let s = s\<lparr>next_pid := sint (word_of_int (next_pid s + 1) :: u32)\<rparr>;
     l \<leftarrow> spinlock_acquire (process_list_lock s);
     let s = s\<lparr>process_list_lock := l, running_processes := push (running_processes s) new s\<rparr>;
     Some (new, s\<lparr>process_list_lock := spinlock_release (process_list_lock s)\<rparr>)
   }"

definition process_create :: "nat \<Rightarrow> u64 \<Rightarrow> 'a ksys_scheme \<Rightarrow> (nat \<times> 'a ksys_scheme) option" where
  "process_create old pm s =
     (let (ok, s) = take_mem s in
      if \<not> ok then Some (0, s)
      else do {
        let new = next_proc s;
        let s = s\<lparr>next_proc := Suc new, procs := (procs s)(new := zero_process)\<rparr>;
        let (v, s) = new_vector s;
        let s = upd_proc new (\<lambda>q. q\<lparr>pr_children := v\<rparr>) s;
        if v = None then process_create_failed new s
        else do {
          let (v, s) = new_vector s;
          let s = upd_proc new (\<lambda>q. q\<lparr>pr_threads := v\<rparr>) s;
          if v = None then process_create_failed new s
          else if old \<noteq> 0 then do {
            let s = upd_proc new (\<lambda>q. q\<lparr>pr_name := pr_name (procs s old)\<rparr>) s;
            (pm, s) \<leftarrow> in_km (vmm_fork_pagemap (la57 s) (pr_pagemap (procs s old))) s;
            let s = upd_proc new (\<lambda>q. q\<lparr>pr_pagemap := pm\<rparr>) s;
            if pm = 0 then process_create_failed new s
            else do {
              let s = upd_proc new (\<lambda>q. q\<lparr>pr_brk := pr_brk (procs s old),
                        pr_thread_stack_top := pr_thread_stack_top (procs s old), pr_cwd := pr_cwd (procs s old),
                        pr_parent := old\<rparr>) s;
              (ok, s) \<leftarrow> dup_fds old new [0..<MAX_FDS] s;
              if \<not> ok then process_create_failed new s
              else register_process new (upd_proc old (\<lambda>q. q\<lparr>pr_children := push (pr_children q) new s\<rparr>) s)
            }
          } else
            register_process new
              (upd_proc new (\<lambda>q. q\<lparr>pr_pagemap := pm, pr_brk := PROCESS_BRK_BASE, pr_brk_next := PROCESS_BRK_BASE,
                 pr_thread_stack_top := PROCESS_THREAD_STACK_TOP, pr_cwd := vfs_root s\<rparr>) s)
        }
      })"

text \<open>
  \<^verbatim>\<open>process_destroy\<close> takes the address of a slot of \<^verbatim>\<open>running_processes\<close> for the init process; as soon as there
  are children to hand over, the code follows pointers read from the array: \<open>None\<close>.
\<close>

definition process_destroy :: "nat \<Rightarrow> 'a ksys_scheme \<Rightarrow> 'a ksys_scheme option" where
  "process_destroy p s = do {
     let s = (if pr_parent (procs s p) \<noteq> 0
              then upd_proc (pr_parent (procs s p)) (\<lambda>q. q\<lparr>pr_children := drop_value (pr_children q) p\<rparr>) s else s);
     s \<leftarrow> each (\<lambda>i s. map_option snd (fd_close p (int i) s)) [0..<MAX_FDS] s;
     children \<leftarrow> pr_children (procs s p);
     if 0 < v_size children then None
     else do {
       s \<leftarrow> run_km (vmm_destroy_pagemap (pr_pagemap (procs s p))) s;
       let (ok, s) = take_mem s;
       if \<not> ok then None
       else do {
         let q = procs s p;
         let dp = \<lparr>dp_pid = pr_pid q, dp_ppid = (if pr_parent q \<noteq> 0 then pr_pid (procs s (pr_parent q)) else 0),
                   dp_status = pr_status q\<rparr>;
         l \<leftarrow> spinlock_acquire (process_list_lock s);
         let s = s\<lparr>process_list_lock := l, running_processes := drop_value (running_processes s) p,
                   dead_processes := dead_processes s @ [dp]\<rparr>;
         Some (s\<lparr>process_list_lock := spinlock_release (process_list_lock s)\<rparr>)
       }
     }
   }"

definition process_exit :: "nat \<Rightarrow> int \<Rightarrow> 'a ksys_scheme \<Rightarrow> 'a ksys_scheme option" where
  "process_exit p status s =
     (if pr_pid (procs s p) < 2 then None
      else do {
        let s = upd_proc p (\<lambda>q. q\<lparr>pr_state := PROCESS_ZOMBIE, pr_status := status\<rparr>) s;
        v \<leftarrow> pr_threads (procs s p);
        each (\<lambda>i. sched_thread_dequeue (unat (v_data v i))) [0..<v_size v] s
      })"

text \<open>\<^verbatim>\<open>process_sbrk\<close>; the comparisons with \<^verbatim>\<open>(unsigned) size\<close> see only the low 32 bits.\<close>

definition as_unsigned :: "u64 \<Rightarrow> u64" where
  "as_unsigned x = ucast (ucast x :: u32)"

fun brk_unmap :: "nat \<Rightarrow> nat \<Rightarrow> 'a ksys_scheme \<Rightarrow> 'a ksys_scheme option" where
  "brk_unmap 0 p s = Some s"
| "brk_unmap (Suc n) p s =
     (if PROCESS_BRK_BASE \<le> pr_brk_next (procs s p) - PAGE_SIZE then do {
        let s = upd_proc p (\<lambda>q. q\<lparr>pr_brk_next := pr_brk_next q - PAGE_SIZE\<rparr>) s;
        let q = procs s p;
        (_, s) \<leftarrow> in_km (\<lambda>k. vmm_unmap_page (pagemaps k (pr_pagemap q)) (pr_brk_next q) k) s;
        brk_unmap n p s
      } else brk_unmap n p s)"

definition process_sbrk :: "nat \<Rightarrow> u64 \<Rightarrow> 'a ksys_scheme \<Rightarrow> (u64 \<times> 'a ksys_scheme) option" where
  "process_sbrk p increment s = do {
     let q = procs s p;
     let old_brk = pr_brk q;
     (ok, s) \<leftarrow>
       (if 0 < sint increment then
          let remaining = pr_brk_next q - pr_brk q in
          if remaining < as_unsigned increment then do {
            let bytes_needed = increment - remaining;
            let page_count = (bytes_needed - 1) div PAGE_SIZE + 1;
            (paddr, s) \<leftarrow> in_km (alloc_frames page_count) s;
            if paddr = 0 then Some (False, s)
            else do {
              (ok, s) \<leftarrow> in_km (map_range (pr_pagemap q) (pr_brk_next q) paddr page_count USER_RW) s;
              if \<not> ok then Some (False, s)
              else Some (True, upd_proc p (\<lambda>q. q\<lparr>pr_brk_next := pr_brk_next q + page_count * PAGE_SIZE\<rparr>) s)
            }
          } else Some (True, s)
        else if sint increment < 0 then
          let current_page_start = pr_brk_next q - PAGE_SIZE; remaining = pr_brk q - current_page_start in
          if remaining < as_unsigned (- increment) then do {
            s \<leftarrow> brk_unmap (unat ((- increment - remaining - 1) div PAGE_SIZE + 1)) p s;
            Some (True, s)
          } else Some (True, s)
        else Some (True, s));
     if \<not> ok then Some (-1, s)
     else Some (old_brk, upd_proc p (\<lambda>q. q\<lparr>pr_brk := pr_brk q + increment\<rparr>) s)
   }"

text \<open>
  \<^verbatim>\<open>process_wait\<close>. The first loop, for any child, remembers a zombie child but goes on waiting; it ends
  only when there are no children or with \<^verbatim>\<open>WNOHANG\<close>. The second waits for one child.
\<close>

definition children_of :: "nat \<Rightarrow> 'a ksys_scheme \<Rightarrow> nat list option" where
  "children_of p s = do { v \<leftarrow> pr_children (procs s p); Some (map (\<lambda>i. unat (v_data v i)) [0..<v_size v]) }"

partial_function (option) wait_any ::
    "(ksys \<Rightarrow> ksys option) \<Rightarrow> nat \<Rightarrow> u32 \<Rightarrow> ksys \<Rightarrow> (int \<times> ksys) option" where
  [code]: "wait_any others p flags s =
     Option.bind (children_of p s) (\<lambda>cs.
       if cs = [] then Some (- ECHILD, s)
       else if flags AND WNOHANG \<noteq> 0 then Some (- EAGAIN, s)
       else Option.bind (others s) (wait_any others p flags))"

partial_function (option) wait_for ::
    "(ksys \<Rightarrow> ksys option) \<Rightarrow> nat \<Rightarrow> u32 \<Rightarrow> ksys \<Rightarrow> (bool \<times> ksys) option" where
  [code]: "wait_for others c flags s =
     (if pr_state (procs s c) = PROCESS_ZOMBIE then Some (True, s)
      else if flags AND WNOHANG \<noteq> 0 then Some (False, s)
      else Option.bind (others s) (wait_for others c flags))"

definition process_wait ::
    "(ksys \<Rightarrow> ksys option) \<Rightarrow> nat \<Rightarrow> int \<Rightarrow> u64 \<Rightarrow> u32 \<Rightarrow> ksys \<Rightarrow> (int \<times> ksys) option" where
  "process_wait others p pid status flags s = do {
     let s = upd_proc p (\<lambda>q. q\<lparr>pr_state := PROCESS_WAITING\<rparr>) s;
     if pid = -1 then wait_any others p flags s
     else if 0 < pid then do {
       cs \<leftarrow> children_of p s;
       case find (\<lambda>c. pr_pid (procs s c) = pid) cs of
         None \<Rightarrow> Some (- ECHILD, s)
       | Some c \<Rightarrow> do {
           (ok, s) \<leftarrow> wait_for others c flags s;
           if \<not> ok then Some (- EAGAIN, s)
           else
             let s = upd_proc p (\<lambda>q. q\<lparr>pr_state := PROCESS_RUNNING\<rparr>) s;
                 s = (if status \<noteq> 0 then put_user status (le_bytes 4 (pr_status (procs s c))) s else s)
             in Some (pr_pid (procs s c), s)
         }
     } else Some (- EINVAL, s)
   }"

section \<open>Threads\<close>

text \<open>\<^verbatim>\<open>thread_create\<close>: the parts for a user thread are one definition per step, each \<open>False\<close> where the code goes to
  its error label.\<close>

definition map_user_stack :: "nat \<Rightarrow> nat \<Rightarrow> u64 \<Rightarrow> 'a ksys_scheme \<Rightarrow> (bool \<times> 'a ksys_scheme) option" where
  "map_user_stack p t user_stack_paddr s = do {
     let q = procs s p;
     (ok, s) \<leftarrow> in_km (map_range (pr_pagemap q) (pr_thread_stack_top q - STACK_SIZE) user_stack_paddr STACK_PAGES USER_RW) s;
     if \<not> ok then Some (False, s)
     else
       let s = upd_thread t (\<lambda>th. th\<lparr>t_ctx := (t_ctx th)\<lparr>r_rsp := pr_thread_stack_top q\<rparr>\<rparr>) s
       in Some (True, upd_proc p (\<lambda>q. q\<lparr>pr_thread_stack_top := pr_thread_stack_top q - (STACK_SIZE - PAGE_SIZE)\<rparr>) s)
   }"

definition alloc_fault_stack :: "nat \<Rightarrow> 'a ksys_scheme \<Rightarrow> (bool \<times> 'a ksys_scheme) option" where
  "alloc_fault_stack t s = do {
     (a, s) \<leftarrow> in_km (alloc_frames STACK_PAGES) s;
     Some (a \<noteq> 0, if a = 0 then s
                  else upd_thread t (\<lambda>th. th\<lparr>t_page_fault_stack := a + STACK_SIZE + high_vma s\<rparr>) s)
   }"

definition alloc_kernel_stack :: "nat \<Rightarrow> 'a ksys_scheme \<Rightarrow> (bool \<times> 'a ksys_scheme) option" where
  "alloc_kernel_stack t s = do {
     (a, s) \<leftarrow> in_km (alloc_frames STACK_PAGES) s;
     Some (a \<noteq> 0, if a = 0 then s
                  else upd_thread t (\<lambda>th. th\<lparr>t_kernel_stack := a + STACK_SIZE + high_vma s\<rparr>) s)
   }"

definition fpu_pages :: "'a ksys_scheme \<Rightarrow> u64" where
  "fpu_pages s = DIV_CEIL (fpu_storage_size s) PAGE_SIZE"

definition alloc_fpu_storage :: "nat \<Rightarrow> 'a ksys_scheme \<Rightarrow> (bool \<times> 'a ksys_scheme) option" where
  "alloc_fpu_storage t s = do {
     (a, s) \<leftarrow> in_km (alloc_cleared (fpu_pages s)) s;
     Some (a \<noteq> 0, if a = 0 then s else upd_thread t (\<lambda>th. th\<lparr>t_fpu_storage := a + high_vma s\<rparr>) s)
   }"

definition enter_stack :: "nat \<Rightarrow> u64 \<Rightarrow> cstring list \<Rightarrow> cstring list \<Rightarrow> 'a ksys_scheme \<Rightarrow> 'a ksys_scheme" where
  "enter_stack t user_stack_paddr argv envp s =
     (let si = build_stack (user_stack_paddr + STACK_SIZE) (r_rsp (t_ctx (threads s t))) argv envp (bytes (km s));
          s = s\<lparr>km := (km s)\<lparr>bytes := si_mem si\<rparr>\<rparr>
      in upd_thread t (\<lambda>th. th\<lparr>t_ctx := (t_ctx th)\<lparr>r_rdx := si_envp si, r_rsi := si_argv si, r_rdi := si_argc si,
           r_rsp := si_rsp si\<rparr>, t_user_stack := si_rsp si\<rparr>) s)"

definition thread_create_failed :: "nat \<Rightarrow> u64 \<Rightarrow> 'a ksys_scheme \<Rightarrow> (nat \<times> 'a ksys_scheme) option" where
  "thread_create_failed t user_stack_paddr s = do {
     let th = threads s t;
     let release = (\<lambda>a. run_km (free_frames a STACK_PAGES));
     s \<leftarrow> (if t_kernel_stack th \<noteq> 0 then release (t_kernel_stack th - STACK_SIZE - high_vma s) s else Some s);
     if t_is_user th then do {
       s \<leftarrow> (if t_page_fault_stack th \<noteq> 0 then release (t_page_fault_stack th - STACK_SIZE - high_vma s) s else Some s);
       s \<leftarrow> (if user_stack_paddr \<noteq> 0 then release (user_stack_paddr - STACK_SIZE) s else Some s);
       Some (0, s)
     } else Some (0, s)
   }"

definition join_process :: "nat \<Rightarrow> nat \<Rightarrow> 'a ksys_scheme \<Rightarrow> (nat \<times> 'a ksys_scheme) option" where
  "join_process p t s = do {
     v \<leftarrow> pr_threads (procs s p);
     let s = upd_thread t (\<lambda>th. th\<lparr>t_tid := int (v_size v)\<rparr>) s;
     Some (t, upd_proc p (\<lambda>q. q\<lparr>pr_threads := push (pr_threads q) t s\<rparr>) s)
   }"

definition new_thread :: "nat \<Rightarrow> bool \<Rightarrow> u64 \<Rightarrow> 'a ksys_scheme \<Rightarrow> (nat \<times> 'a ksys_scheme)" where
  "new_thread p is_user timeslice s =
     (let (ok, s) = take_mem s in
      if \<not> ok then (0, s)
      else (next_thread s,
            s\<lparr>next_thread := Suc (next_thread s),
              threads := (threads s)(next_thread s := zero_thread\<lparr>t_state := THREAD_READY_TO_RUN, t_process := p,
                t_is_user := is_user, t_timeslice := timeslice\<rparr>)\<rparr>))"

definition start_thread :: "nat \<Rightarrow> nat \<Rightarrow> u64 \<Rightarrow> 'a ksys_scheme \<Rightarrow> (nat \<times> 'a ksys_scheme) option" where
  "start_thread p t entry s =
     join_process p t (upd_thread t (\<lambda>th. th\<lparr>t_ctx := (t_ctx th)\<lparr>r_rflags := 0x202, r_rip := entry\<rparr>\<rparr>) s)"

definition thread_create ::
    "nat \<Rightarrow> u64 \<Rightarrow> u64 \<Rightarrow> (cstring list \<times> cstring list) option \<Rightarrow> bool \<Rightarrow> 'a ksys_scheme \<Rightarrow> (nat \<times> 'a ksys_scheme) option" where
  "thread_create p entry arg args is_user s =
     (let (t, s) = new_thread p is_user (if is_user then 20000 else 5000) s in
      if t = 0 then Some (0, s)
      else do {
        (ok, s) \<leftarrow> alloc_kernel_stack t s;
        if \<not> ok then thread_create_failed t 0 s
        else if is_user then do {
          let s = upd_thread t (\<lambda>th. th\<lparr>t_ctx := (t_ctx th)\<lparr>r_cs := 0x23, r_ss := 0x1b\<rparr>\<rparr>) s;
          (user_stack_paddr, s) \<leftarrow> in_km (alloc_frames STACK_PAGES) s;
          if user_stack_paddr = 0 then thread_create_failed t 0 s
          else do {
            (ok, s) \<leftarrow> map_user_stack p t user_stack_paddr s;
            if \<not> ok then thread_create_failed t user_stack_paddr s
            else do {
              (ok, s) \<leftarrow> alloc_fault_stack t s;
              if \<not> ok then thread_create_failed t user_stack_paddr s
              else do {
                (ok, s) \<leftarrow> alloc_fpu_storage t s;
                if \<not> ok then thread_create_failed t user_stack_paddr s
                else do {
                  v \<leftarrow> pr_threads (procs s p);
                  start_thread p t entry
                    (case args of
                       Some (argv, envp) \<Rightarrow> if v_size v = 0 then enter_stack t user_stack_paddr argv envp s else s
                     | None \<Rightarrow> s)
                }
              }
            }
          }
        } else
          start_thread p t entry
            (upd_thread t (\<lambda>th. th\<lparr>t_ctx := (t_ctx th)\<lparr>r_rdi := arg, r_cs := 8, r_ss := 0x10, r_rsp := t_kernel_stack th\<rparr>,
               t_page_fault_stack := t_kernel_stack th, t_fs_base := msr_fs_base s, t_gs_base := msr_gs_base s\<rparr>) s)
      })"

text \<open>\<^verbatim>\<open>thread_fork\<close>. The new thread keeps the \<^verbatim>\<open>is_user\<close> of a cleared object, which is false.\<close>

definition thread_fork_failed :: "nat \<Rightarrow> 'a ksys_scheme \<Rightarrow> (nat \<times> 'a ksys_scheme) option" where
  "thread_fork_failed t s = do {
     let th = threads s t;
     let release = (\<lambda>a. run_km (free_frames a STACK_PAGES));
     s \<leftarrow> (if t_kernel_stack th \<noteq> 0 then release (t_kernel_stack th - STACK_SIZE - high_vma s) s else Some s);
     s \<leftarrow> (if t_page_fault_stack th \<noteq> 0 then release (t_page_fault_stack th - STACK_SIZE - high_vma s) s else Some s);
     Some (0, s)
   }"

definition copy_fpu_storage :: "nat \<Rightarrow> nat \<Rightarrow> 'a ksys_scheme \<Rightarrow> (bool \<times> 'a ksys_scheme) option" where
  "copy_fpu_storage t old_thread s = do {
     (a, s) \<leftarrow> in_km (alloc_frames (fpu_pages s)) s;
     if a = 0 then Some (False, s)
     else
       let src = t_fpu_storage (threads s old_thread) - high_vma s;
           s = upd_thread t (\<lambda>th. th\<lparr>t_fpu_storage := a + high_vma s\<rparr>) s
       in Some (True, s\<lparr>km := (km s)\<lparr>bytes := memcpy_bytes a src (unat (fpu_storage_size s)) (bytes (km s))\<rparr>\<rparr>)
   }"

definition thread_fork :: "nat \<Rightarrow> nat \<Rightarrow> 'a ksys_scheme \<Rightarrow> (nat \<times> 'a ksys_scheme) option" where
  "thread_fork forked old_thread s =
     (let (t, s) = new_thread forked False (t_timeslice (threads s old_thread)) s in
      if t = 0 then Some (0, s)
      else do {
        (ok, s) \<leftarrow> alloc_kernel_stack t s;
        if \<not> ok then thread_fork_failed t s
        else do {
          (ok, s) \<leftarrow> alloc_fault_stack t s;
          if \<not> ok then thread_fork_failed t s
          else do {
            let o_thread = threads s old_thread;
            let s = upd_thread t (\<lambda>th. th\<lparr>t_user_stack := t_user_stack o_thread,
                      t_ctx := (t_ctx o_thread)\<lparr>r_rax := 0\<rparr>\<rparr>) s;
            (ok, s) \<leftarrow> copy_fpu_storage t old_thread s;
            if \<not> ok then thread_fork_failed t s
            else join_process forked t
                   (upd_thread t (\<lambda>th. th\<lparr>t_fs_base := t_fs_base o_thread, t_gs_base := t_gs_base o_thread\<rparr>) s)
          }
        }
      })"

definition thread_destroy :: "nat \<Rightarrow> 'a ksys_scheme \<Rightarrow> 'a ksys_scheme option" where
  "thread_destroy t s = do {
     let th = threads s t;
     s \<leftarrow> run_km (free_frames (t_kernel_stack th - STACK_SIZE - high_vma s) STACK_PAGES) s;
     s \<leftarrow> (if t_is_user th then do {
             s \<leftarrow> run_km (free_frames (t_page_fault_stack th - STACK_SIZE - high_vma s) STACK_PAGES) s;
             run_km (free_frames (t_fpu_storage th - high_vma s) (fpu_pages s)) s
           } else Some s);
     Some (upd_proc (t_process th) (\<lambda>q. q\<lparr>pr_threads := drop_value (pr_threads q) t\<rparr>) s)
   }"

text \<open>\<^verbatim>\<open>process_init\<close>: the caches are part of \<open>mem_left\<close>, the two vectors are made or the kernel panics. The dead
  processes are kept as a list.\<close>

definition process_init :: "'a ksys_scheme \<Rightarrow> 'a ksys_scheme option" where
  "process_init s =
     (let (r, s) = new_vector s in
      if r = None then None
      else
        let s = s\<lparr>running_processes := r\<rparr>; (d, s) = new_vector s
        in if d = None then None else Some (s\<lparr>dead_processes := []\<rparr>))"

section \<open>Growing the heap of a process\<close>

lemma alloc_frames_run:
  assumes "fresh_frames (unat n + k) (vm_pmm s)" "0 < unat n"
  obtains a p where "alloc_frames n s = Some (a, s\<lparr>vm_pmm := p\<rparr>)" "fresh_frames k p" "a \<noteq> 0"
    "frames_ahead p \<subseteq> frames_ahead (vm_pmm s)"
proof -
  let ?i = "last_used_index (vm_pmm s)"
  let ?p = "(mark_run ?i (unat n) (vm_pmm s))\<lparr>used_pages := used_pages (vm_pmm s) + of_nat (unat n)\<rparr>"
  have i: "0 < ?i" "?i < 2 ^ 51" using assms(1) by (auto simp: fresh_frames_def)
  have "unat (of_nat ?i * PAGE_SIZE) = ?i * 4096" using i by (intro unat_frame) simp
  then have "of_nat ?i * PAGE_SIZE \<noteq> 0" using i by (auto simp: unat_eq_zero [symmetric])
  moreover have "frames_ahead ?p \<subseteq> frames_ahead (vm_pmm s)" by (auto simp: frames_ahead_def mark_run_def)
  moreover note pmm_alloc_fresh_run [OF assms unat_lt_64]
  ultimately show ?thesis by (intro that [of "of_nat ?i * PAGE_SIZE" ?p]) (auto simp: alloc_frames_def)
qed

lemma user_rw_flags: "table_flags USER_RW" "\<not> is_huge USER_RW"
  by (simp_all add: USER_RW_def table_flags_def is_present_def is_huge_def pte_defs PTE_FLAG_MASK_def)

text \<open>The pages a request needs beyond those the process has.\<close>

definition brk_pages :: "process \<Rightarrow> u64 \<Rightarrow> u64" where
  "brk_pages q increment =
     (if pr_brk_next q - pr_brk q < increment then (increment - (pr_brk_next q - pr_brk q) - 1) div PAGE_SIZE + 1 else 0)"

lemma unat_brk_pages:
  fixes r x :: u64
  assumes "r < x" "x < 2 ^ 31"
  shows "unat ((x - r - 1) div PAGE_SIZE + 1) = (unat x - unat r - 1) div 4096 + 1"
proof -
  have "unat (x - r) = unat x - unat r" using assms by (intro unat_sub) (simp add: order.strict_implies_order)
  moreover have "1 \<le> x - r" using calculation assms by (simp add: word_le_nat_alt word_less_nat_alt)
  ultimately have u: "unat (x - r - 1) = unat x - unat r - 1" by (simp add: unat_sub)
  have "unat x < 2 ^ 31" using assms(2) by (simp add: word_less_nat_alt)
  then have "(unat x - unat r - 1) div 4096 + 1 < 2 ^ 64" by (simp add: div_less_iff_less_mult)
  then show ?thesis by (simp add: u PAGE_SIZE_def unat_word_ariths unat_div)
qed

lemma brk_pages_enough:
  fixes q :: process
  assumes "pr_brk q \<le> pr_brk_next q" "increment < 2 ^ 31" "unat (pr_brk_next q) < 2 ^ 47"
  shows "unat (pr_brk q) + unat increment \<le> unat (pr_brk_next q) + 4096 * unat (brk_pages q increment)"
    "unat (pr_brk q + increment) = unat (pr_brk q) + unat increment"
proof -
  let ?r = "pr_brk_next q - pr_brk q"
  have r: "unat ?r = unat (pr_brk_next q) - unat (pr_brk q)" "unat (pr_brk q) \<le> unat (pr_brk_next q)"
    using assms(1) by (simp_all add: unat_sub word_le_nat_alt)
  have i: "unat increment < 2 ^ 31" using assms(2) by (simp add: word_less_nat_alt)
  show "unat (pr_brk q) + unat increment \<le> unat (pr_brk_next q) + 4096 * unat (brk_pages q increment)"
  proof (cases "?r < increment")
    case True
    have "d \<le> 4096 * ((d - 1) div 4096 + 1)" for d :: nat
      using dividend_less_div_times [of 4096 "d - 1"] by (simp add: mult.commute)
    from this [of "unat increment - unat ?r"] show ?thesis using unat_brk_pages [OF True assms(2)] True r by (simp add: brk_pages_def)
  next
    case False
    then show ?thesis using r by (simp add: brk_pages_def word_less_nat_alt)
  qed
  show "unat (pr_brk q + increment) = unat (pr_brk q) + unat increment"
    using i r assms(3) by (simp add: unat_word_ariths)
qed

lemma small_increment:
  fixes x :: u64
  assumes "0 < x" "x < 2 ^ 31"
  shows "0 < sint x" "as_unsigned x = x"
proof -
  have x: "unat x < 2 ^ 31" "0 < unat x" using assms by (simp_all add: word_less_nat_alt unat_gt_0)
  then show "0 < sint x" by (simp add: sint_small del: of_nat_unat)
  show "as_unsigned x = x" using x(1) by (simp add: as_unsigned_def word_unat_eq_iff unsigned_ucast_eq unsigned_take_bit_eq take_bit_nat_eq_self)
qed




section \<open>Waiting for children\<close>

lemma wait_for_zombie:
  assumes "\<And>k. k < n \<Longrightarrow> others (st k) = Some (st (Suc k)) \<and> pr_state (procs (st k) c) \<noteq> PROCESS_ZOMBIE"
    "pr_state (procs (st n) c) = PROCESS_ZOMBIE" "flags AND WNOHANG = 0"
  shows "wait_for others c flags (st 0) = Some (True, st n)"
  using assms
proof (induction n arbitrary: st)
  case 0
  then show ?case by (subst wait_for.simps) simp
next
  case (Suc n)
  have "wait_for others c flags (st (Suc 0)) = Some (True, st (Suc n))"
    using Suc.prems Suc.IH [of "\<lambda>k. st (Suc k)"] by simp
  then show ?case using Suc.prems(1) [of 0] Suc.prems(3) by (subst wait_for.simps) simp
qed

lemma wait_any_errors:
  "wait_any others p flags s = Some (r, s') \<Longrightarrow> r = - ECHILD \<or> r = - EAGAIN"
proof -
  assume eq: "wait_any others p flags s = Some (r, s')"
  have "case (r, s') of (r, _) \<Rightarrow> r = - ECHILD \<or> r = - EAGAIN"
    by (rule wait_any.raw_induct [where P = "\<lambda>_ _ _ _ x. case x of (r, _) \<Rightarrow> r = - ECHILD \<or> r = - EAGAIN", OF _ eq])
       (auto split: if_splits bind_splits)
  then show ?thesis by simp
qed

text \<open>C19: waiting for one child. While other threads run, the call waits until the child has become a
  zombie and then returns: it answers the number of the child, stores the child's exit status where the
  caller asked for it and makes the caller a running process again.\<close>

theorem process_wait_child:
  assumes "children_of p s = Some cs" "find (\<lambda>c. pr_pid (procs s c) = pid) cs = Some c" "0 < pid" "c \<noteq> p"
    "st 0 = upd_proc p (\<lambda>q. q\<lparr>pr_state := PROCESS_WAITING\<rparr>) s"
    "\<forall>k<n. others (st k) = Some (st (Suc k)) \<and> pr_state (procs (st k) c) \<noteq> PROCESS_ZOMBIE"
    "pr_state (procs (st n) c) = PROCESS_ZOMBIE" "flags AND WNOHANG = 0" "status \<noteq> 0"
  shows "process_wait others p pid status flags s =
    Some (pr_pid (procs (st n) c),
      put_user status (le_bytes 4 (pr_status (procs (st n) c))) (upd_proc p (\<lambda>q. q\<lparr>pr_state := PROCESS_RUNNING\<rparr>) (st n)))"
proof -
  let ?s = "upd_proc p (\<lambda>q. q\<lparr>pr_state := PROCESS_WAITING\<rparr>) s"
  have "children_of p ?s = Some cs" using assms(1) by (simp add: children_of_def upd_proc_def)
  moreover have "(\<lambda>c. pr_pid (procs ?s c) = pid) = (\<lambda>c. pr_pid (procs s c) = pid)"
    by (auto simp: upd_proc_def)
  moreover have "wait_for others c flags ?s = Some (True, st n)"
    using wait_for_zombie [of n others st c flags] assms(5-8) by simp
  ultimately show ?thesis
    using assms(2-4,9) by (simp add: process_wait_def Let_def upd_proc_def put_user_def)
qed

definition sample_family :: ksys where
  "sample_family = sample_ksys\<lparr>procs := (\<lambda>n. (sample_proc False)\<lparr>pr_pid := int n, pr_status := 7,
     pr_children := Some \<lparr>v_elem_size = 8, v_size = 1, v_capacity = 4, v_data = (\<lambda>_. 5)\<rparr>\<rparr>)\<rparr>"

lemma sample_family_simps:
  "procs sample_family n = (sample_proc False)\<lparr>pr_pid := int n, pr_status := 7,
     pr_children := Some \<lparr>v_elem_size = 8, v_size = 1, v_capacity = 4, v_data = (\<lambda>_. 5)\<rparr>\<rparr>"
  by (simp add: sample_family_def)

theorem process_wait_child_witness:
  "\<exists>s'. process_wait (\<lambda>s. Some (upd_proc 5 (\<lambda>q. q\<lparr>pr_state := PROCESS_ZOMBIE\<rparr>) s)) 1 5 0x400000 0 sample_family =
     Some (5, s') \<and> umem s' 0x400000 = 7"
proof -
  define ot where "ot = (\<lambda>s :: ksys. Some (upd_proc 5 (\<lambda>q. q\<lparr>pr_state := PROCESS_ZOMBIE\<rparr>) s))"
  define s0 where "s0 = upd_proc 1 (\<lambda>q. q\<lparr>pr_state := PROCESS_WAITING\<rparr>) sample_family"
  define st where "st = (\<lambda>k :: nat. if k = 0 then s0 else upd_proc 5 (\<lambda>q. q\<lparr>pr_state := PROCESS_ZOMBIE\<rparr>) s0)"
  have c: "children_of 1 sample_family = Some [5]" "find (\<lambda>c. pr_pid (procs sample_family c) = 5) [5] = Some 5"
    by (simp_all add: children_of_def sample_family_simps)
  have five: "procs (st 1) 5 = (procs sample_family 5)\<lparr>pr_state := PROCESS_ZOMBIE\<rparr>" "umem (st 1) = umem sample_family"
    by (simp_all add: st_def s0_def upd_proc_def)
  have st: "st 0 = upd_proc 1 (\<lambda>q. q\<lparr>pr_state := PROCESS_WAITING\<rparr>) sample_family"
    "\<forall>k<1. ot (st k) = Some (st (Suc k)) \<and> pr_state (procs (st k) 5) \<noteq> PROCESS_ZOMBIE"
    "pr_state (procs (st 1) 5) = PROCESS_ZOMBIE"
    by (simp_all add: st_def s0_def ot_def five) (simp add: upd_proc_def sample_family_simps sample_proc_def)
  have "process_wait ot 1 5 0x400000 0 sample_family = Some (pr_pid (procs (st 1) 5),
      put_user 0x400000 (le_bytes 4 (pr_status (procs (st 1) 5))) (upd_proc 1 (\<lambda>q. q\<lparr>pr_state := PROCESS_RUNNING\<rparr>) (st 1)))"
    by (rule process_wait_child [OF c _ _ st]) simp_all
  moreover have "pr_pid (procs (st 1) 5) = 5" "pr_status (procs (st 1) 5) = 7"
    unfolding five by (simp_all add: sample_family_simps)
  moreover have "le_bytes 4 7 = [7, 0, 0, 0]" by (simp add: eval_nat_numeral)
  ultimately show ?thesis unfolding ot_def by (simp add: put_user_def upt_rec)
qed




end
