(* ===== verification/Sched.thy ===== *)
theory Sched
  imports Process
begin

text \<open>
  The scheduler's interrupt, the second part of \<^verbatim>\<open>kernel/src/sys/sched.c\<close>. \<open>schedule um now r\<close> is one run of
  the interrupt handler with the interrupted registers \<open>r\<close>: it wakes a sleeping thread, reaps a dead one,
  chooses the next thread and switches to it, or waits for the next tick when there is none. \<open>now t\<close> is
  the reading of the HPET counter when thread \<open>t\<close> is looked at, and \<open>um pm\<close> is the user memory that the
  MMU shows through the page map \<open>pm\<close>. Saving and restoring the FPU is left out.
\<close>

partial_function (option) wake_sleepers :: "(nat \<Rightarrow> u64) \<Rightarrow> nat \<Rightarrow> ksys \<Rightarrow> ksys option" where
  [code]: "wake_sleepers now iter s =
     (if iter = 0 then Some s
      else Option.bind
        (if t_state (threads s iter) = THREAD_SLEEPING \<and> t_sleep_until (threads s iter) < now iter then
           Option.bind (remove_thread_from_list Blocking iter
               (upd_thread iter (\<lambda>th. th\<lparr>t_state := THREAD_READY_TO_RUN, t_sleep_until := 0\<rparr>) s))
             (add_thread_to_list Runnable iter)
         else Some s)
        (\<lambda>s. wake_sleepers now (t_next (threads s iter)) s))"

definition reap_thread :: "nat \<Rightarrow> ksys \<Rightarrow> ksys option" where
  "reap_thread t s = do {
     s \<leftarrow> thread_destroy t s;
     let p = t_process (threads s t);
     s \<leftarrow> (if p \<noteq> kernel_process s \<and> pr_state (procs s p) = PROCESS_ZOMBIE then do {
             v \<leftarrow> pr_threads (procs s p);
             if v_size v = 0 then process_destroy p s else Some s
           } else Some s);
     remove_thread_from_list Zombies t s
   }"

partial_function (option) reap_zombies :: "nat \<Rightarrow> ksys \<Rightarrow> ksys option" where
  [code]: "reap_zombies iter s =
     (if iter = 0 then Some s
      else Option.bind (reap_thread iter s) (\<lambda>s. reap_zombies (t_next (threads s iter)) s))"

definition manage_threads :: "(nat \<Rightarrow> u64) \<Rightarrow> ksys \<Rightarrow> ksys option" where
  "manage_threads now s =
     (let (ok, l) = spinlock_test_and_acquire (thread_management_lock s); s = s\<lparr>thread_management_lock := l\<rparr> in
      if \<not> ok then Some s
      else do {
        s \<leftarrow> wake_sleepers now (blocking_threads s) s;
        s \<leftarrow> reap_zombies (zombie_threads s) s;
        Some (s\<lparr>thread_management_lock := spinlock_release (thread_management_lock s)\<rparr>)
      })"

definition save_thread :: "nat \<Rightarrow> registers \<Rightarrow> ksys \<Rightarrow> ksys" where
  "save_thread current r s = upd_thread current (\<lambda>th.
     let th = th\<lparr>t_ctx := r\<rparr>;
         th = (if t_is_user th then th\<lparr>t_user_stack := cpu_user_stack s, t_gs_base := msr_kernel_gs_base s\<rparr> else th);
         th = th\<lparr>t_fs_base := msr_fs_base s\<rparr>;
         th = (if t_state th = THREAD_RUNNING then th\<lparr>t_state := THREAD_READY_TO_RUN\<rparr> else th)
     in th\<lparr>t_lock := spinlock_release (t_lock th)\<rparr>) s"

definition switch_pagemap :: "u64 \<Rightarrow> ksys \<Rightarrow> ksys" where
  "switch_pagemap pm s = s\<lparr>cpu_cr3 := top_level (pagemaps (km s) pm)\<rparr>"

definition sched_await :: "ksys \<Rightarrow> ksys" where
  "sched_await s = s\<lparr>cpu_oneshot := 5000\<rparr>"

definition run_thread :: "(u64 \<Rightarrow> u64 \<Rightarrow> u8) \<Rightarrow> nat \<Rightarrow> nat \<Rightarrow> ksys \<Rightarrow> ksys" where
  "run_thread um current t s =
     (let s = upd_thread t (\<lambda>th. th\<lparr>t_state := THREAD_RUNNING\<rparr>) (s\<lparr>cpu_thread := t\<rparr>);
          th = threads s t;
          s = s\<lparr>running := t_process th, cpu_ist2 := t_page_fault_stack th, cpu_kernel_stack := t_kernel_stack th,
                cpu_oneshot := t_timeslice th\<rparr>;
          s = (if t_is_user th then s\<lparr>cpu_user_stack := t_user_stack th, msr_kernel_gs_base := t_gs_base th\<rparr> else s);
          s = s\<lparr>msr_fs_base := t_fs_base th\<rparr>
      in if current = 0 \<or> t_process (threads s current) \<noteq> t_process th
         then (switch_pagemap (pr_pagemap (procs s (t_process th))) s)\<lparr>umem := um (pr_pagemap (procs s (t_process th)))\<rparr>
         else s)"

definition schedule :: "(u64 \<Rightarrow> u64 \<Rightarrow> u8) \<Rightarrow> (nat \<Rightarrow> u64) \<Rightarrow> registers \<Rightarrow> ksys \<Rightarrow> ksys option" where
  "schedule um now r s = do {
     s \<leftarrow> manage_threads now s;
     let current = cpu_thread s;
     (t, s) \<leftarrow> get_next_thread current s;
     let s = (if current \<noteq> 0 then save_thread current r s else s);
     Some (if t = 0 then
             sched_await (switch_pagemap (kernel_pagemap (km s)) (s\<lparr>cpu_thread := 0, running := 0\<rparr>))
           else run_thread um current t s)
   }"

text \<open>\<^verbatim>\<open>sched_thread_sleep\<close>: \<open>hpet_now\<close> is the HPET counter, \<open>period\<close> its clock period; \<open>others\<close> is what runs from the
  interrupt the thread raises until it is resumed.\<close>

definition HPET_CALC_SLEEP_NS :: "u64 \<Rightarrow> u32 \<Rightarrow> u64 \<Rightarrow> u64 option" where
  "HPET_CALC_SLEEP_NS hpet_now period ns =
     (if period = 0 then None else Some (hpet_now + (ns * 1000000) div ucast period))"

definition sched_thread_sleep ::
    "(ksys \<Rightarrow> ksys option) \<Rightarrow> u64 \<Rightarrow> u32 \<Rightarrow> nat \<Rightarrow> u64 \<Rightarrow> ksys \<Rightarrow> ksys option" where
  "sched_thread_sleep others hpet_now period t ns s = do {
     s \<leftarrow> remove_thread_from_list Runnable t s;
     until \<leftarrow> HPET_CALC_SLEEP_NS hpet_now period ns;
     s \<leftarrow> add_thread_to_list Blocking t
           (upd_thread t (\<lambda>th. th\<lparr>t_state := THREAD_SLEEPING, t_sleep_until := until\<rparr>) s);
     others s
   }"

definition sched_init :: "ksys \<Rightarrow> ksys option" where
  "sched_init s = do {
     (p, s) \<leftarrow> process_create 0 (kernel_pagemap (km s)) s;
     Some (s\<lparr>kernel_process := p\<rparr>)
   }"

section \<open>One tick\<close>

lemma sched_ok_upd:
  assumes "\<And>th. t_next (f th) = t_next th"
  shows "sched_ok L (upd_thread t f s) = sched_ok L s"
proof -
  have n: "t_next ((threads (upd_thread t f s)) x) = t_next (threads s x)" for x using assms by simp
  have "chain (threads (upd_thread t f s)) h xs = chain (threads s) h xs" for h xs
    using chain_cong [of "threads s" h xs "threads (upd_thread t f s)"] chain_cong [of "threads (upd_thread t f s)" h xs "threads s"]
    by (auto simp: assms)
  then show ?thesis using n by (simp add: sched_ok_def queue_def)
qed

text \<open>What a step leaves alone: the running thread, and the state and lock of the threads in \<open>X\<close>.\<close>

definition calm :: "nat set \<Rightarrow> ksys \<Rightarrow> ksys \<Rightarrow> bool" where
  "calm X s s' \<longleftrightarrow> cpu_thread s' = cpu_thread s \<and>
     (\<forall>x\<in>X. t_state (threads s' x) = t_state (threads s x) \<and> t_lock (threads s' x) = t_lock (threads s x))"

lemma calm_trans: "calm X s t \<Longrightarrow> calm X t u \<Longrightarrow> calm X s u"
  by (simp add: calm_def)

lemma calm_refl [simp]: "calm X s s"
  by (simp add: calm_def)

lemma relinked_calm: "relinked s s' \<Longrightarrow> calm X s s'"
proof -
  assume r: "relinked s s'"
  then have "(threads s' x)\<lparr>t_next := 0\<rparr> = (threads s x)\<lparr>t_next := 0\<rparr>" for x by (simp add: relinked_def)
  then have "t_state ((threads s' x)\<lparr>t_next := 0\<rparr>) = t_state ((threads s x)\<lparr>t_next := 0\<rparr>)"
      "t_lock ((threads s' x)\<lparr>t_next := 0\<rparr>) = t_lock ((threads s x)\<lparr>t_next := 0\<rparr>)" for x by simp_all
  then have "t_state (threads s' x) = t_state (threads s x)" "t_lock (threads s' x) = t_lock (threads s x)" for x
    by simp_all
  moreover have "cpu_thread s' = cpu_thread s" using r unfolding relinked_def by (elim conjE ssubst) simp
  ultimately show ?thesis by (simp add: calm_def)
qed


lemma chain_last: "chain ts h (xs @ [x]) \<Longrightarrow> t_next (ts x) = 0"
  by (induction xs arbitrary: h) auto

lemma chain_rest: "chain ts h (as @ x # bs) \<Longrightarrow> chain ts (t_next (ts x)) bs"
  by (induction as arbitrary: h) auto

lemma wake_thread_ok:
  assumes ok: "sched_ok L s" and t: "t \<in> set (L Blocking)"
  shows "\<exists>s'. Option.bind (remove_thread_from_list Blocking t
        (upd_thread t (\<lambda>th. th\<lparr>t_state := THREAD_READY_TO_RUN, t_sleep_until := 0\<rparr>) s)) (add_thread_to_list Runnable t) = Some s' \<and>
    sched_ok (L(Blocking := remove1 t (L Blocking), Runnable := L Runnable @ [t])) s' \<and> t_next (threads s' t) = 0 \<and>
    calm (set (L Runnable)) s s'"
proof -
  let ?f = "\<lambda>th. th\<lparr>t_state := THREAD_READY_TO_RUN, t_sleep_until := 0\<rparr>"
  let ?L = "L(Blocking := remove1 t (L Blocking))"
  have ok1: "sched_ok L (upd_thread t ?f s)" using ok by (subst sched_ok_upd) simp_all
  obtain s1 where s1: "remove_thread_from_list Blocking t (upd_thread t ?f s) = Some s1" "sched_ok ?L s1"
      "relinked (upd_thread t ?f s) s1"
    using remove_thread_ok [OF ok1 t] by blast
  have "t \<notin> set (?L l)" for l
    using sched_okD(2) [OF ok, of Blocking] sched_okD(5) [OF ok t] by (cases "l = Blocking") (auto simp: fun_upd_def)
  moreover have "t \<noteq> 0" using chain_nonzero [OF sched_okD(1) [OF ok, of Blocking]] t by metis
  ultimately obtain s2 where s2: "add_thread_to_list Runnable t s1 = Some s2" "sched_ok (?L(Runnable := ?L Runnable @ [t])) s2" "relinked s1 s2"
    using add_thread_ok [OF s1(2), of t Runnable] by blast
  have "t \<notin> set (L Runnable)" using sched_okD(5) [OF ok t, of Runnable] by simp
  then have "calm (set (L Runnable)) s (upd_thread t ?f s)" by (auto simp: calm_def upd_thread_def)
  then have "calm (set (L Runnable)) s s2"
    using relinked_calm [OF s1(3)] relinked_calm [OF s2(3)] by (blast intro: calm_trans)
  moreover have "t_next (threads s2 t) = 0"
    using sched_okD(1) [OF s2(2), of Runnable] by (auto intro: chain_last)
  ultimately show ?thesis using s1(1) s2(1,2) by auto
qed

text \<open>Waking keeps the lists: at most one thread moves from the sleeping to the end of the runnable ones.\<close>

definition woken :: "(tlist \<Rightarrow> nat list) \<Rightarrow> (tlist \<Rightarrow> nat list) \<Rightarrow> bool" where
  "woken L L' \<longleftrightarrow> L' Zombies = L Zombies \<and> (\<exists>xs. L' Runnable = L Runnable @ xs) \<and>
     length (L' Runnable) + length (L' Blocking) = length (L Runnable) + length (L Blocking)"

lemma wake_sleepers_ok:
  assumes "sched_ok L s" "chain (threads s) iter xs" "set xs \<subseteq> set (L Blocking)"
  shows "\<exists>s' L'. wake_sleepers now iter s = Some s' \<and> sched_ok L' s' \<and> woken L L' \<and> calm (set (L Runnable)) s s'"
  using assms(2,3)
proof (induction xs arbitrary: iter)
  case Nil
  then show ?case using assms(1) by (subst wake_sleepers.simps) (auto simp: woken_def)
next
  case (Cons t xs)
  then have t: "iter = t" "t \<noteq> 0" "t \<in> set (L Blocking)" "chain (threads s) (t_next (threads s t)) xs" by auto
  show ?case
  proof (cases "t_state (threads s t) = THREAD_SLEEPING \<and> t_sleep_until (threads s t) < now t")
    case False
    then have "wake_sleepers now iter s = wake_sleepers now (t_next (threads s t)) s"
      using t by (subst wake_sleepers.simps) auto
    then show ?thesis using Cons.IH [OF t(4)] Cons.prems by auto
  next
    case True
    obtain s' where s': "Option.bind (remove_thread_from_list Blocking t
        (upd_thread t (\<lambda>th. th\<lparr>t_state := THREAD_READY_TO_RUN, t_sleep_until := 0\<rparr>) s)) (add_thread_to_list Runnable t) = Some s'"
      "sched_ok (L(Blocking := remove1 t (L Blocking), Runnable := L Runnable @ [t])) s'" "t_next (threads s' t) = 0"
      "calm (set (L Runnable)) s s'"
      using wake_thread_ok [OF assms(1) t(3)] by blast
    have "wake_sleepers now 0 s' = Some s'" by (subst wake_sleepers.simps) simp
    then have "wake_sleepers now iter s = Some s'"
      using t True s'(1,3) by (subst wake_sleepers.simps) simp
    moreover have "woken L (L(Blocking := remove1 t (L Blocking), Runnable := L Runnable @ [t]))"
      using t(3) by (auto simp: woken_def length_remove1) (metis Suc_pred length_pos_if_in_set)
    ultimately show ?thesis using s'(2,4) by blast
  qed
qed

lemma sched_ok_same:
  "threads s' = threads s \<Longrightarrow> thread_list_lock s' = thread_list_lock s \<Longrightarrow> (\<And>l. list_head l s' = list_head l s) \<Longrightarrow>
   sched_ok L s' = sched_ok L s"
  by (simp add: sched_ok_def queue_def)

lemma list_head_management [simp]: "list_head l (s\<lparr>thread_management_lock := v\<rparr>) = list_head l s"
  by (cases l) (simp_all add: list_head_def)

lemma manage_threads_ok:
  assumes ok: "sched_ok L s" and "L Zombies = []"
  shows "\<exists>s' L'. manage_threads now s = Some s' \<and> sched_ok L' s' \<and> woken L L' \<and> calm (set (L Runnable)) s s'"
proof (cases "fst (spinlock_test_and_acquire (thread_management_lock s))")
  case False
  then have "manage_threads now s = Some (s\<lparr>thread_management_lock := snd (spinlock_test_and_acquire (thread_management_lock s))\<rparr>)"
    by (auto simp: manage_threads_def Let_def split: prod.split)
  moreover have "sched_ok L (s\<lparr>thread_management_lock := v\<rparr>)" for v using ok by (subst sched_ok_same) simp_all
  ultimately show ?thesis by (intro exI conjI) (auto simp: woken_def calm_def)
next
  case True
  define s0 where "s0 = s\<lparr>thread_management_lock := snd (spinlock_test_and_acquire (thread_management_lock s))\<rparr>"
  have ok0: "sched_ok L s0" using ok unfolding s0_def by (subst sched_ok_same) simp_all
  have "chain (threads s0) (blocking_threads s0) (L Blocking)"
    using sched_okD(1) [OF ok0, of Blocking] by (simp add: list_head_def)
  then obtain s1 L' where s1: "wake_sleepers now (blocking_threads s0) s0 = Some s1" "sched_ok L' s1" "woken L L'" "calm (set (L Runnable)) s0 s1"
    using wake_sleepers_ok [OF ok0] by blast
  have "zombie_threads s1 = 0"
    using sched_okD(1) [OF s1(2), of Zombies] s1(3) assms(2) by (simp add: woken_def list_head_def)
  then have "reap_zombies (zombie_threads s1) s1 = Some s1" by (subst reap_zombies.simps) simp
  then have "manage_threads now s = Some (s1\<lparr>thread_management_lock := spinlock_release (thread_management_lock s1)\<rparr>)"
    using True s1(1) by (auto simp: manage_threads_def Let_def s0_def split: prod.splits)
  moreover have "sched_ok L' (s1\<lparr>thread_management_lock := v\<rparr>)" for v using s1(2) by (subst sched_ok_same) simp_all
  ultimately show ?thesis
    using s1(3,4) by (intro exI [of _ "s1\<lparr>thread_management_lock := spinlock_release (thread_management_lock s1)\<rparr>"] exI [of _ L'])
      (simp add: calm_def s0_def)
qed

section \<open>The choice of the next thread\<close>

definition ready :: "ksys \<Rightarrow> nat \<Rightarrow> bool" where
  "ready s x \<longleftrightarrow> t_state (threads s x) = THREAD_READY_TO_RUN \<and> t_lock (threads s x) = 0"

definition first_ready :: "ksys \<Rightarrow> nat list \<Rightarrow> nat" where
  "first_ready s xs = (case find (ready s) xs of None \<Rightarrow> 0 | Some x \<Rightarrow> x)"

lemma ready_from_chain: "chain (threads s) h xs \<Longrightarrow> ready_from (threads s) h = Some (first_ready s xs)"
proof (induction xs arbitrary: h)
  case Nil
  then show ?case by (subst ready_from.simps) (simp add: first_ready_def)
next
  case (Cons x xs)
  then show ?case
    by (subst ready_from.simps)
       (auto simp: first_ready_def ready_def spinlock_test_and_acquire_def split: if_splits)
qed

text \<open>The threads that come after the running one.\<close>

definition behind :: "nat \<Rightarrow> nat list \<Rightarrow> nat list" where
  "behind c xs = (if c = 0 then xs else tl (dropWhile (\<lambda>x. x \<noteq> c) xs))"

lemma behind_split: "c \<noteq> 0 \<Longrightarrow> c \<notin> set as \<Longrightarrow> behind c (as @ c # bs) = bs"
  by (induction as) (auto simp: behind_def)

lemma behind_append: "c = 0 \<or> c \<in> set xs \<Longrightarrow> behind c (xs @ ys) = behind c xs @ ys"
  by (induction xs) (auto simp: behind_def)

lemma behind_subset: "set (behind c xs) \<subseteq> set xs"
  by (induction xs) (auto simp: behind_def)

lemma get_next_thread_ok:
  assumes "sched_ok L s" "cpu_thread s = 0 \<or> cpu_thread s \<in> set (L Runnable)" "t = first_ready s (behind (cpu_thread s) (L Runnable))"
  shows "get_next_thread (cpu_thread s) s = Some (t, if t = 0 then s else upd_thread t (\<lambda>th. th\<lparr>t_lock := snd (spinlock_test_and_acquire (t_lock th))\<rparr>) s)"
proof -
  note c = sched_okD(1) [OF assms(1), of Runnable]
  have "chain (threads s) (if cpu_thread s \<noteq> 0 then t_next (threads s (cpu_thread s)) else runnable_threads s) (behind (cpu_thread s) (L Runnable))"
  proof (cases "cpu_thread s = 0")
    case True
    then show ?thesis using c by (simp add: behind_def list_head_def)
  next
    case False
    then obtain as bs where "L Runnable = as @ cpu_thread s # bs" "cpu_thread s \<notin> set as"
      using assms(2) split_list_first [of "cpu_thread s" "L Runnable"] by auto
    then show ?thesis using False c chain_rest [of "threads s" _ as "cpu_thread s" bs] by (simp add: behind_split)
  qed
  then show ?thesis using ready_from_chain assms(3) by (simp add: get_next_thread_def)
qed

text \<open>The lists, the locks and the states of threads do not see the rest of a switch.\<close>

lemma switch_simps [simp]:
  "threads (switch_pagemap pm s) = threads s" "thread_list_lock (switch_pagemap pm s) = thread_list_lock s"
  "list_head l (switch_pagemap pm s) = list_head l s" "cpu_thread (switch_pagemap pm s) = cpu_thread s"
  by (simp_all add: switch_pagemap_def list_head_def split: tlist.split)

lemma run_thread_sched:
  "sched_ok L (run_thread um c t s) = sched_ok L s" "cpu_thread (run_thread um c t s) = t"
  "t_state (threads (run_thread um c t s) x) = (if x = t then THREAD_RUNNING else t_state (threads s x))"
  "t_lock (threads (run_thread um c t s) x) = t_lock (threads s x)"
proof -
  have u: "sched_ok L (upd_thread t (\<lambda>th. th\<lparr>t_state := THREAD_RUNNING\<rparr>) s) = sched_ok L s" by (rule sched_ok_upd) simp
  have th: "threads (run_thread um c t s) = threads (upd_thread t (\<lambda>th. th\<lparr>t_state := THREAD_RUNNING\<rparr>) s)"
    and "thread_list_lock (run_thread um c t s) = thread_list_lock s" "list_head l (run_thread um c t s) = list_head l s" for l
    by (simp_all add: run_thread_def Let_def upd_thread_def switch_pagemap_def list_head_def split: tlist.split)
  then show "sched_ok L (run_thread um c t s) = sched_ok L s"
    unfolding u [symmetric] by (intro sched_ok_same) simp_all
  show "cpu_thread (run_thread um c t s) = t" by (simp add: run_thread_def Let_def upd_thread_def)
  show "t_state (threads (run_thread um c t s) x) = (if x = t then THREAD_RUNNING else t_state (threads s x))"
    "t_lock (threads (run_thread um c t s) x) = t_lock (threads s x)"
    unfolding th by simp_all
qed

lemma save_thread_sched:
  "sched_ok L (save_thread c r s) = sched_ok L s" "cpu_thread (save_thread c r s) = cpu_thread s"
  "x \<noteq> c \<Longrightarrow> threads (save_thread c r s) x = threads s x"
  unfolding save_thread_def by (subst sched_ok_upd) (simp_all add: Let_def upd_thread_def)

lemma await_sched:
  "sched_ok L (sched_await (switch_pagemap pm (s\<lparr>cpu_thread := 0, running := 0\<rparr>))) = sched_ok L s"
  by (rule sched_ok_same) (simp_all add: sched_await_def switch_pagemap_def list_head_def split: tlist.split)

lemma find_ready_append:
  "find (ready s) xs = Some x \<Longrightarrow> (\<And>y. y \<in> set xs \<Longrightarrow> ready s' y = ready s y) \<Longrightarrow> first_ready s' (xs @ ys) = x"
  by (induction xs) (auto simp: first_ready_def split: if_splits)

lemma first_ready_in: "first_ready s xs = 0 \<or> first_ready s xs \<in> set xs"
  by (induction xs) (auto simp: first_ready_def split: if_splits)

text \<open>One tick: the first ready thread behind the running one is chosen, if there is one, and ready threads
  that are not chosen stay ready.\<close>

lemma schedule_step:
  assumes ok: "sched_ok L s" "L Zombies = []" and c: "cpu_thread s = 0 \<or> cpu_thread s \<in> set (L Runnable)"
  obtains s' L' where "schedule um now r s = Some s'" "sched_ok L' s'" "woken L L'"
    "\<And>x. find (ready s) (behind (cpu_thread s) (L Runnable)) = Some x \<Longrightarrow> cpu_thread s' = x"
    "cpu_thread s' = 0 \<or> cpu_thread s' \<in> set (behind (cpu_thread s) (L' Runnable))"
    "\<And>x. x \<in> set (L Runnable) \<Longrightarrow> x \<noteq> cpu_thread s \<Longrightarrow> x \<noteq> cpu_thread s' \<Longrightarrow> ready s x \<Longrightarrow> ready s' x"
proof -
  obtain s1 L' where s1: "manage_threads now s = Some s1" "sched_ok L' s1" "woken L L'" "calm (set (L Runnable)) s s1"
    using manage_threads_ok [OF ok] by blast
  obtain ys where ys: "L' Runnable = L Runnable @ ys" using s1(3) by (auto simp: woken_def)
  have cpu: "cpu_thread s1 = cpu_thread s" and rd: "\<And>x. x \<in> set (L Runnable) \<Longrightarrow> ready s1 x = ready s x"
    using s1(4) by (auto simp: calm_def ready_def)
  define c where "c = cpu_thread s"
  define t where "t = first_ready s1 (behind c (L' Runnable))"
  define s2 where "s2 = (if t = 0 then s1 else upd_thread t (\<lambda>th. th\<lparr>t_lock := snd (spinlock_test_and_acquire (t_lock th))\<rparr>) s1)"
  define s3 where "s3 = (if c \<noteq> 0 then save_thread c r s2 else s2)"
  define s' where "s' = (if t = 0 then sched_await (switch_pagemap (kernel_pagemap (km s3)) (s3\<lparr>cpu_thread := 0, running := 0\<rparr>))
     else run_thread um c t s3)"
  have beh: "behind c (L' Runnable) = behind c (L Runnable) @ ys" using behind_append c ys by (simp add: c_def)
  have cpu1: "cpu_thread s1 = c" "c = 0 \<or> c \<in> set (L' Runnable)" using cpu c ys by (auto simp: c_def)
  have "get_next_thread c s1 = Some (t, s2)"
    using get_next_thread_ok [OF s1(2), of t] cpu1 by (simp add: t_def s2_def)
  then have "schedule um now r s = Some s'"
    using s1(1) by (simp add: schedule_def Let_def cpu1(1) s3_def s'_def)
  moreover have "sched_ok L' s'"
  proof -
    have "sched_ok L' s2" using s1(2) by (simp add: s2_def sched_ok_upd)
    then show ?thesis by (simp add: s'_def s3_def await_sched run_thread_sched save_thread_sched)
  qed
  moreover have "cpu_thread s' = t" by (simp add: s'_def run_thread_sched sched_await_def)
  moreover have "t = x" if "find (ready s) (behind c (L Runnable)) = Some x" for x
    unfolding t_def beh using that rd behind_subset [of c "L Runnable"] by (intro find_ready_append [of s]) auto
  moreover have "t = 0 \<or> t \<in> set (behind c (L' Runnable))" unfolding t_def by (rule first_ready_in)
  moreover have "ready s' x" if "x \<in> set (L Runnable)" "x \<noteq> c" "x \<noteq> t" "ready s x" for x
  proof -
    have "threads s3 x = threads s1 x" using that by (simp add: s3_def s2_def save_thread_sched)
    then show ?thesis using that rd [OF that(1)] by (auto simp: ready_def s'_def run_thread_sched sched_await_def)
  qed
  ultimately show ?thesis using s1(3) that [of s' L'] by (simp add: c_def)
qed

section \<open>Round robin\<close>

fun run_ticks :: "(u64 \<Rightarrow> u64 \<Rightarrow> u8) \<Rightarrow> ((nat \<Rightarrow> u64) \<times> registers) list \<Rightarrow> ksys \<Rightarrow> ksys option" where
  "run_ticks um [] s = Some s"
| "run_ticks um ((now, r) # es) s = do { s \<leftarrow> schedule um now r s; run_ticks um es s }"

definition pos :: "nat \<Rightarrow> nat list \<Rightarrow> nat" where
  "pos x xs = length (takeWhile (\<lambda>y. y \<noteq> x) xs)"

lemma pos_append: "x \<in> set xs \<Longrightarrow> pos x (xs @ ys) = pos x xs"
  by (induction xs) (auto simp: pos_def)

lemma pos_less: "x \<in> set xs \<Longrightarrow> pos x xs < length xs"
  by (induction xs) (auto simp: pos_def)

lemma pos_behind:
  assumes "distinct xs" "c \<noteq> 0" "c \<in> set xs" "x \<in> set (behind c xs)"
  shows "pos x xs = pos c xs + 1 + pos x (behind c xs)"
proof -
  obtain as bs where xs: "xs = as @ c # bs" "c \<notin> set as" using assms(3) split_list_first by metis
  then have "behind c xs = bs" using assms(2) by (simp add: behind_split)
  moreover have "pos c xs = length as" using xs by (induction as arbitrary: xs) (auto simp: pos_def)
  moreover have "pos x (as @ c # bs) = length as + 1 + pos x bs" if "x \<notin> set as" "x \<noteq> c" for as
    using that by (induction as) (auto simp: pos_def)
  moreover have "x \<notin> set as" "x \<noteq> c" using assms(1,4) calculation(1) xs by auto
  ultimately show ?thesis using xs(1) by simp
qed

lemma in_behind:
  assumes "distinct xs" "c \<in> set xs" "c \<noteq> 0" "t \<in> set xs" "pos c xs < pos t xs"
  shows "t \<in> set (behind c xs)"
proof -
  obtain as bs where xs: "xs = as @ c # bs" "c \<notin> set as" using assms(2) split_list_first by metis
  have c: "pos c xs = length as" using xs by (induction as arbitrary: xs) (auto simp: pos_def)
  have "t \<notin> set as" using pos_less [of t as] pos_append [of t as] assms(5) c xs by auto
  moreover have "t \<noteq> c" using assms(5) by auto
  ultimately show ?thesis using assms(3,4) xs by (auto simp: behind_split)
qed

lemma find_before:
  "t \<in> set xs \<Longrightarrow> P t \<Longrightarrow> \<exists>x. find P xs = Some x \<and> x \<in> set xs \<and> (x = t \<or> pos x xs < pos t xs)"
  by (induction xs) (auto simp: pos_def)

text \<open>How many ticks a ready thread \<open>t\<close> may have to wait when \<open>c\<close> is running.\<close>

definition turns :: "nat \<Rightarrow> nat \<Rightarrow> nat list \<Rightarrow> nat \<Rightarrow> nat" where
  "turns c t xs n =
     (if c = 0 then pos t xs + 1
      else if pos c xs < pos t xs then pos t xs - pos c xs
      else n - pos c xs + pos t xs + 1)"

lemma turns_decrease:
  assumes xs: "distinct (xs @ ys)" "length (xs @ ys) \<le> n" "t \<in> set xs" "P t" "0 \<notin> set xs"
    and c: "c = 0 \<or> c \<in> set xs" "c \<noteq> t"
    and c': "\<And>x. find P (behind c xs) = Some x \<Longrightarrow> c' = x" "c' = 0 \<or> c' \<in> set (behind c (xs @ ys))" "c' \<noteq> t"
  shows "turns c' t (xs @ ys) n < turns c t xs n"
proof -
  have pt: "pos t (xs @ ys) = pos t xs" using xs(3) by (rule pos_append)
  consider "c = 0" | "c \<noteq> 0" "c \<in> set xs" "pos c xs < pos t xs" | "c \<noteq> 0" "c \<in> set xs" "pos t xs \<le> pos c xs"
    using c(1) by fastforce
  then show ?thesis
  proof cases
    case 1
    then obtain x where "find P xs = Some x" "x \<in> set xs" "pos x xs < pos t xs"
      using find_before [of t xs P] xs(3,4) c'(1,3) by (auto simp: behind_def)
    moreover from this have "x \<noteq> 0" using xs(5) by metis
    ultimately show ?thesis using c'(1) 1 pt by (auto simp: behind_def turns_def pos_append)
  next
    case 2
    then have t: "t \<in> set (behind c xs)" using in_behind [of xs c t] xs by simp
    then obtain x where x: "find P (behind c xs) = Some x" "x \<in> set (behind c xs)" "pos x (behind c xs) < pos t (behind c xs)"
      using find_before [of t "behind c xs" P] t xs(4) c'(1,3) by auto
    have xin: "x \<in> set xs" using x(2) behind_subset by blast
    then have "x \<noteq> 0" using xs(5) by metis
    moreover have "pos x xs < pos t xs" "pos c xs < pos x xs"
      using pos_behind [of xs c x] pos_behind [of xs c t] x t xs 2 by auto
    ultimately show ?thesis using c'(1) [OF x(1)] 2 pt xin by (auto simp: turns_def pos_append)
  next
    case 3
    have lt: "pos c xs < n" using pos_less [OF 3(2)] xs(2) by simp
    show ?thesis
    proof (cases "c' = 0")
      case True
      then show ?thesis using 3 lt pt by (simp add: turns_def)
    next
      case False
      then have b: "c' \<in> set (behind c (xs @ ys))" using c'(2) by simp
      then have "pos c (xs @ ys) < pos c' (xs @ ys)"
        using pos_behind [OF xs(1) 3(1) _ b] 3(2) by simp
      then have "pos c xs < pos c' (xs @ ys)" using 3(2) by (simp add: pos_append)
      moreover have "pos c' (xs @ ys) < n" using pos_less [of c' "xs @ ys"] b behind_subset xs(2) by fastforce
      ultimately show ?thesis using 3 False pt by (simp add: turns_def)
    qed
  qed
qed

lemma turns_bound:
  assumes "t \<in> set xs" "c = 0 \<or> c \<in> set xs" "c \<noteq> t" "length xs \<le> n"
  shows "turns c t xs n \<le> n"
proof -
  have "pos t xs \<noteq> pos c xs" if "c \<in> set xs" using that assms(1,3) by (induction xs) (auto simp: pos_def split: if_splits)
  then show ?thesis using assms pos_less [of t xs] pos_less [of c xs] by (auto simp: turns_def)
qed

lemma ready_thread_runs:
  assumes "sched_ok L s" "L Zombies = []" "cpu_thread s = 0 \<or> cpu_thread s \<in> set (L Runnable)"
    "t \<in> set (L Runnable)" "ready s t" "cpu_thread s \<noteq> t"
    "turns (cpu_thread s) t (L Runnable) (length (L Runnable) + length (L Blocking)) \<le> length es"
  shows "\<exists>n s'. n \<le> turns (cpu_thread s) t (L Runnable) (length (L Runnable) + length (L Blocking)) \<and>
    run_ticks um (take n es) s = Some s' \<and> cpu_thread s' = t"
  using assms
proof (induction es arbitrary: s L)
  case Nil
  have "0 < turns (cpu_thread s) t (L Runnable) (length (L Runnable) + length (L Blocking))" by (auto simp: turns_def)
  then show ?case using Nil.prems(7) by simp
next
  case (Cons e es)
  let ?N = "length (L Runnable) + length (L Blocking)"
  obtain now r where e: "e = (now, r)" by force
  obtain s1 L' where s1: "schedule um now r s = Some s1" "sched_ok L' s1" "woken L L'"
      "\<And>x. find (ready s) (behind (cpu_thread s) (L Runnable)) = Some x \<Longrightarrow> cpu_thread s1 = x"
      "cpu_thread s1 = 0 \<or> cpu_thread s1 \<in> set (behind (cpu_thread s) (L' Runnable))"
      "\<And>x. x \<in> set (L Runnable) \<Longrightarrow> x \<noteq> cpu_thread s \<Longrightarrow> x \<noteq> cpu_thread s1 \<Longrightarrow> ready s x \<Longrightarrow> ready s1 x"
    using schedule_step [OF Cons.prems(1-3)] by blast
  obtain ys where ys: "L' Runnable = L Runnable @ ys" "length (L' Runnable) + length (L' Blocking) = ?N" "L' Zombies = []"
    using s1(3) Cons.prems(2) by (auto simp: woken_def)
  show ?case
  proof (cases "cpu_thread s1 = t")
    case True
    have "1 \<le> turns (cpu_thread s) t (L Runnable) ?N" by (auto simp: turns_def)
    then show ?thesis using True s1(1) e by (intro exI [of _ 1] exI [of _ s1]) simp
  next
    case False
    have d: "distinct (L Runnable @ ys)" "0 \<notin> set (L Runnable)"
      using sched_okD(2) [OF s1(2), of Runnable] chain_nonzero [OF sched_okD(1) [OF Cons.prems(1), of Runnable]] ys by simp_all
    have less: "turns (cpu_thread s1) t (L' Runnable) ?N < turns (cpu_thread s) t (L Runnable) ?N"
      unfolding ys(1)
      by (rule turns_decrease [where P = "ready s"]) (use d ys s1(4,5) Cons.prems False in auto)
    have "cpu_thread s1 = 0 \<or> cpu_thread s1 \<in> set (L' Runnable)" using s1(5) behind_subset by blast
    moreover have "ready s1 t" using s1(6) [OF Cons.prems(4)] Cons.prems(5,6) False by simp
    moreover have "t \<in> set (L' Runnable)" using Cons.prems(4) ys by simp
    ultimately obtain n s' where "n \<le> turns (cpu_thread s1) t (L' Runnable) ?N" "run_ticks um (take n es) s1 = Some s'" "cpu_thread s' = t"
      using Cons.IH [OF s1(2) ys(3)] less Cons.prems(7) False ys(2) by auto
    then show ?thesis using s1(1) e less by (intro exI [of _ "Suc n"] exI [of _ s']) simp
  qed
qed

text \<open>C15: every ready thread gets its turn. As long as no thread leaves the runnable list and none is to be
  reaped, a thread that waits there with its lock free is dispatched within as many ticks as there are
  runnable and sleeping threads, whatever the other threads do, whichever sleepers wake up and whatever
  the registers are at each tick.\<close>

theorem schedule_round_robin:
  assumes "sched_ok L s" "L Zombies = []" "cpu_thread s = 0 \<or> cpu_thread s \<in> set (L Runnable)"
    "t \<in> set (L Runnable)" "t_state (threads s t) = THREAD_READY_TO_RUN" "t_lock (threads s t) = 0" "cpu_thread s \<noteq> t"
    "length (L Runnable) + length (L Blocking) \<le> length es"
  shows "\<exists>n s'. n \<le> length (L Runnable) + length (L Blocking) \<and> run_ticks um (take n es) s = Some s' \<and> cpu_thread s' = t"
proof -
  let ?N = "length (L Runnable) + length (L Blocking)"
  have "turns (cpu_thread s) t (L Runnable) ?N \<le> ?N" using assms(3,4,7) by (intro turns_bound) auto
  moreover have "ready s t" using assms(5,6) by (simp add: ready_def)
  ultimately show ?thesis using ready_thread_runs [OF assms(1-4) _ assms(7), of es um] assms(8) by (meson order_trans)
qed

theorem schedule_round_robin_witness:
  "\<exists>n s'. n \<le> 3 \<and> run_ticks (\<lambda>_ _. 0) (take n (replicate 3 (\<lambda>_. 0, zero_registers))) sample_ksys = Some s' \<and> cpu_thread s' = 3"
proof -
  let ?L = "(\<lambda>l. if l = Runnable then [1, 2, 3] else []) :: tlist \<Rightarrow> nat list"
  have "sched_ok ?L sample_ksys"
    by (auto simp: sched_ok_def queue_def sample_ksys_simps sample_thread_def list_head_def zero_thread_def split: tlist.split)
  then show ?thesis
    using schedule_round_robin [of ?L sample_ksys 3 "replicate 3 (\<lambda>_. 0, zero_registers)" "\<lambda>_ _. 0"]
    by (simp add: sample_ksys_simps sample_thread_def flip: numeral_3_eq_3)
qed

end
