(* ===== verification/Elf.thy ===== *)
theory Elf
  imports Process
begin

text \<open>
  Loading a program: \<^verbatim>\<open>kernel/src/sys/elf.c\<close>. The headers are read into buffers on the stack; a short read
  leaves the rest of a buffer as it was, the bytes \<open>junk\<close> and \<open>pjunk\<close> of the stack or those of the
  program header before. The functions of device nodes are the argument \<open>dv\<close>, as in the file layer.
\<close>

definition ELFMAG :: "u8 list" where "ELFMAG = [0x7f, 0x45, 0x4c, 0x46]"
definition EI_CLASS :: nat where "EI_CLASS = 4"
definition EI_DATA :: nat where "EI_DATA = 5"
definition EI_OSABI :: nat where "EI_OSABI = 7"
definition ELFCLASS64 :: u8 where "ELFCLASS64 = 2"
definition ELFDATA2LSB :: u8 where "ELFDATA2LSB = 1"
definition PT_LOAD :: u32 where "PT_LOAD = 1"
definition PF_W :: u32 where "PF_W = 2"
definition PF_X :: u32 where "PF_X = 1"

record elf_header =
  e_ident :: "u8 list"
  e_machine :: u16
  e_entry :: u64
  e_phoff :: u64
  e_phentsize :: u16
  e_phnum :: u16

record elf_program_header =
  p_type :: u32
  p_flags :: u32
  p_offset :: u64
  p_vaddr :: u64
  p_filesz :: u64
  p_memsz :: u64

definition SIZEOF_EHDR :: nat where "SIZEOF_EHDR = 64"
definition SIZEOF_PHDR :: nat where "SIZEOF_PHDR = 56"

definition field :: "u8 list \<Rightarrow> nat \<Rightarrow> nat \<Rightarrow> int" where
  "field bs off n = le_value (take n (drop off bs))"

definition header_of :: "u8 list \<Rightarrow> elf_header" where
  "header_of bs = \<lparr>e_ident = take 16 bs, e_machine = word_of_int (field bs 18 2), e_entry = word_of_int (field bs 24 8),
     e_phoff = word_of_int (field bs 32 8), e_phentsize = word_of_int (field bs 54 2), e_phnum = word_of_int (field bs 56 2)\<rparr>"

definition pheader_of :: "u8 list \<Rightarrow> elf_program_header" where
  "pheader_of bs = \<lparr>p_type = word_of_int (field bs 0 4), p_flags = word_of_int (field bs 4 4),
     p_offset = word_of_int (field bs 8 8), p_vaddr = word_of_int (field bs 16 8), p_filesz = word_of_int (field bs 32 8),
     p_memsz = word_of_int (field bs 40 8)\<rparr>"

text \<open>A read into a buffer of the size of the request.\<close>

definition read_into ::
    "(nat \<Rightarrow> 'a ksys_scheme device) \<Rightarrow> nat \<Rightarrow> u8 list \<Rightarrow> u64 \<Rightarrow> 'a ksys_scheme \<Rightarrow> (u8 list \<times> int \<times> 'a ksys_scheme) option" where
  "read_into dv node buf off s = do {
     (bs, r, s) \<leftarrow> node_read dv node off (of_nat (length buf)) 0 s;
     Some (bs @ drop (length bs) buf, r, s)
   }"

definition valid_header :: "elf_header \<Rightarrow> bool" where
  "valid_header h \<longleftrightarrow> take 4 (e_ident h) = ELFMAG \<and> e_ident h ! EI_CLASS = ELFCLASS64 \<and>
     e_ident h ! EI_DATA = ELFDATA2LSB \<and> e_ident h ! EI_OSABI = 0 \<and> e_machine h = 62"

definition segment_flags :: "elf_program_header \<Rightarrow> u64" where
  "segment_flags ph =
     PTE_PRESENT OR PTE_USER OR (if p_flags ph AND PF_W \<noteq> 0 then PTE_WRITABLE else 0) OR
     (if p_flags ph AND PF_X = 0 then PTE_NX else 0)"

definition segment_pages :: "elf_program_header \<Rightarrow> u64" where
  "segment_pages ph = ((p_vaddr ph AND (PAGE_SIZE - 1)) + p_memsz ph + (PAGE_SIZE - 1)) div PAGE_SIZE"

definition load_segment ::
    "(nat \<Rightarrow> 'a ksys_scheme device) \<Rightarrow> nat \<Rightarrow> u64 \<Rightarrow> elf_program_header \<Rightarrow> 'a ksys_scheme \<Rightarrow> (int \<times> 'a ksys_scheme) option" where
  "load_segment dv node pm ph s = do {
     let misalign = p_vaddr ph AND (PAGE_SIZE - 1);
     (phys_pages, s) \<leftarrow> in_km (alloc_cleared (segment_pages ph)) s;
     if phys_pages = 0 then Some (- ENOMEM, s)
     else do {
       (ok, s) \<leftarrow> in_km (map_range pm (p_vaddr ph) phys_pages (segment_pages ph) (segment_flags ph)) s;
       if \<not> ok then Some (- EFAULT, s)
       else do {
         (bs, r, s) \<leftarrow> node_read dv node (p_offset ph) (p_filesz ph) 0 s;
         let s = s\<lparr>km := (km s)\<lparr>bytes := poke (phys_pages + misalign) bs (bytes (km s))\<rparr>\<rparr>;
         if r < 0 then Some (- EIO, s) else Some (0, s)
       }
     }
   }"

fun load_segments ::
    "(nat \<Rightarrow> 'a ksys_scheme device) \<Rightarrow> nat \<Rightarrow> u64 \<Rightarrow> elf_header \<Rightarrow> u8 list \<Rightarrow> nat list \<Rightarrow> 'a ksys_scheme \<Rightarrow>
     (int \<times> 'a ksys_scheme) option" where
  "load_segments dv node pm h buf [] s = Some (0, s)"
| "load_segments dv node pm h buf (i # is) s = do {
     (buf, r, s) \<leftarrow> read_into dv node buf (e_phoff h + of_nat i * ucast (e_phentsize h)) s;
     if r < 0 then Some (- EIO, s)
     else if p_type (pheader_of buf) \<noteq> PT_LOAD then load_segments dv node pm h buf is s
     else do {
       (r, s) \<leftarrow> load_segment dv node pm (pheader_of buf) s;
       if r < 0 then Some (r, s) else load_segments dv node pm h buf is s
     }
   }"

text \<open>The result is the error number and, on success, the entry point.\<close>

definition elf_load ::
    "(nat \<Rightarrow> 'a ksys_scheme device) \<Rightarrow> (nat \<Rightarrow> u8) \<Rightarrow> (nat \<Rightarrow> u8) \<Rightarrow> nat \<Rightarrow> u64 \<Rightarrow> 'a ksys_scheme \<Rightarrow>
     (int \<times> u64 option \<times> 'a ksys_scheme) option" where
  "elf_load dv junk pjunk node pm s = do {
     s \<leftarrow> lock_node node s;
     (buf, r, s) \<leftarrow> read_into dv node (map junk [0..<SIZEOF_EHDR]) 0 s;
     if r < 0 then Some (- EIO, None, unlock_node node s)
     else
       let h = header_of buf in
       if \<not> valid_header h then Some (- ENOEXEC, None, unlock_node node s)
       else do {
         (r, s) \<leftarrow> load_segments dv node pm h (map pjunk [0..<SIZEOF_PHDR]) [0..<unat (e_phnum h)] s;
         Some (r, if r < 0 then None else Some (e_entry h), unlock_node node s)
       }
   }"

section \<open>Frames for a segment\<close>

lemma zero_frames_other: "(\<And>i. i < n \<Longrightarrow> t \<noteq> a + of_nat i * PAGE_SIZE) \<Longrightarrow> zero_frames a n m t = m t"
  unfolding zero_frames_def by (induction n) auto

lemma memset_poke: "memset_bytes a v n b = poke a (replicate n v) b"
  unfolding memset_bytes_def poke_def length_replicate by (rule fold_cong) auto

lemma alloc_cleared_run:
  assumes "fresh_frames (unat n + k) (vm_pmm s)" "0 < unat n"
  obtains i p m b where "alloc_cleared n s = Some (of_nat i * PAGE_SIZE, s\<lparr>vm_pmm := p, vm_mem := m, bytes := b\<rparr>)"
    "fresh_frames k p" "frames_ahead p \<subseteq> frames_ahead (vm_pmm s)" "0 < i" "i + unat n < 2 ^ 51"
    "\<And>t. t \<notin> frames_ahead (vm_pmm s) \<Longrightarrow> m t = vm_mem s t"
    "\<And>x. unat (x - of_nat i * PAGE_SIZE) < 4096 * unat n \<Longrightarrow> b x = 0"
proof -
  let ?i = "last_used_index (vm_pmm s)"
  let ?p = "(mark_run ?i (unat n) (vm_pmm s))\<lparr>used_pages := used_pages (vm_pmm s) + of_nat (unat n)\<rparr>"
  let ?a = "of_nat ?i * PAGE_SIZE :: u64"
  let ?m = "zero_frames ?a (unat n) (vm_mem s)" and ?b = "memset_bytes ?a 0 (unat (n * PAGE_SIZE)) (bytes s)"
  have i: "0 < ?i" "?i + unat n < 2 ^ 51" using assms(1) by (auto simp: fresh_frames_def)
  have run: "pmm_alloc n (vm_pmm s) = Some (?a, ?p)" "fresh_frames k ?p"
    using pmm_alloc_fresh_run [OF assms unat_lt_64] by simp_all
  show ?thesis
  proof (rule that [of ?i ?b ?m ?p])
    show "alloc_cleared n s = Some (?a, s\<lparr>vm_pmm := ?p, vm_mem := ?m, bytes := ?b\<rparr>)"
      using run(1) by (simp add: alloc_cleared_def pmm_allocz_def)
    show "frames_ahead ?p \<subseteq> frames_ahead (vm_pmm s)" by (auto simp: frames_ahead_def mark_run_def)
    show "?m t = vm_mem s t" if "t \<notin> frames_ahead (vm_pmm s)" for t
    proof (rule zero_frames_other)
      fix j assume j: "j < unat n"
      have "?a + of_nat j * PAGE_SIZE = of_nat (?i + j) * PAGE_SIZE" by (simp add: distrib_right)
      then have "?a + of_nat j * PAGE_SIZE \<in> frames_ahead (vm_pmm s)"
        using j i by (auto simp: frames_ahead_def intro!: exI [of _ "?i + j"])
      then show "t \<noteq> ?a + of_nat j * PAGE_SIZE" using that by metis
    qed
    have "unat (n * PAGE_SIZE) = 4096 * unat n" using i by (simp add: PAGE_SIZE_def unat_word_ariths)
    then show "?b x = 0" if "unat (x - ?a) < 4096 * unat n" for x
      using that unat_lt_64 [of "n * PAGE_SIZE"] by (simp add: memset_poke poke_apply)
  qed (use run(2) i in auto)
qed

lemma table_frame:
  assumes "i < 2 ^ 51" "table_flags flags"
  shows "table_of (of_nat i * PAGE_SIZE OR flags) = of_nat i * PAGE_SIZE"
  using assms by (intro table_of_or_flags) (simp_all add: frame_flag_bits table_flags_def)

lemma segment_flags_ok: "table_flags (segment_flags ph)" "\<not> is_huge (segment_flags ph)"
  by (auto simp: segment_flags_def table_flags_def is_present_def is_huge_def pte_defs PTE_FLAG_MASK_def)

section \<open>The contents of a segment\<close>

text \<open>What a program sees at an address of a small page.\<close>

definition user_byte :: "pagemap \<Rightarrow> u64 \<Rightarrow> 'a kheap_scheme \<Rightarrow> u8 option" where
  "user_byte pm vaddr s = do {
     e \<leftarrow> vmm_get_page_mapping pm vaddr s;
     if e = -1 then None else Some (bytes s (table_of e + (vaddr AND (PAGE_SIZE - 1))))
   }"

lemma unat_misalign: "unat ((v :: u64) AND (PAGE_SIZE - 1)) = unat v mod 4096"
proof -
  have "v AND (PAGE_SIZE - 1) = take_bit 12 v" by (simp add: PAGE_SIZE_def take_bit_eq_mask mask_eq_exp_minus_1)
  then show ?thesis by (simp add: take_bit_eq_mod unat_mod)
qed

lemma unat_segment_pages:
  assumes "unat (p_vaddr ph) + unat (p_memsz ph) + 8192 \<le> 2 ^ 47"
  shows "unat (segment_pages ph) = (unat (p_vaddr ph) mod 4096 + unat (p_memsz ph) + 4095) div 4096"
proof -
  have m: "unat (p_vaddr ph) mod 4096 < 4096" by simp
  have "unat ((p_vaddr ph AND (PAGE_SIZE - 1)) + p_memsz ph + (PAGE_SIZE - 1)) = unat (p_vaddr ph) mod 4096 + unat (p_memsz ph) + 4095"
    using assms m unat_misalign [of "p_vaddr ph"] by (simp add: unat_word_ariths PAGE_SIZE_def)
  then show ?thesis by (simp add: segment_pages_def unat_div PAGE_SIZE_def)
qed

lemma get_mapping_page: "vpage pm a = vpage pm b \<Longrightarrow> vmm_get_page_mapping pm a s = vmm_get_page_mapping pm b s"
  by (simp only: vmm_get_page_mapping_def vpage_def prod.inject)

text \<open>The page and the frame an address of the segment falls into.\<close>

lemma segment_address:
  fixes v :: u64
  assumes "unat v + 4096 * n \<le> 2 ^ 47" "(unat v mod 4096 + i) div 4096 < n" "f + n < 2 ^ 51"
  defines "j \<equiv> (unat v mod 4096 + i) div 4096"
  shows "vpage pm (v + of_nat i) = vpage pm (v + of_nat j * PAGE_SIZE)"
    "of_nat (f + j) * PAGE_SIZE + ((v + of_nat i) AND (PAGE_SIZE - 1)) = of_nat f * PAGE_SIZE + ((v AND (PAGE_SIZE - 1)) + of_nat i)"
proof -
  have i: "unat v mod 4096 + i = 4096 * j + (unat v mod 4096 + i) mod 4096" "i < 4096 * n"
    unfolding j_def using assms(2) by (simp_all add: div_less_iff_less_mult)
  have u: "unat (v + of_nat i) = unat v + i" using assms(1) i(2) by (simp add: unat_word_ariths unat_of_nat)
  have "(unat v mod 4096 + i + 4096 * (unat v div 4096)) div 4096 = unat v div 4096 + j"
    unfolding j_def by (rule div_mult_self2) simp
  moreover have "unat v mod 4096 + i + 4096 * (unat v div 4096) = unat v + i" by simp
  ultimately have page: "(unat v + i) div 4096 = (unat v + 4096 * j) div 4096" "(unat v + i) mod 4096 = (unat v mod 4096 + i) mod 4096"
    by (simp_all add: mod_add_left_eq)
  note p = page_of_range [OF assms(1) assms(2) [folded j_def]]
  have "v + of_nat i < 2 ^ 48" using u i(2) assms(1) by (simp add: word_less_nat_alt)
  then show "vpage pm (v + of_nat i) = vpage pm (v + of_nat j * PAGE_SIZE)"
    by (subst vpage_page) (use p u page in auto)
  have m: "w AND (PAGE_SIZE - 1) = of_nat (unat w mod 4096)" for w :: u64
    using arg_cong [OF unat_misalign [of w], of "of_nat :: nat \<Rightarrow> u64"] by simp
  have "of_nat (f + j) * PAGE_SIZE + of_nat ((unat v mod 4096 + i) mod 4096) = (of_nat (4096 * f + (4096 * j + (unat v mod 4096 + i) mod 4096)) :: u64)"
    by (simp add: PAGE_SIZE_def algebra_simps)
  also have "\<dots> = of_nat f * PAGE_SIZE + (of_nat (unat v mod 4096) + of_nat i)"
    unfolding i(1) [symmetric] by (simp add: PAGE_SIZE_def algebra_simps)
  finally show "of_nat (f + j) * PAGE_SIZE + ((v + of_nat i) AND (PAGE_SIZE - 1)) = of_nat f * PAGE_SIZE + ((v AND (PAGE_SIZE - 1)) + of_nat i)"
    unfolding m u page(2) .
qed


text \<open>A segment that lies below 128 TB in a file that holds its bytes, with frames for its pages and tables.\<close>

definition loadable :: "elf_program_header \<Rightarrow> pagemap \<Rightarrow> 'a ksys_scheme \<Rightarrow> nat \<Rightarrow> bool" where
  "loadable ph P s node \<longleftrightarrow>
     unat (p_vaddr ph) + unat (p_memsz ph) + 8192 \<le> 2 ^ 47 \<and> 0 < p_memsz ph \<and> p_filesz ph \<le> p_memsz ph \<and>
     map_ok (unat (segment_pages ph) + pm_depth P * unat (segment_pages ph)) P (km s) \<and> (\<forall>v. \<not> large P (km s) v) \<and>
     vn_ops (nodes s node) = TmpfsOps \<and> file_ok s node \<and>
     unat (p_offset ph) + unat (p_filesz ph) \<le> length (file_bytes s node)"

lemma segment_pages_bounds:
  assumes "loadable ph P s node"
  shows "0 < unat (segment_pages ph)" "unat (p_vaddr ph) + 4096 * unat (segment_pages ph) \<le> 2 ^ 47"
    "i < unat (p_memsz ph) \<Longrightarrow> (unat (p_vaddr ph) mod 4096 + i) div 4096 < unat (segment_pages ph)"
    "unat (p_vaddr ph) mod 4096 + unat (p_memsz ph) \<le> 4096 * unat (segment_pages ph)"
proof -
  let ?v = "unat (p_vaddr ph)" and ?s = "unat (p_memsz ph)" and ?n = "unat (segment_pages ph)"
  have l: "?v + ?s + 8192 \<le> 2 ^ 47" "0 < ?s" using assms by (auto simp: loadable_def unat_gt_0)
  have n: "?n = (?v mod 4096 + ?s + 4095) div 4096" using unat_segment_pages [OF l(1)] .
  have m: "?v mod 4096 < 4096" by simp
  have "4096 * ?n \<le> ?v mod 4096 + ?s + 4095" unfolding n by (rule times_div_less_eq_dividend)
  then show "?v + 4096 * ?n \<le> 2 ^ 47" using l m by linarith
  have "?v mod 4096 + ?s + 4095 < 4096 * ?n + 4096"
    unfolding n using dividend_less_div_times [of 4096 "?v mod 4096 + ?s + 4095"] by (simp add: mult.commute)
  then show le: "?v mod 4096 + ?s \<le> 4096 * ?n" by linarith
  then show "0 < ?n" using l(2) by (cases "?n") auto
  show "i < ?s \<Longrightarrow> (?v mod 4096 + i) div 4096 < ?n"
    using le by (simp add: div_less_iff_less_mult mult.commute)
qed

lemma node_read_file:
  assumes "vn_ops (nodes s node) = TmpfsOps" "file_ok s node" "unat off + unat len \<le> length (file_bytes s node)"
  shows "\<exists>r s'. node_read dv node off len 0 s = Some (take (unat len) (drop (unat off) (file_bytes s node)), r, s') \<and> 0 \<le> r \<and>
    (\<exists>nd. s' = s\<lparr>nodes := nd\<rparr>)"
proof -
  obtain md where md: "vn_private (nodes s node) = Some md" "unat (file_size s node) < 2 ^ 62"
    using assms(2) by (auto simp: file_ok_def)
  then have "length (file_bytes s node) < 2 ^ 62" by (simp add: file_bytes_def)
  then have "unat off + unat len < 2 ^ 63" using assms(3) by simp
  from tmpfs_read_lemma [OF assms(2) this] obtain s' where
    r: "tmpfs_read node off len s = Some (take (unat len) (drop (unat off) (file_bytes s node)),
       int (min (unat len) (length (file_bytes s node) - unat off)), s')"
    using assms(3) by auto
  then have "\<exists>nd. s' = s\<lparr>nodes := nd\<rparr>"
    by (auto simp: tmpfs_read_def md(1) Let_def upd_node_def split: if_splits)
  then show ?thesis using r assms(1) by (auto simp: node_read_def)
qed

lemma load_segment_frames:
  assumes l: "loadable ph P s node" and P: "P = pagemaps (km s) pm"
  obtains f k where "in_km (alloc_cleared (segment_pages ph)) s = Some (of_nat f * PAGE_SIZE, s\<lparr>km := k\<rparr>)"
    "0 < f" "f + unat (segment_pages ph) < 2 ^ 51" "map_ok (pm_depth P * (unat (segment_pages ph) + 0)) P k" "P = pagemaps k pm"
    "\<And>v. \<not> large P k v" "\<And>v. vmm_get_page_mapping P v k = vmm_get_page_mapping P v (km s)"
    "\<And>x. unat (x - of_nat f * PAGE_SIZE) < 4096 * unat (segment_pages ph) \<Longrightarrow> bytes k x = 0"
proof -
  let ?n = "segment_pages ph"
  have ok: "map_ok (unat ?n + pm_depth P * unat ?n) P (km s)" using l by (simp add: loadable_def)
  then have "fresh_frames (unat ?n + pm_depth P * unat ?n) (vm_pmm (km s))" by (simp add: map_ok_def)
  then obtain f p m b where a: "alloc_cleared ?n (km s) = Some (of_nat f * PAGE_SIZE, (km s)\<lparr>vm_pmm := p, vm_mem := m, bytes := b\<rparr>)"
      "fresh_frames (pm_depth P * unat ?n) p" "frames_ahead p \<subseteq> frames_ahead (vm_pmm (km s))" "0 < f" "f + unat ?n < 2 ^ 51"
      "\<And>t. t \<notin> frames_ahead (vm_pmm (km s)) \<Longrightarrow> m t = vm_mem (km s) t"
      "\<And>x. unat (x - of_nat f * PAGE_SIZE) < 4096 * unat ?n \<Longrightarrow> b x = 0"
    using alloc_cleared_run [OF _ segment_pages_bounds(1) [OF l]] by metis
  define k where "k = (km s)\<lparr>vm_pmm := p, vm_mem := m, bytes := b\<rparr>"
  have okk: "map_ok (pm_depth P * unat ?n) P k"
    and same: "\<And>q i. path_ok q \<Longrightarrow> length q \<le> pm_depth P \<Longrightarrow> entry_at P k q i = entry_at P (km s) q i"
    using map_ok_outside [OF ok, of k "pm_depth P * unat ?n"] a by (auto simp: k_def)
  have lookup: "vmm_get_page_mapping P v k = vmm_get_page_mapping P v (km s)" "large P k v = large P (km s) v" for v
  proof -
    obtain up i2 i1 where v: "vpage P v = (up, i2, i1)" by (cases "vpage P v") auto
    show "vmm_get_page_mapping P v k = vmm_get_page_mapping P v (km s)"
      by (intro same_lookup [OF ok okk v] same) (use vpage_path [OF v] in auto)
    show "large P k v = large P (km s) v"
      using same [of up i2] vpage_path [OF v] by (simp add: large_def v)
  qed
  show ?thesis
    by (rule that [of f k]) (use a okk lookup l P in \<open>auto simp: k_def in_km_def loadable_def\<close>)
qed

lemma frame_entry_present:
  assumes "g + 1 < 2 ^ 51" "table_flags flags"
  shows "of_nat g * PAGE_SIZE OR flags \<noteq> -1"
proof
  assume "of_nat g * PAGE_SIZE OR flags = -1"
  then have "of_nat g * PAGE_SIZE = table_of (-1)" using table_frame [of g flags] assms by simp
  then have "unat (of_nat g * PAGE_SIZE) = unat (0x7ffffffffffff000 :: u64)" by (simp add: table_of_def PTE_FLAG_MASK_def)
  then show False using assms(1) unat_frame [of g] by simp
qed

lemma same_rest_bytes: "same_rest s s' \<Longrightarrow> bytes s' = bytes s"
  unfolding same_rest_def by (elim ssubst) simp

text \<open>The byte a program sees in a page that is backed by frame \<open>g\<close>.\<close>

lemma user_byte_frame:
  assumes "vmm_get_page_mapping P (v + of_nat j * PAGE_SIZE) k = Some (of_nat g * PAGE_SIZE OR flags)"
    "vpage P w = vpage P (v + of_nat j * PAGE_SIZE)" "g + 1 < 2 ^ 51" "table_flags flags"
  shows "user_byte P w k = Some (bytes k (of_nat g * PAGE_SIZE + (w AND (PAGE_SIZE - 1))))"
  using assms frame_entry_present [OF assms(3,4)] table_frame [of g flags] get_mapping_page [OF assms(2), of k]
  by (simp add: user_byte_def)

lemma segment_byte:
  fixes a :: u64
  assumes "c + unat len \<le> 4096 * n" "n < 2 ^ 51" "i < unat len" "length bs < 2 ^ 64"
    "\<And>x. unat (x - a) < 4096 * n \<Longrightarrow> b x = 0"
  shows "poke (a + of_nat c) bs b (a + (of_nat c + of_nat i)) = (if i < length bs then bs ! i else 0)"
proof -
  have "c + i < 2 ^ 64" "i < 2 ^ 64" using assms(1-3) by auto
  then have "unat (of_nat i :: u64) = i" "unat (of_nat c + of_nat i :: u64) = c + i"
    using unat_of_nat_64 [of i] unat_of_nat_64 [of "c + i"] by simp_all
  then show ?thesis using assms by (simp add: poke_apply)
qed



definition sample_segment :: elf_program_header where
  "sample_segment = \<lparr>p_type = PT_LOAD, p_flags = 5, p_offset = 1, p_vaddr = 0x400ffe, p_filesz = 2, p_memsz = 5\<rparr>"


end
