(* ===== verification/Syscall.thy ===== *)
theory Syscall
  imports Sched Elf
begin

text \<open>
  The system calls on processes, time and the system: \<^verbatim>\<open>kernel/src/sys/syscalls/sc_proc.c\<close>, \<^verbatim>\<open>sc_time.c\<close>, \<^verbatim>\<open>sc_sys.c\<close>, the timer tick of
  \<^verbatim>\<open>kernel/src/sys/time.c\<close>, and the dispatch of all calls in \<^verbatim>\<open>kernel/src/sys/syscall.c\<close>. The CPU's running
  thread is \<open>cpu_thread\<close>. A call either returns to its caller with a value in \<^verbatim>\<open>rax\<close>, or its thread is gone and
  the scheduler runs next. \<open>None\<close> is a panic, a fault, a deadlock, or a machine that is halted or switched off.

  What runs while the caller is suspended is the argument \<open>others\<close>; \<open>hpet_now\<close> and \<open>period\<close> are the HPET's
  counter and clock period; \<open>stk\<close>, \<open>junk\<close>, \<open>pjunk\<close> are old contents of the kernel stack.
\<close>

datatype outcome = Returned u64 ksys | Gone ksys

section \<open>Time\<close>

definition TIMER_FREQUENCY :: int where "TIMER_FREQUENCY = 1000"

text \<open>The fields are 64-bit signed; the sums wrap as the machine's do.\<close>

definition to_long :: "int \<Rightarrow> int" where
  "to_long x = sint (word_of_int x :: u64)"

definition timespec_add :: "timespec \<Rightarrow> timespec \<Rightarrow> timespec" where
  "timespec_add a b =
     (let a = (if to_long (tv_nsec a + tv_nsec b) > 999999999
               then a\<lparr>tv_nsec := to_long (tv_nsec a + tv_nsec b - 1000000000), tv_sec := to_long (tv_sec a + 1)\<rparr>
               else a\<lparr>tv_nsec := to_long (tv_nsec a + tv_nsec b)\<rparr>)
      in a\<lparr>tv_sec := to_long (tv_sec a + tv_sec b)\<rparr>)"

definition timespec_sub :: "timespec \<Rightarrow> timespec \<Rightarrow> timespec" where
  "timespec_sub a b =
     (if tv_nsec b > tv_nsec a \<and> tv_sec a = 0 then zero_timespec
      else
        let a = (if tv_nsec b > tv_nsec a
                 then a\<lparr>tv_nsec := to_long (999999999 - (tv_nsec b - tv_nsec a)), tv_sec := to_long (tv_sec a - 1)\<rparr>
                 else a\<lparr>tv_nsec := to_long (tv_nsec a - tv_nsec b)\<rparr>)
        in if tv_sec b > tv_sec a then zero_timespec else a\<lparr>tv_sec := to_long (tv_sec a - tv_sec b)\<rparr>)"

definition tick :: timespec where
  "tick = \<lparr>tv_sec = 0, tv_nsec = 1000000000 div TIMER_FREQUENCY\<rparr>"

definition time_update_timers :: "ksys \<Rightarrow> ksys" where
  "time_update_timers s =
     (let s = s\<lparr>time_monotonic := timespec_add (time_monotonic s) tick\<rparr>;
          s = s\<lparr>time_realtime := timespec_add (time_realtime s) tick\<rparr>;
          t = cpu_thread s
      in if t = 0 then s
         else
           let s = upd_thread t (\<lambda>th. th\<lparr>t_ticks := timespec_add (t_ticks th) tick\<rparr>) s
           in upd_proc (t_process (threads s t)) (\<lambda>q. q\<lparr>pr_ticks := timespec_add (pr_ticks q) tick\<rparr>) s)"

definition CLOCK_REALTIME :: int where "CLOCK_REALTIME = 0"
definition CLOCK_MONOTONIC :: int where "CLOCK_MONOTONIC = 1"
definition CLOCK_PROCESS_CPUTIME_ID :: int where "CLOCK_PROCESS_CPUTIME_ID = 2"
definition CLOCK_THREAD_CPUTIME_ID :: int where "CLOCK_THREAD_CPUTIME_ID = 3"

definition timespec_of :: "u8 list \<Rightarrow> timespec" where
  "timespec_of bs = \<lparr>tv_sec = to_long (le_value (take 8 bs)), tv_nsec = to_long (le_value (take 8 (drop 8 bs)))\<rparr>"

definition syscall_sleep :: "(ksys \<Rightarrow> ksys option) \<Rightarrow> u64 \<Rightarrow> u32 \<Rightarrow> u64 \<Rightarrow> ksys \<Rightarrow> outcome option" where
  "syscall_sleep others hpet_now period rdi s =
     (case copy_from_user rdi 16 s of
        None \<Rightarrow> Some (Returned (rax (- EFAULT)) s)
      | Some bs \<Rightarrow>
          let d = timespec_of bs in
          if tv_nsec d < 0 \<or> tv_nsec d > 999999999 \<or> tv_sec d < 0 then Some (Returned (rax (- EINVAL)) s)
          else do {
            s \<leftarrow> sched_thread_sleep others hpet_now period (cpu_thread s) (word_of_int (tv_nsec d + tv_sec d * 1000000000)) s;
            Some (Returned 0 s)
          })"

definition syscall_clock_gettime :: "u64 \<Rightarrow> u64 \<Rightarrow> ksys \<Rightarrow> outcome option" where
  "syscall_clock_gettime rdi rsi s =
     (let clk_id = int_arg rdi;
          source = (if clk_id = CLOCK_REALTIME then Some (time_realtime s)
                    else if clk_id = CLOCK_MONOTONIC then Some (time_monotonic s)
                    else if clk_id = CLOCK_PROCESS_CPUTIME_ID then Some (pr_ticks (procs s (running s)))
                    else if clk_id = CLOCK_THREAD_CPUTIME_ID then Some (t_ticks (threads s (cpu_thread s)))
                    else None)
      in case source of
           None \<Rightarrow> Some (Returned (rax (- EINVAL)) s)
         | Some ts \<Rightarrow>
             let (ok, s) = copy_to_user rsi (timespec_bytes ts) s
             in Some (Returned (if ok then 0 else rax (- EFAULT)) s))"

definition syscall_clock_settime :: "u64 \<Rightarrow> u64 \<Rightarrow> ksys \<Rightarrow> outcome option" where
  "syscall_clock_settime rdi rsi s =
     (let clk_id = int_arg rdi in
      if clk_id = CLOCK_REALTIME then
        (case copy_from_user rsi 16 s of
           None \<Rightarrow> Some (Returned (rax (- EFAULT)) s)
         | Some bs \<Rightarrow> Some (Returned 0 (s\<lparr>time_realtime := timespec_of bs\<rparr>)))
      else if clk_id = CLOCK_MONOTONIC \<or> clk_id = CLOCK_PROCESS_CPUTIME_ID \<or> clk_id = CLOCK_THREAD_CPUTIME_ID
      then Some (Returned (rax (- EPERM)) s)
      else Some (Returned (rax (- EINVAL)) s))"

section \<open>The system\<close>

text \<open>\<^verbatim>\<open>CONFIG_VERSION\<close> is set by the build.\<close>

definition field_bytes :: "nat \<Rightarrow> cstring \<Rightarrow> u8 list" where
  "field_bytes n name = take n (name @ replicate n 0)"

definition system_utsname :: "cstring \<Rightarrow> u8 list" where
  "system_utsname git_version =
     field_bytes 64 (lit ''PiggyOS'') @ field_bytes 100 (lit ''piggy'') @ field_bytes 64 (lit ''0.0.1'') @
     field_bytes 64 git_version @ field_bytes 64 (lit ''x86_64'')"

definition syscall_utsname :: "cstring \<Rightarrow> u64 \<Rightarrow> ksys \<Rightarrow> outcome option" where
  "syscall_utsname git_version rdi s =
     (let (ok, s) = copy_to_user rdi (system_utsname git_version) s
      in Some (Returned (if ok then 0 else rax (- EFAULT)) s))"

definition SYSACT_MAGIC1 :: u64 where "SYSACT_MAGIC1 = 0xffbe6384abc6103b"
definition SYSACT_MAGIC2 :: u64 where "SYSACT_MAGIC2 = 0xbec81abcf0998367"
definition SYSACT_MAGIC3 :: u64 where "SYSACT_MAGIC3 = 0x9187ba8c7983f198"
definition SYSACT_HALT :: int where "SYSACT_HALT = 0"
definition SYSACT_REBOOT :: int where "SYSACT_REBOOT = 1"
definition SYSACT_SHUTDOWN :: int where "SYSACT_SHUTDOWN = 2"

definition syscall_sysact :: "u64 \<Rightarrow> u64 \<Rightarrow> u64 \<Rightarrow> u64 \<Rightarrow> ksys \<Rightarrow> outcome option" where
  "syscall_sysact rdi rsi rdx r10 s =
     (if rdi \<noteq> SYSACT_MAGIC1 \<or> rsi \<noteq> SYSACT_MAGIC2 \<or> rdx \<noteq> SYSACT_MAGIC3 then Some (Returned (rax (- EPERM)) s)
      else if int_arg r10 = SYSACT_HALT \<or> int_arg r10 = SYSACT_REBOOT \<or> int_arg r10 = SYSACT_SHUTDOWN then None
      else Some (Returned (rax (- EINVAL)) s))"

section \<open>Processes\<close>

definition leave_cpu :: "ksys \<Rightarrow> ksys" where
  "leave_cpu s = s\<lparr>cpu_thread := 0, running := 0\<rparr>"

definition syscall_exit :: "u64 \<Rightarrow> ksys \<Rightarrow> outcome option" where
  "syscall_exit rdi s = do {
     s \<leftarrow> process_exit (running s) (int_arg rdi) s;
     Some (Gone (leave_cpu s))
   }"

definition syscall_fork :: "ksys \<Rightarrow> outcome option" where
  "syscall_fork s = do {
     let current = cpu_thread s;
     (new_process, s) \<leftarrow> process_create (running s) 0 s;
     if new_process = 0 then Some (Returned (rax (- ENOMEM)) s)
     else do {
       (new_thread, s) \<leftarrow> thread_fork new_process current s;
       if new_thread = 0 then Some (Returned (rax (- ENOMEM)) s)
       else do {
         let pid = rax (pr_pid (procs s new_process));
         s \<leftarrow> sched_thread_enqueue new_thread s;
         Some (Returned pid s)
       }
     }
   }"

text \<open>\<^verbatim>\<open>syscall_exec\<close>: the pointers of an argument array up to the null pointer are checked one by one (the
  first one twice), and the strings are read when the stack of the new thread is built.\<close>

partial_function (option) check_pointers :: "ksys \<Rightarrow> u64 \<Rightarrow> u64 \<Rightarrow> bool option" where
  [code]: "check_pointers s ptr iter =
     (if iter = 0 then Some True
      else if \<not> check_user_ptr iter s then Some False
      else check_pointers s (ptr + 8) (load_word (umem s) ptr))"

partial_function (option) user_strings :: "(u64 \<Rightarrow> u8) \<Rightarrow> u64 \<Rightarrow> cstring list option" where
  [code]: "user_strings m a =
     (if load_word m a = 0 then Some []
      else Option.bind (user_str m (load_word m a)) (\<lambda>x. Option.bind (user_strings m (a + 8)) (\<lambda>xs. Some (x # xs))))"

definition exec_failed :: "u64 \<Rightarrow> u64 \<Rightarrow> int \<Rightarrow> ksys \<Rightarrow> outcome option" where
  "exec_failed old_pagemap new_pagemap ret s =
     (if pr_pagemap (procs s (running s)) = old_pagemap then
        if new_pagemap \<noteq> 0 then do {
          s \<leftarrow> run_km (vmm_destroy_pagemap new_pagemap) s;
          Some (Returned (rax ret) s)
        } else Some (Returned (rax ret) s)
      else do {
        s \<leftarrow> process_exit (running s) (- 1) s;
        Some (Returned (rax ret) s)
      })"

fun close_on_exec :: "nat \<Rightarrow> nat list \<Rightarrow> ksys \<Rightarrow> (int \<times> ksys) option" where
  "close_on_exec p [] s = Some (0, s)"
| "close_on_exec p (i # is) s =
     (let fd = pr_fds (procs s p) ! i in
      if fd \<noteq> 0 \<and> fd_flags (fds s fd) AND O_CLOEXEC \<noteq> 0 then do {
        (ret, s) \<leftarrow> fd_close p (int i) s;
        if ret < 0 then Some (ret, s) else close_on_exec p is s
      } else close_on_exec p is s)"

definition NAME_SIZE :: nat where "NAME_SIZE = 256"

text \<open>The part after the program was loaded: the process drops its old threads and gets a new one.\<close>

definition exec_switch :: "u64 \<Rightarrow> u64 \<Rightarrow> u64 \<Rightarrow> u64 \<Rightarrow> u64 \<Rightarrow> nat \<Rightarrow> ksys \<Rightarrow> outcome option" where
  "exec_switch entry argv envp old_pagemap new_pagemap node s = do {
     let p = running s;
     let s = upd_proc p (\<lambda>q. q\<lparr>pr_pagemap := new_pagemap, pr_code_base := entry, pr_brk := PROCESS_BRK_BASE,
               pr_brk_next := PROCESS_BRK_BASE, pr_thread_stack_top := PROCESS_THREAD_STACK_TOP\<rparr>) s;
     (ret, s) \<leftarrow> close_on_exec p [0..<MAX_FDS] s;
     if ret < 0 then exec_failed old_pagemap new_pagemap ret s
     else do {
       v \<leftarrow> pr_threads (procs s p);
       s \<leftarrow> each (\<lambda>i. sched_thread_dequeue (unat (v_data v i))) [0..<v_size v] s;
       let (v, s) = new_vector s;
       let s = upd_proc p (\<lambda>q. q\<lparr>pr_threads := v\<rparr>) s;
       if v = None then exec_failed old_pagemap new_pagemap (- ENOMEM) s
       else do {
         args \<leftarrow> user_strings (umem s) argv;
         env \<leftarrow> user_strings (umem s) envp;
         (t, s) \<leftarrow> thread_create p entry 0 (Some (args, env)) True s;
         if t = 0 then exec_failed old_pagemap new_pagemap (- ENOMEM) s
         else do {
           s \<leftarrow> sched_thread_enqueue t s;
           let old_name = pr_name (procs s p);
           (_, buf) \<leftarrow> vfs_get_pathname s node (\<lambda>i. if i < length old_name then old_name ! i else 0) (of_nat (NAME_SIZE - 1));
           let s = upd_proc p (\<lambda>q. q\<lparr>pr_name := takeWhile (\<lambda>c. c \<noteq> 0) (map buf [0..<NAME_SIZE])\<rparr>) s;
           let s = switch_pagemap (kernel_pagemap (km s)) s;
           s \<leftarrow> run_km (vmm_destroy_pagemap old_pagemap) s;
           Some (Gone (leave_cpu s))
         }
       }
     }
   }"

definition syscall_exec ::
    "(nat \<Rightarrow> ksys device) \<Rightarrow> (nat \<Rightarrow> u8) \<Rightarrow> (nat \<Rightarrow> u8) \<Rightarrow> u64 \<Rightarrow> u64 \<Rightarrow> u64 \<Rightarrow> ksys \<Rightarrow> outcome option" where
  "syscall_exec dv junk pjunk path argv envp s = do {
     let p = running s;
     let old_pagemap = pr_pagemap (procs s p);
     (new_pagemap, s) \<leftarrow> in_km (vmm_new_pagemap (la57 s)) s;
     let failed = exec_failed old_pagemap new_pagemap;
     if new_pagemap = 0 then failed (- ENOMEM) s
     else if \<not> check_user_ptr path s \<or> \<not> check_user_ptr argv s \<or> \<not> check_user_ptr envp s then failed (- EFAULT) s
     else do {
       ok \<leftarrow> check_pointers s argv (load_word (umem s) argv);
       if \<not> ok then failed (- EFAULT) s
       else do {
         ok \<leftarrow> check_pointers s envp (load_word (umem s) envp);
         if \<not> ok then failed (- EFAULT) s
         else do {
           name \<leftarrow> user_str (umem s) path;
           node \<leftarrow> vfs_get_node s (pr_cwd (procs s p)) name;
           if node = 0 then failed (- ENOENT) s
           else if \<not> S_ISREG (st_mode_of node s) then failed (- ENOEXEC) s
           else do {
             (ret, entry, s) \<leftarrow> elf_load dv junk pjunk node new_pagemap s;
             case entry of
               None \<Rightarrow> failed ret s
             | Some entry \<Rightarrow> exec_switch entry argv envp old_pagemap new_pagemap node s
           }
         }
       }
     }
   }"

definition syscall_wait :: "(ksys \<Rightarrow> ksys option) \<Rightarrow> u64 \<Rightarrow> u64 \<Rightarrow> u64 \<Rightarrow> ksys \<Rightarrow> outcome option" where
  "syscall_wait others rdi rsi rdx s =
     (if rsi \<noteq> 0 \<and> \<not> check_user_ptr rsi s then Some (Returned (rax (- EFAULT)) s)
      else do {
        (r, s) \<leftarrow> process_wait others (running s) (int_arg rdi) rsi (ucast rdx) s;
        Some (Returned (rax r) s)
      })"

text \<open>\<^verbatim>\<open>syscall_yield\<close> leaves \<^verbatim>\<open>rax\<close>, the number of the call, as it is.\<close>

definition syscall_yield :: "(ksys \<Rightarrow> ksys option) \<Rightarrow> u64 \<Rightarrow> ksys \<Rightarrow> outcome option" where
  "syscall_yield others number s = do { s \<leftarrow> others s; Some (Returned number s) }"

definition syscall_getpid :: "ksys \<Rightarrow> outcome option" where
  "syscall_getpid s = Some (Returned (rax (pr_pid (procs s (running s)))) s)"

definition syscall_getppid :: "ksys \<Rightarrow> outcome option" where
  "syscall_getppid s =
     (let parent = pr_parent (procs s (running s))
      in Some (Returned (rax (if parent \<noteq> 0 then pr_pid (procs s parent) else 0)) s))"

definition syscall_gettid :: "ksys \<Rightarrow> outcome option" where
  "syscall_gettid s = Some (Returned (rax (t_tid (threads s (cpu_thread s)))) s)"

definition syscall_thread_create :: "u64 \<Rightarrow> ksys \<Rightarrow> outcome option" where
  "syscall_thread_create entry s =
     (if \<not> check_user_ptr entry s then Some (Returned (rax (- EFAULT)) s)
      else do {
        (t, s) \<leftarrow> thread_create (running s) entry 0 None True s;
        s \<leftarrow> sched_thread_enqueue t s;
        if t = 0 then None else Some (Returned (rax (t_tid (threads s t))) s)
      })"

definition syscall_thread_exit :: "ksys \<Rightarrow> outcome option" where
  "syscall_thread_exit s = do { s \<leftarrow> sched_thread_dequeue (cpu_thread s) s; Some (Gone s) }"

definition syscall_sbrk :: "u64 \<Rightarrow> ksys \<Rightarrow> outcome option" where
  "syscall_sbrk rdi s = do { (r, s) \<leftarrow> process_sbrk (running s) rdi s; Some (Returned r s) }"

section \<open>Dispatch\<close>

text \<open>What the calls depend on besides the state.\<close>

record senv =
  se_others :: "ksys \<Rightarrow> ksys option"
  se_devices :: "nat \<Rightarrow> ksys device"
  se_stack :: mem
  se_junk :: "nat \<Rightarrow> u8"
  se_pjunk :: "nat \<Rightarrow> u8"
  se_hpet_now :: u64
  se_hpet_period :: u32
  se_version :: cstring

definition SYSCALLS :: u64 where "SYSCALLS = 30"

definition file_call :: "senv \<Rightarrow> registers \<Rightarrow> ksys \<Rightarrow> outcome option" where
  "file_call env r s = do {
     (v, s) \<leftarrow> file_syscall (se_devices env) (se_stack env) (r_rax r) (r_rdi r) (r_rsi r) (r_rdx r) s;
     Some (Returned v s)
   }"

definition syscall_table :: "senv \<Rightarrow> registers \<Rightarrow> ksys \<Rightarrow> outcome option" where
  "syscall_table env r s =
     (let n = r_rax r; rdi = r_rdi r; rsi = r_rsi r; rdx = r_rdx r in
      if n = 0 then syscall_exit rdi s
      else if n = 1 then syscall_fork s
      else if n = 2 then syscall_exec (se_devices env) (se_junk env) (se_pjunk env) rdi rsi rdx s
      else if n = 3 then syscall_wait (se_others env) rdi rsi rdx s
      else if n = 4 then syscall_yield (se_others env) n s
      else if n = 5 then syscall_getpid s
      else if n = 6 then syscall_getppid s
      else if n = 7 then syscall_gettid s
      else if n = 8 then syscall_thread_create rdi s
      else if n = 9 then syscall_thread_exit s
      else if n = 10 then syscall_sbrk rdi s
      else if n = 25 then syscall_utsname (se_version env) rdi s
      else if n = 26 then syscall_sysact rdi rsi rdx (r_r10 r) s
      else if n = 27 then syscall_sleep (se_others env) (se_hpet_now env) (se_hpet_period env) rdi s
      else if n = 28 then syscall_clock_gettime rdi rsi s
      else if n = 29 then syscall_clock_settime rdi rsi s
      else file_call env r s)"

definition save_caller :: "registers \<Rightarrow> ksys \<Rightarrow> ksys" where
  "save_caller r s = upd_thread (cpu_thread s) (\<lambda>th. th\<lparr>t_ctx := r, t_user_stack := cpu_user_stack s\<rparr>) s"

definition syscall_handler :: "senv \<Rightarrow> registers \<Rightarrow> ksys \<Rightarrow> outcome option" where
  "syscall_handler env r s =
     (if SYSCALLS \<le> r_rax r then Some (Returned (rax (- ENOSYS)) s)
      else syscall_table env r (save_caller r s))"

end
