(* ===== verification/Fork.thy ===== *)
theory Fork
  imports Syscall
begin

text \<open>
  What a fork does, through all the layers it goes through: the descriptors of the parent are duplicated, the new process
  is entered in the tables, its thread gets the caller's registers and is queued.
\<close>

section \<open>Duplicating descriptors\<close>

definition same_file :: "file_descriptor \<Rightarrow> file_descriptor \<Rightarrow> bool" where
  "same_file f g \<longleftrightarrow> fd_node f = fd_node g \<and> fd_flags f = fd_flags g \<and> fd_offset f = fd_offset g"

lemma same_file_refl [simp]: "same_file f f" "same_file (f\<lparr>fd_refcount := n\<rparr>) f"
  by (simp_all add: same_file_def)

lemma same_file_trans: "same_file f g \<Longrightarrow> same_file g h \<Longrightarrow> same_file f h"
  by (simp add: same_file_def)

lemma fd_dup_exact:
  assumes "old \<noteq> new" "pr_fd_lock (procs s old) = 0" "i < MAX_FDS" "fd = pr_fds (procs s old) ! i" "fd \<noteq> 0"
    "0 < mem_left s" "pr_fds (procs s new) ! i = 0" "fd \<noteq> next_fd s"
  shows "fd_dup old (int i) new (int i) True False s = Some (int i, s\<lparr>mem_left := mem_left s - 1, next_fd := Suc (next_fd s),
      fds := (fds s)(next_fd s := (fds s fd)\<lparr>fd_refcount := fd_refcount (fds s fd) + 1\<rparr>,
        fd := (fds s fd)\<lparr>fd_refcount := fd_refcount (fds s fd) + 1 + 1\<rparr>),
      procs := (procs s)(new := (procs s new)\<lparr>pr_fds := (pr_fds (procs s new))[i := next_fd s]\<rparr>)\<rparr>)"
  using assms
  by (simp add: fd_dup_def fd_from_fdnum_eq fd_slot_def fd_hold_def take_mem_def fd_dup_store_def upd_proc_def upd_fd_def
      Let_def fun_upd_twist)

text \<open>The slots of \<open>is\<close> are copied, and nothing else of the state changes but the descriptor store and the memory budget.\<close>

definition copied_fds :: "nat list \<Rightarrow> process \<Rightarrow> nat list \<Rightarrow> nat list \<Rightarrow> nat \<Rightarrow> nat \<Rightarrow>
    (nat \<Rightarrow> file_descriptor) \<Rightarrow> (nat \<Rightarrow> file_descriptor) \<Rightarrow> bool" where
  "copied_fds is q L L' n n' F F' \<longleftrightarrow> n \<le> n' \<and> length L' = length L \<and> (\<forall>k<n. same_file (F' k) (F k)) \<and>
     (\<forall>i. i \<notin> set is \<longrightarrow> L' ! i = L ! i) \<and>
     (\<forall>i\<in>set is. if pr_fds q ! i = 0 then L' ! i = 0
        else n \<le> L' ! i \<and> L' ! i < n' \<and> same_file (F' (L' ! i)) (F (pr_fds q ! i)))"

lemma dup_fds_copies:
  assumes "old \<noteq> new" "pr_fd_lock (procs s old) = 0" "\<And>i. i \<in> set is \<Longrightarrow> pr_fds (procs s old) ! i < next_fd s"
    "distinct is" "\<And>i. i \<in> set is \<Longrightarrow> i < MAX_FDS \<and> pr_fds (procs s new) ! i = 0" "length (pr_fds (procs s new)) = MAX_FDS"
    "length is \<le> mem_left s"
  shows "\<exists>m' n' F' L'. dup_fds old new is s = Some (True, s\<lparr>mem_left := m', next_fd := n', fds := F',
      procs := (procs s)(new := (procs s new)\<lparr>pr_fds := L'\<rparr>)\<rparr>) \<and> mem_left s \<le> m' + length is \<and>
    copied_fds is (procs s old) (pr_fds (procs s new)) L' (next_fd s) n' (fds s) F'"
  using assms
proof (induction "is" arbitrary: s)
  case Nil
  have "s\<lparr>mem_left := mem_left s, next_fd := next_fd s, fds := fds s,
      procs := (procs s)(new := (procs s new)\<lparr>pr_fds := pr_fds (procs s new)\<rparr>)\<rparr> = s"
    unfolding process.surjective [of "procs s new", symmetric] by simp
  moreover have "copied_fds [] (procs s old) (pr_fds (procs s new)) (pr_fds (procs s new)) (next_fd s) (next_fd s) (fds s) (fds s)"
    by (simp add: copied_fds_def)
  ultimately show ?case by (metis dup_fds.simps(1) le_add1)
next
  case (Cons i "is")
  let ?fd = "pr_fds (procs s old) ! i"
  show ?case
  proof (cases "?fd = 0")
    case True
    have "\<exists>m' n' F' L'. dup_fds old new is s = Some (True, s\<lparr>mem_left := m', next_fd := n', fds := F',
        procs := (procs s)(new := (procs s new)\<lparr>pr_fds := L'\<rparr>)\<rparr>) \<and> mem_left s \<le> m' + length is \<and>
      copied_fds is (procs s old) (pr_fds (procs s new)) L' (next_fd s) n' (fds s) F'"
      using Cons.prems by (intro Cons.IH) auto
    then obtain m' n' F' L' where ih: "dup_fds old new is s = Some (True, s\<lparr>mem_left := m', next_fd := n', fds := F',
        procs := (procs s)(new := (procs s new)\<lparr>pr_fds := L'\<rparr>)\<rparr>)" "mem_left s \<le> m' + length is"
      "copied_fds is (procs s old) (pr_fds (procs s new)) L' (next_fd s) n' (fds s) F'" by blast
    have "copied_fds (i # is) (procs s old) (pr_fds (procs s new)) L' (next_fd s) n' (fds s) F'"
      using ih(3) True Cons.prems(4,5) by (auto simp: copied_fds_def)
    moreover have "mem_left s \<le> m' + length (i # is)" "dup_fds old new (i # is) s = dup_fds old new is s" using ih(2) True by simp_all
    ultimately show ?thesis using ih(1) by metis
  next
    case False
    let ?F = "(fds s)(next_fd s := (fds s ?fd)\<lparr>fd_refcount := fd_refcount (fds s ?fd) + 1\<rparr>,
        ?fd := (fds s ?fd)\<lparr>fd_refcount := fd_refcount (fds s ?fd) + 1 + 1\<rparr>)"
    let ?L = "(pr_fds (procs s new))[i := next_fd s]"
    let ?s = "s\<lparr>mem_left := mem_left s - 1, next_fd := Suc (next_fd s), fds := ?F,
        procs := (procs s)(new := (procs s new)\<lparr>pr_fds := ?L\<rparr>)\<rparr>"
    have lt: "?fd < next_fd s" using Cons.prems(3) by simp
    have dup: "fd_dup old (int i) new (int i) True False s = Some (int i, ?s)"
      by (rule fd_dup_exact [OF Cons.prems(1,2) _ refl False _ _ less_imp_neq [OF lt]]) (use Cons.prems in auto)
    have "\<exists>m' n' F' L'. dup_fds old new is ?s = Some (True, ?s\<lparr>mem_left := m', next_fd := n', fds := F',
        procs := (procs ?s)(new := (procs ?s new)\<lparr>pr_fds := L'\<rparr>)\<rparr>) \<and> mem_left ?s \<le> m' + length is \<and>
      copied_fds is (procs ?s old) (pr_fds (procs ?s new)) L' (next_fd ?s) n' (fds ?s) F'"
      using Cons.prems by (intro Cons.IH) (auto simp: less_SucI nth_list_update)
    then obtain m' n' F' L' where ih: "dup_fds old new is ?s = Some (True, ?s\<lparr>mem_left := m', next_fd := n', fds := F',
        procs := (procs ?s)(new := (procs ?s new)\<lparr>pr_fds := L'\<rparr>)\<rparr>)" "mem_left ?s \<le> m' + length is"
      "copied_fds is (procs s old) ?L L' (Suc (next_fd s)) n' ?F F'" using Cons.prems(1) by auto
    have old: "same_file (?F k) (fds s k)" if "k < next_fd s" for k using that by auto
    have F': "same_file (F' k) (?F k)" if "k < Suc (next_fd s)" for k using ih(3) that unfolding copied_fds_def by blast
    have keep: "same_file (F' k) (fds s k)" if "k < next_fd s" for k
      using same_file_trans [OF F' old] that by simp
    have L'i: "L' ! i = next_fd s" using ih(3) Cons.prems(4-6) by (simp add: copied_fds_def)
    have "same_file (?F (next_fd s)) (fds s ?fd)" using lt by auto
    then have here: "L' ! i = next_fd s" "same_file (F' (next_fd s)) (fds s ?fd)"
      using L'i same_file_trans [OF F'] by blast+
    have others: "next_fd s \<le> L' ! j \<and> L' ! j < n' \<and> same_file (F' (L' ! j)) (fds s (pr_fds (procs s old) ! j))"
      if j: "j \<in> set is" "pr_fds (procs s old) ! j \<noteq> 0" for j
    proof -
      have "same_file (?F (pr_fds (procs s old) ! j)) (fds s (pr_fds (procs s old) ! j))"
        using Cons.prems(3) [of j] j(1) by (intro old) simp
      moreover have "Suc (next_fd s) \<le> L' ! j" "L' ! j < n'" "same_file (F' (L' ! j)) (?F (pr_fds (procs s old) ! j))"
        using ih(3) j unfolding copied_fds_def by auto
      ultimately show ?thesis using same_file_trans by auto
    qed
    have "copied_fds (i # is) (procs s old) (pr_fds (procs s new)) L' (next_fd s) n' (fds s) F'"
      using ih(3) here keep others False Cons.prems(4) unfolding copied_fds_def by auto
    moreover have "dup_fds old new (i # is) s = Some (True, s\<lparr>mem_left := m', next_fd := n', fds := F',
        procs := (procs s)(new := (procs s new)\<lparr>pr_fds := L'\<rparr>)\<rparr>)"
      using ih(1) False dup by simp
    moreover have "mem_left s \<le> m' + length (i # is)" using ih(2) by simp
    ultimately show ?thesis by blast
  qed
qed

section \<open>The new process\<close>

text \<open>The child as \<^verbatim>\<open>process_create\<close> leaves it: the fields it takes over from the parent, and empty vectors.\<close>

definition forked :: "process \<Rightarrow> nat \<Rightarrow> u64 \<Rightarrow> nat list \<Rightarrow> (nat \<Rightarrow> u64) \<Rightarrow> int \<Rightarrow> process" where
  "forked q parent pm L old_slots pid = zero_process\<lparr>pr_pid := pid, pr_name := pr_name q, pr_pagemap := pm,
     pr_thread_stack_top := pr_thread_stack_top q, pr_brk := pr_brk q, pr_cwd := pr_cwd q, pr_fds := L, pr_parent := parent,
     pr_children := Some (vector_create SIZEOF_PTR old_slots), pr_threads := Some (vector_create SIZEOF_PTR old_slots)\<rparr>"

lemma new_vector_room:
  "2 \<le> mem_left s \<Longrightarrow> new_vector s = (Some (vector_create SIZEOF_PTR (stale_slots s)), s\<lparr>mem_left := mem_left s - 2\<rparr>)"
  by (simp add: new_vector_def take_mem_def numeral_2_eq_2)

lemma process_create_fork:
  fixes s :: ksys
  assumes "0 < p" "p < next_proc s" "process_list_lock s = 0" "table_ok (next_fd s) (procs s p)" "37 \<le> mem_left s"
    "vmm_fork_pagemap (la57 s) (pr_pagemap (procs s p)) (km s) = Some (pm, k)" "pm \<noteq> 0" "0 < next_fd s"
  shows "\<exists>m' n' F' L'. process_create p 0 s = Some (next_proc s, s\<lparr>next_proc := Suc (next_proc s), km := k, mem_left := m',
      next_fd := n', fds := F',
      procs := (procs s)(next_proc s := forked (procs s p) p pm L' (stale_slots s) (next_pid s),
        p := (procs s p)\<lparr>pr_children := push (pr_children (procs s p)) (next_proc s) s\<rparr>),
      next_pid := sint (word_of_int (next_pid s + 1) :: u32),
      running_processes := push (running_processes s) (next_proc s) s, process_list_lock := 0\<rparr>) \<and>
    mem_left s \<le> m' + 37 \<and> copied_fds [0..<MAX_FDS] (procs s p) (replicate MAX_FDS 0) L' (next_fd s) n' (fds s) F'"
proof -
  let ?c = "next_proc s"
  let ?q = "(forked (procs s p) p pm (replicate MAX_FDS 0) (stale_slots s) 0)"
  let ?s = "s\<lparr>next_proc := Suc ?c, mem_left := mem_left s - Suc (Suc (Suc (Suc (Suc 0)))), km := k, procs := (procs s)(?c := ?q)\<rparr>"
  have "\<exists>m' n' F' L'. dup_fds p ?c [0..<MAX_FDS] ?s = Some (True, ?s\<lparr>mem_left := m', next_fd := n', fds := F',
      procs := (procs ?s)(?c := (procs ?s ?c)\<lparr>pr_fds := L'\<rparr>)\<rparr>) \<and> mem_left ?s \<le> m' + length [0..<MAX_FDS] \<and>
    copied_fds [0..<MAX_FDS] (procs ?s p) (pr_fds (procs ?s ?c)) L' (next_fd ?s) n' (fds ?s) F'"
    using assms(2,4,5) by (intro dup_fds_copies) (auto simp: table_ok_def forked_def zero_process_def MAX_FDS_def)
  then obtain m' n' F' L' where dup: "dup_fds p ?c [0..<MAX_FDS] ?s = Some (True, ?s\<lparr>mem_left := m', next_fd := n', fds := F',
      procs := (procs s)(?c := ?q\<lparr>pr_fds := L'\<rparr>)\<rparr>)" "mem_left s \<le> m' + 37"
    "copied_fds [0..<MAX_FDS] (procs s p) (replicate MAX_FDS 0) L' (next_fd s) n' (fds s) F'"
    using assms(2) by (auto simp: forked_def zero_process_def MAX_FDS_def)
  have create: "process_create p 0 s = register_process ?c (upd_proc p (\<lambda>q. q\<lparr>pr_children := push (pr_children q) ?c s\<rparr>)
      (?s\<lparr>mem_left := m', next_fd := n', fds := F', procs := (procs s)(?c := ?q\<lparr>pr_fds := L'\<rparr>)\<rparr>))"
    using dup(1) assms
    by (simp add: process_create_def take_mem_def new_vector_room in_km_def upd_proc_def forked_def push_def zero_process_def Let_def
        del: dup_fds.simps upt_rec_numeral)
  show ?thesis
    using assms(2,3) dup(2,3) unfolding create
    by (intro exI conjI) (auto simp: register_process_def upd_proc_def forked_def push_def zero_process_def fun_upd_twist)
qed

section \<open>The new thread\<close>

lemma unat_STACK_PAGES: "unat STACK_PAGES = 64"
  by (simp add: STACK_PAGES_def STACK_SIZE_def PAGE_SIZE_def)

text \<open>The three allocations of \<^verbatim>\<open>thread_fork\<close> succeed while there are fresh frames.\<close>

lemma three_allocs:
  assumes "fresh_frames (64 + (64 + unat n)) (vm_pmm k)" "0 < unat n"
  obtains a1 p1 a2 p2 a3 p3 where
    "alloc_frames STACK_PAGES k = Some (a1, k\<lparr>vm_pmm := p1\<rparr>)" "a1 \<noteq> 0"
    "alloc_frames STACK_PAGES (k\<lparr>vm_pmm := p1\<rparr>) = Some (a2, k\<lparr>vm_pmm := p2\<rparr>)" "a2 \<noteq> 0"
    "alloc_frames n (k\<lparr>vm_pmm := p2\<rparr>) = Some (a3, k\<lparr>vm_pmm := p3\<rparr>)" "a3 \<noteq> 0"
proof -
  have f: "fresh_frames (unat STACK_PAGES + (64 + unat n)) (vm_pmm k)" and S: "0 < unat STACK_PAGES"
    using assms(1) by (simp_all add: unat_STACK_PAGES)
  obtain a1 p1 where 1: "alloc_frames STACK_PAGES k = Some (a1, k\<lparr>vm_pmm := p1\<rparr>)" "fresh_frames (64 + unat n) p1" "a1 \<noteq> 0"
    using alloc_frames_run [OF f S] by blast
  have f: "fresh_frames (unat STACK_PAGES + unat n) (vm_pmm (k\<lparr>vm_pmm := p1\<rparr>))"
    using 1(2) by (simp add: unat_STACK_PAGES)
  obtain a2 p2 where 2: "alloc_frames STACK_PAGES (k\<lparr>vm_pmm := p1\<rparr>) = Some (a2, k\<lparr>vm_pmm := p1\<rparr>\<lparr>vm_pmm := p2\<rparr>)"
      "fresh_frames (unat n) p2" "a2 \<noteq> 0"
    using alloc_frames_run [OF f S] by blast
  have f: "fresh_frames (unat n + 0) (vm_pmm (k\<lparr>vm_pmm := p2\<rparr>))" using 2(2) by simp
  obtain a3 p3 where 3: "alloc_frames n (k\<lparr>vm_pmm := p2\<rparr>) = Some (a3, k\<lparr>vm_pmm := p2\<rparr>\<lparr>vm_pmm := p3\<rparr>)" "a3 \<noteq> 0"
    using alloc_frames_run [OF f assms(2)] by blast
  show thesis using that [OF 1(1,3)] 2(1,3) 3 by simp
qed

lemma thread_fork_ok:
  fixes s :: ksys
  assumes "0 < next_thread s" "0 < mem_left s" "old \<noteq> next_thread s" "pr_threads (procs s c) = Some v"
    "fresh_frames (64 + (64 + unat (fpu_pages s))) (vm_pmm (km s))" "0 < unat (fpu_pages s)"
  shows "\<exists>k' th. thread_fork c old s = Some (next_thread s, s\<lparr>mem_left := mem_left s - 1, next_thread := Suc (next_thread s),
      km := k', threads := (threads s)(next_thread s := th),
      procs := (procs s)(c := (procs s c)\<lparr>pr_threads := push (Some v) (next_thread s) s\<rparr>)\<rparr>) \<and>
    t_process th = c \<and> t_ctx th = (t_ctx (threads s old))\<lparr>r_rax := 0\<rparr> \<and> t_state th = THREAD_READY_TO_RUN \<and>
    t_lock th = 0 \<and> t_next th = 0 \<and> t_user_stack th = t_user_stack (threads s old)"
proof -
  obtain a1 p1 a2 p2 a3 p3 where a:
    "alloc_frames STACK_PAGES (km s) = Some (a1, (km s)\<lparr>vm_pmm := p1\<rparr>)" "a1 \<noteq> 0"
    "alloc_frames STACK_PAGES ((km s)\<lparr>vm_pmm := p1\<rparr>) = Some (a2, (km s)\<lparr>vm_pmm := p2\<rparr>)" "a2 \<noteq> 0"
    "alloc_frames (fpu_pages s) ((km s)\<lparr>vm_pmm := p2\<rparr>) = Some (a3, (km s)\<lparr>vm_pmm := p3\<rparr>)" "a3 \<noteq> 0"
    by (rule three_allocs [OF assms(5,6)])
  let ?o = "threads s old"
  let ?th = "\<lparr>t_tid = int (v_size v), t_state = THREAD_READY_TO_RUN, t_process = c, t_is_user = False, t_lock = 0,
      t_timeslice = t_timeslice ?o, t_sleep_until = 0, t_ticks = zero_timespec, t_kernel_stack = a1 + STACK_SIZE + high_vma s,
      t_page_fault_stack = a2 + STACK_SIZE + high_vma s, t_user_stack = t_user_stack ?o, t_user_stack_paddr = 0,
      t_ctx = (t_ctx ?o)\<lparr>r_rax := 0\<rparr>, t_fpu_storage = a3 + high_vma s, t_fs_base = t_fs_base ?o, t_gs_base = t_gs_base ?o,
      t_next = 0\<rparr>"
  let ?k = "(km s)\<lparr>vm_pmm := p3, bytes := memcpy_bytes a3 (t_fpu_storage ?o - high_vma s) (unat (fpu_storage_size s)) (bytes (km s))\<rparr>"
  show ?thesis
    using assms(1-4) a
    by (intro exI [of _ ?k] exI [of _ ?th])
      (simp add: thread_fork_def new_thread_def take_mem_def alloc_kernel_stack_def alloc_fault_stack_def copy_fpu_storage_def
        join_process_def in_km_def upd_thread_def upd_proc_def fpu_pages_def Let_def push_def zero_thread_def)
qed

lemma sched_ok_new:
  assumes "sched_ok L s" "\<And>l. t \<notin> set (L l)" "t_next th = 0" "threads s' = (threads s)(t := th)"
    "thread_list_lock s' = thread_list_lock s" "\<And>l. list_head l s' = list_head l s"
  shows "sched_ok L s'"
proof -
  have next_same: "t_next (threads s' x) = t_next (threads s x)" for x
    using assms(3,4) sched_okD(4) [OF assms(1,2)] by auto
  have "chain (threads s') h xs = chain (threads s) h xs" for h xs
    using chain_cong [of "threads s" h xs "threads s'"] chain_cong [of "threads s'" h xs "threads s"] next_same by metis
  then show ?thesis using assms(1,5,6) next_same by (simp add: sched_ok_def queue_def)
qed

section \<open>Forking\<close>

text \<open>What a fork needs: free locks and consistent thread lists, a well-formed table of descriptors, memory for the
  objects, a copy of the address space and frames for the stacks.\<close>

definition fork_ready :: "(tlist \<Rightarrow> nat list) \<Rightarrow> u64 \<Rightarrow> vms \<Rightarrow> ksys \<Rightarrow> bool" where
  "fork_ready L pm k s \<longleftrightarrow> sched_ok L s \<and> (\<forall>l. next_thread s \<notin> set (L l)) \<and> 0 < running s \<and> running s < next_proc s \<and>
     0 < next_thread s \<and> cpu_thread s \<noteq> next_thread s \<and> process_list_lock s = 0 \<and> table_ok (next_fd s) (procs s (running s)) \<and>
     0 < next_fd s \<and> 38 \<le> mem_left s \<and> pm \<noteq> 0 \<and>
     vmm_fork_pagemap (la57 s) (pr_pagemap (procs s (running s))) (km s) = Some (pm, k) \<and>
     fresh_frames (64 + (64 + unat (fpu_pages s))) (vm_pmm k) \<and> 0 < unat (fpu_pages s)"

text \<open>The child of process \<open>p\<close> of state \<open>s\<close> in state \<open>s'\<close>: same program, same open files under the same numbers.\<close>

definition is_child :: "nat \<Rightarrow> nat \<Rightarrow> u64 \<Rightarrow> ksys \<Rightarrow> ksys \<Rightarrow> bool" where
  "is_child p c pm s s' \<longleftrightarrow>
     (let q = procs s p; child = procs s' c in
      pr_parent child = p \<and> pr_state child = PROCESS_RUNNING \<and> pr_pagemap child = pm \<and> pr_cwd child = pr_cwd q \<and>
      pr_brk child = pr_brk q \<and> pr_name child = pr_name q \<and>
      (\<forall>i<MAX_FDS. if pr_fds q ! i = 0 then pr_fds child ! i = 0
         else next_fd s \<le> pr_fds child ! i \<and> same_file (fds s' (pr_fds child ! i)) (fds s (pr_fds q ! i))))"

lemma fork_steps:
  assumes "fork_ready L pm k s"
  obtains s1 s2 where "process_create (running s) 0 s = Some (next_proc s, s1)"
    "thread_fork (next_proc s) (cpu_thread s) s1 = Some (next_thread s, s2)"
    "sched_ok L s2" "is_child (running s) (next_proc s) pm s s2" "pr_pid (procs s2 (next_proc s)) = next_pid s"
    "pr_children (procs s2 (running s)) = push (pr_children (procs s (running s))) (next_proc s) s"
    "t_process (threads s2 (next_thread s)) = next_proc s" "t_state (threads s2 (next_thread s)) = THREAD_READY_TO_RUN"
    "t_ctx (threads s2 (next_thread s)) = (t_ctx (threads s (cpu_thread s)))\<lparr>r_rax := 0\<rparr>"
proof -
  let ?p = "running s" and ?c = "next_proc s" and ?t = "next_thread s"
  have r: "sched_ok L s" "\<And>l. ?t \<notin> set (L l)" "0 < ?p" "?p < ?c" "0 < ?t" "cpu_thread s \<noteq> ?t" "process_list_lock s = 0"
      "table_ok (next_fd s) (procs s ?p)" "0 < next_fd s" "38 \<le> mem_left s" "pm \<noteq> 0"
      "vmm_fork_pagemap (la57 s) (pr_pagemap (procs s ?p)) (km s) = Some (pm, k)"
      "fresh_frames (64 + (64 + unat (fpu_pages s))) (vm_pmm k)" "0 < unat (fpu_pages s)"
    using assms by (simp_all add: fork_ready_def)
  have mem: "37 \<le> mem_left s" using r(10) by simp
  obtain m' n' F' L' where pc: "process_create ?p 0 s = Some (?c, s\<lparr>next_proc := Suc ?c, km := k, mem_left := m',
      next_fd := n', fds := F', procs := (procs s)(?c := forked (procs s ?p) ?p pm L' (stale_slots s) (next_pid s),
        ?p := (procs s ?p)\<lparr>pr_children := push (pr_children (procs s ?p)) ?c s\<rparr>),
      next_pid := sint (word_of_int (next_pid s + 1) :: u32),
      running_processes := push (running_processes s) ?c s, process_list_lock := 0\<rparr>)" "mem_left s \<le> m' + 37"
      "copied_fds [0..<MAX_FDS] (procs s ?p) (replicate MAX_FDS 0) L' (next_fd s) n' (fds s) F'"
    using process_create_fork [OF r(3,4,7,8) mem r(12,11,9)] by blast
  define s1 where "s1 = s\<lparr>next_proc := Suc ?c, km := k, mem_left := m',
      next_fd := n', fds := F', procs := (procs s)(?c := forked (procs s ?p) ?p pm L' (stale_slots s) (next_pid s),
        ?p := (procs s ?p)\<lparr>pr_children := push (pr_children (procs s ?p)) ?c s\<rparr>),
      next_pid := sint (word_of_int (next_pid s + 1) :: u32),
      running_processes := push (running_processes s) ?c s, process_list_lock := 0\<rparr>"
  have f1: "threads s1 = threads s" "next_thread s1 = ?t" "mem_left s1 = m'" "fpu_pages s1 = fpu_pages s" "km s1 = k"
      "procs s1 ?c = forked (procs s ?p) ?p pm L' (stale_slots s) (next_pid s)" "fds s1 = F'"
      "pr_children (procs s1 ?p) = push (pr_children (procs s ?p)) ?c s"
      "thread_list_lock s1 = thread_list_lock s" "list_head l s1 = list_head l s" for l
    using r(4) by (simp_all add: s1_def fpu_pages_def list_head_def split: tlist.split)
  obtain v where v: "pr_threads (procs s1 ?c) = Some v" by (simp add: f1(6) forked_def)
  have "\<exists>k' th. thread_fork ?c (cpu_thread s) s1 = Some (next_thread s1, s1\<lparr>mem_left := mem_left s1 - 1,
      next_thread := Suc (next_thread s1), km := k', threads := (threads s1)(next_thread s1 := th),
      procs := (procs s1)(?c := (procs s1 ?c)\<lparr>pr_threads := push (Some v) (next_thread s1) s1\<rparr>)\<rparr>) \<and>
    t_process th = ?c \<and> t_ctx th = (t_ctx (threads s1 (cpu_thread s)))\<lparr>r_rax := 0\<rparr> \<and> t_state th = THREAD_READY_TO_RUN \<and>
    t_lock th = 0 \<and> t_next th = 0 \<and> t_user_stack th = t_user_stack (threads s1 (cpu_thread s))"
    using r pc(2) v by (intro thread_fork_ok) (simp_all add: f1)
  then obtain k' th where tf: "thread_fork ?c (cpu_thread s) s1 = Some (?t, s1\<lparr>mem_left := m' - 1,
      next_thread := Suc ?t, km := k', threads := (threads s)(?t := th),
      procs := (procs s1)(?c := (procs s1 ?c)\<lparr>pr_threads := push (Some v) ?t s1\<rparr>)\<rparr>)"
      "t_process th = ?c" "t_ctx th = (t_ctx (threads s (cpu_thread s)))\<lparr>r_rax := 0\<rparr>" "t_state th = THREAD_READY_TO_RUN"
      "t_next th = 0"
    unfolding f1 by blast
  define s2 where "s2 = s1\<lparr>mem_left := m' - 1, next_thread := Suc ?t, km := k', threads := (threads s)(?t := th),
      procs := (procs s1)(?c := (procs s1 ?c)\<lparr>pr_threads := push (Some v) ?t s1\<rparr>)\<rparr>"
  have sched: "sched_ok L s2"
    by (rule sched_ok_new [OF r(1,2) tf(5)]) (simp_all add: s2_def s1_def list_head_def split: tlist.split)
  have child: "is_child ?p ?c pm s s2"
    using pc(3) f1(6,7) by (simp add: is_child_def s2_def forked_def zero_process_def copied_fds_def Let_def)
  have create: "process_create ?p 0 s = Some (?c, s1)" using pc(1) unfolding s1_def .
  have thread: "thread_fork ?c (cpu_thread s) s1 = Some (?t, s2)" using tf(1) unfolding s2_def .
  have pid: "pr_pid (procs s2 ?c) = next_pid s" by (simp add: s2_def f1(6) forked_def)
  have entered: "pr_children (procs s2 ?p) = push (pr_children (procs s ?p)) ?c s" using f1(8) r(4) by (simp add: s2_def)
  show thesis by (rule that [OF create thread sched child pid entered]) (simp_all add: s2_def tf(2-4))
qed

lemma relinked_thread:
  assumes "relinked s s'"
  shows "t_process (threads s' t) = t_process (threads s t)" "t_state (threads s' t) = t_state (threads s t)"
    "t_ctx (threads s' t) = t_ctx (threads s t)" "procs s' = procs s" "fds s' = fds s"
proof -
  have "(threads s' t)\<lparr>t_next := 0\<rparr> = (threads s t)\<lparr>t_next := 0\<rparr>" using assms by (simp add: relinked_def)
  then have "f ((threads s' t)\<lparr>t_next := 0\<rparr>) = f ((threads s t)\<lparr>t_next := 0\<rparr>)" for f :: "thread \<Rightarrow> 'z" by simp
  note this [of t_process] this [of t_state] this [of t_ctx]
  then show "t_process (threads s' t) = t_process (threads s t)" "t_state (threads s' t) = t_state (threads s t)"
    "t_ctx (threads s' t) = t_ctx (threads s t)" by simp_all
  have eq: "s' = s\<lparr>threads := threads s', runnable_threads := runnable_threads s', blocking_threads := blocking_threads s',
      zombie_threads := zombie_threads s', thread_list_lock := thread_list_lock s'\<rparr>"
    using assms by (simp add: relinked_def)
  show "procs s' = procs s" by (subst eq) simp
  show "fds s' = fds s" by (subst eq) simp
qed


section \<open>A state to fork in\<close>

lemma each_skip: "(\<And>i. i \<in> set is \<Longrightarrow> f i s = Some s) \<Longrightarrow> each f is s = Some s"
  by (induction "is") auto

lemma fork_empty:
  assumes "vmm_new_pagemap deep s = Some (pm, s1)" "pm \<noteq> 0"
    "\<And>i. i < 256 \<Longrightarrow> \<not> is_present (vm_mem s1 (top_level (pagemaps s1 old)) i)"
  shows "vmm_fork_pagemap deep old s = Some (pm, s1)"
proof -
  have "each_present (top_level (pagemaps s1 old)) 256 f s1 = Some s1" for f
    unfolding each_present_def by (rule each_skip) (use assms(3) in simp)
  then show ?thesis using assms(1,2) by (simp add: vmm_fork_pagemap_def)
qed

text \<open>The example state with more memory: no page of the user is mapped, so the copy of the address space is a new one.\<close>

definition roomy :: vms where
  "roomy = vms_sample\<lparr>vm_pmm := \<lparr>pmm_bitmap = (\<lambda>_. 0), reserved_pages = 0, usable_pages = 4096, pmm_lock = 0, used_pages = 0,
     last_used_index = 2, highest_page_index = 4096\<rparr>\<rparr>"

definition fork_sample :: ksys where
  "fork_sample = sample_ksys\<lparr>mem_left := 50, km := roomy\<rparr>"

lemma roomy_fork: "\<exists>k. vmm_fork_pagemap False 0 roomy = Some (0x9100, k) \<and> fresh_frames 200 (vm_pmm k)"
proof -
  have "BITMAP_TEST (\<lambda>_. 0) 0 = False" by (simp add: BITMAP_TEST_bit)
  then have "\<exists>s1. cache_alloc_object 1 roomy = Some (0x9100, s1) \<and> vm_mem s1 = (\<lambda>_ _. 0) \<and> vm_pmm s1 = vm_pmm roomy"
    by (simp add: cache_alloc_object_def roomy_def vms_sample_def kheap.extend_def heap_sample_def zero_cache_def
        slab_alloc_object_def cache_settle_def upd_cache_def upd_slab_def Let_def vm_sample_def upt_conv_Cons)
  moreover have "pagemap_cache roomy = 1" by (simp add: roomy_def vms_sample_def kheap.extend_def)
  ultimately obtain s1 where s1: "cache_alloc_object (pagemap_cache roomy) roomy = Some (0x9100, s1)"
      "vm_mem s1 = (\<lambda>_ _. 0)" "vm_pmm s1 = vm_pmm roomy" by auto
  have "fresh_frames 201 (vm_pmm s1)"
    unfolding s1(3) roomy_def by (simp add: fresh_frames_def BITMAP_TEST_bit)
  then have "fresh_frames (Suc 200) (vm_pmm s1)" by simp
  then obtain f p where f: "pmm_allocz 1 s1 = Some (f, s1\<lparr>vm_pmm := p, vm_mem := (vm_mem s1)(f := (\<lambda>_. 0))\<rparr>)"
      "fresh_frames 200 p" "f \<noteq> 0"
    using pmm_allocz_one [of 200 s1] by blast
  have zero: "(\<lambda>_ _. 0)(f := (\<lambda>_. 0)) = ((\<lambda>_ _. 0) :: physmem)" by auto
  have fold_zero: "fold (\<lambda>i m. set_entry f i (m t i) m) is (\<lambda>_ _. 0) = (\<lambda>_ _. 0)" for t "is"
  proof (induction "is")
    case (Cons i "is")
    have "set_entry f i 0 (\<lambda>_ _. 0) = (\<lambda>_ _. 0)" by (auto simp: set_entry_def)
    then show ?case using Cons by simp
  qed simp
  obtain k where k: "vmm_new_pagemap False roomy = Some (0x9100, k)" "vm_mem k = (\<lambda>_ _. 0)" "vm_pmm k = p"
    using s1(1,2) f(1,3) by (simp add: vmm_new_pagemap_def zero fold_zero Let_def del: upt_rec_numeral)
  have "vmm_fork_pagemap False 0 roomy = Some (0x9100, k)"
    by (rule fork_empty [OF k(1)]) (simp_all add: k(2) is_present_0)
  then show ?thesis using f(2) k(3) by auto
qed


end
