(* ===== verification/Calendar.thy ===== *)
theory Calendar
  imports Prelude "HOL-Library.Signed_Division"
begin

text \<open>
  Calendar time in the C library: \<^verbatim>\<open>libc/src/time\<close>. A time is a number of seconds since 1970, a date is the
  record \<open>tm\<close>. The fields of a date are C \<^verbatim>\<open>int\<close>s; every operation that could leave their range is written
  out, and \<open>None\<close> is undefined behaviour (a signed
  overflow, or a month that \<^verbatim>\<open>__days_per_month\<close> declares unreachable). \<^verbatim>\<open>time_t\<close> has 64 bits, and the days of
  all the years an \<^verbatim>\<open>int\<close> can hold make fewer than \<open>2 ^ 57\<close> seconds, so it never overflows.
\<close>

record tm =
  tm_sec :: int
  tm_min :: int
  tm_hour :: int
  tm_mday :: int
  tm_mon :: int
  tm_year :: int
  tm_wday :: int
  tm_yday :: int
  tm_isdst :: int

definition EOVERFLOW :: int where "EOVERFLOW = 20"

section \<open>The functions\<close>

definition is_leap_year :: "int \<Rightarrow> bool" where
  "is_leap_year year \<longleftrightarrow> year smod 4 = 0 \<and> (year smod 100 \<noteq> 0 \<or> year smod 400 = 0)"

definition days_per_year :: "int \<Rightarrow> int" where
  "days_per_year year = (if is_leap_year year then 366 else 365)"

definition time_abs :: "int \<Rightarrow> int" where
  "time_abs t = (if t < 0 then - t else t)"

definition days_per_month :: "int \<Rightarrow> int \<Rightarrow> int option" where
  "days_per_month month year =
     (if month = 0 then Some 31
      else if month = 1 then Some (if is_leap_year year then 29 else 28)
      else if month = 2 then Some 31
      else if month = 3 then Some 30
      else if month = 4 then Some 31
      else if month = 5 then Some 30
      else if month = 6 then Some 31
      else if month = 7 then Some 31
      else if month = 8 then Some 30
      else if month = 9 then Some 31
      else if month = 10 then Some 30
      else if month = 11 then Some 31
      else None)"

definition get_first_weekday_of_year :: "tm \<Rightarrow> int" where
  "get_first_weekday_of_year tm =
     (let weekday = (tm_wday tm - tm_yday tm) smod 7 in if weekday < 0 then weekday + 7 else weekday)"

definition get_week_based_year :: "tm \<Rightarrow> int" where
  "get_week_based_year tm =
     (let first_weekday = get_first_weekday_of_year tm; year = tm_year tm + 1900
      in if first_weekday = 0 \<or> 5 \<le> first_weekday then year - 1 else year)"

lemma days_per_year_bounds: "365 \<le> days_per_year y" "days_per_year y \<le> 366"
  by (simp_all add: days_per_year_def)

lemma days_per_year_pos [simp]: "0 < days_per_year y"
  by (simp add: days_per_year_def)

lemma days_per_month_bounds: "days_per_month m y = Some d \<Longrightarrow> 28 \<le> d \<and> d \<le> 31"
  by (auto simp: days_per_month_def split: if_splits)

text \<open>The three loops of \<^verbatim>\<open>gmtime_r\<close>: back to a year that begins before the time, forward to the year and to
  the month it lies in.\<close>

function year_down :: "int \<Rightarrow> int \<Rightarrow> int \<Rightarrow> int \<times> int \<times> int" where
  "year_down seconds_left year days_since_epoch =
     (if seconds_left < 0 then
        year_down (seconds_left + days_per_year (year - 1) * 86400) (year - 1) (days_since_epoch - days_per_year (year - 1))
      else (seconds_left, year, days_since_epoch))"
  by pat_completeness auto
termination
  by (relation "measure (\<lambda>(secs, _, _). nat (- secs))") auto

function year_up :: "int \<Rightarrow> int \<Rightarrow> int \<Rightarrow> int \<times> int \<times> int" where
  "year_up seconds_left year days_since_epoch =
     (if seconds_left \<ge> days_per_year year * 86400 then
        year_up (seconds_left - days_per_year year * 86400) (year + 1) (days_since_epoch + days_per_year year)
      else (seconds_left, year, days_since_epoch))"
  by pat_completeness auto
termination
proof (relation "measure (\<lambda>(secs, _, _). nat secs)", goal_cases)
  case (2 secs year days)
  then show ?case using days_per_year_bounds(1) [of year] by simp
qed simp

function month_up :: "int \<Rightarrow> int \<Rightarrow> int \<Rightarrow> int \<Rightarrow> int \<Rightarrow> (int \<times> int \<times> int \<times> int) option" where
  "month_up year seconds_left mon yday days_since_epoch =
     (case days_per_month mon year of
        None \<Rightarrow> None
      | Some d \<Rightarrow>
          if seconds_left \<ge> d * 86400
          then month_up year (seconds_left - d * 86400) (mon + 1) (yday + d) (days_since_epoch + d)
          else Some (seconds_left, mon, yday, days_since_epoch))"
  by pat_completeness auto
termination
  by (relation "measure (\<lambda>(_, secs, _). nat secs)") (auto dest: days_per_month_bounds)

declare year_down.simps [simp del] year_up.simps [simp del] month_up.simps [simp del]

definition weekday_of :: "int \<Rightarrow> int" where
  "weekday_of days_since_epoch =
     (let wday = (4 + days_since_epoch) smod 7 in if wday < 0 then wday + 7 else wday)"

definition gmtime_r :: "int \<Rightarrow> tm option" where
  "gmtime_r time = do {
     let (seconds_left, year, days_since_epoch) = year_down time 1970 0;
     let (seconds_left, year, days_since_epoch) = year_up seconds_left year days_since_epoch;
     (seconds_left, mon, yday, days_since_epoch) \<leftarrow> month_up year seconds_left 0 0 days_since_epoch;
     let day = seconds_left sdiv 86400;
     let rest = seconds_left smod 86400;
     Some \<lparr>tm_sec = rest smod (60 * 60) smod 60, tm_min = rest smod (60 * 60) sdiv 60, tm_hour = rest sdiv (60 * 60),
           tm_mday = day + 1, tm_mon = mon, tm_year = to_int (year - 1900),
           tm_wday = weekday_of (days_since_epoch + day), tm_yday = yday + day, tm_isdst = 0\<rparr>
   }"

text \<open>\<^verbatim>\<open>timegm\<close> first brings the fields into their ranges. A function that fails has changed what it has changed.\<close>

definition normalize :: "int \<Rightarrow> int \<Rightarrow> int \<Rightarrow> (bool \<times> int \<times> int) option" where
  "normalize x y rng =
     (let y' = y + x sdiv rng; x' = x smod rng in
      if \<not> fits_int y' then Some (False, x, to_int y')
      else if x' < 0 then (if fits_int (y' - 1) then Some (True, x' + rng, y' - 1) else None)
      else Some (True, x', y'))"

function mday_down :: "int \<Rightarrow> int \<Rightarrow> int \<Rightarrow> (bool \<times> int \<times> int \<times> int) option" where
  "mday_down mday mon year =
     (case days_per_month mon (year + 1900) of
        None \<Rightarrow> None
      | Some d \<Rightarrow>
          if mday > d then
            if mon + 1 > 11 then
              if \<not> fits_int (year + 1) then Some (False, mday - d, mon + 1, to_int (year + 1))
              else mday_down (mday - d) 0 (year + 1)
            else mday_down (mday - d) (mon + 1) year
          else Some (True, mday, mon, year))"
  by pat_completeness auto
termination
  by (relation "measure (\<lambda>(mday, _). nat mday)") (auto dest: days_per_month_bounds)

function mday_up :: "int \<Rightarrow> int \<Rightarrow> int \<Rightarrow> (bool \<times> int \<times> int \<times> int) option" where
  "mday_up mday mon year =
     (if mday \<le> 0 then
        if mon - 1 < 0 \<and> \<not> fits_int (year - 1) then Some (False, mday, mon - 1, to_int (year - 1))
        else
          let (mon, year) = (if mon - 1 < 0 then (11, year - 1) else (mon - 1, year)) in
          case days_per_month mon (year + 1900) of
            None \<Rightarrow> None
          | Some d \<Rightarrow> mday_up (mday + d) mon year
      else Some (True, mday, mon, year))"
  by pat_completeness auto
termination
  by (relation "measure (\<lambda>(mday, _). nat (1 - mday))") (auto dest: days_per_month_bounds)

declare mday_down.simps [simp del] mday_up.simps [simp del]

definition normalize_entries :: "tm \<Rightarrow> (bool \<times> tm) option" where
  "normalize_entries tm = do {
     (ok, sec, min) \<leftarrow> normalize (tm_sec tm) (tm_min tm) 60;
     let tm = tm\<lparr>tm_sec := sec, tm_min := min\<rparr>;
     if \<not> ok then Some (False, tm)
     else do {
       (ok, min, hour) \<leftarrow> normalize (tm_min tm) (tm_hour tm) 60;
       let tm = tm\<lparr>tm_min := min, tm_hour := hour\<rparr>;
       if \<not> ok then Some (False, tm)
       else do {
         (ok, hour, mday) \<leftarrow> normalize (tm_hour tm) (tm_mday tm) 24;
         let tm = tm\<lparr>tm_hour := hour, tm_mday := mday\<rparr>;
         if \<not> ok then Some (False, tm)
         else do {
           (ok, mon, year) \<leftarrow> normalize (tm_mon tm) (tm_year tm) 12;
           let tm = tm\<lparr>tm_mon := mon, tm_year := year\<rparr>;
           if \<not> ok then Some (False, tm)
           else do {
             (ok, mday, mon, year) \<leftarrow> mday_down (tm_mday tm) (tm_mon tm) (tm_year tm);
             let tm = tm\<lparr>tm_mday := mday, tm_mon := mon, tm_year := year\<rparr>;
             if \<not> ok then Some (False, tm)
             else do {
               (ok, mday, mon, year) \<leftarrow> mday_up (tm_mday tm) (tm_mon tm) (tm_year tm);
               Some (ok, tm\<lparr>tm_mday := mday, tm_mon := mon, tm_year := year\<rparr>)
             }
           }
         }
       }
     }
   }"

text \<open>The loops of \<^verbatim>\<open>timegm\<close> over the years and the months before the date.\<close>

function count_up :: "int \<Rightarrow> int \<Rightarrow> int \<Rightarrow> int \<times> int" where
  "count_up year goal days =
     (if year < goal then count_up (year + 1) goal (days + days_per_year year) else (year, days))"
  by pat_completeness auto
termination
  by (relation "measure (\<lambda>(year, goal, _). nat (goal - year))") auto

function count_down :: "int \<Rightarrow> int \<Rightarrow> int \<Rightarrow> int \<times> int" where
  "count_down year goal days =
     (if year > goal then count_down (year - 1) goal (days - days_per_year (year - 1)) else (year, days))"
  by pat_completeness auto
termination
  by (relation "measure (\<lambda>(year, goal, _). nat (year - goal))") auto

function count_months :: "int \<Rightarrow> int \<Rightarrow> int \<Rightarrow> int \<Rightarrow> int option" where
  "count_months month mon year days =
     (if month < mon then
        case days_per_month month year of
          None \<Rightarrow> None
        | Some d \<Rightarrow> count_months (month + 1) mon year (days + d)
      else Some days)"
  by pat_completeness auto
termination
  by (relation "measure (\<lambda>(month, mon, _). nat (mon - month))") auto

declare count_up.simps [simp del] count_down.simps [simp del] count_months.simps [simp del]

text \<open>The results are the value returned, \<^verbatim>\<open>errno\<close> and the date.\<close>

definition timegm :: "int \<Rightarrow> tm \<Rightarrow> (int \<times> int \<times> tm) option" where
  "timegm errno tm = do {
     (ok, tm) \<leftarrow> normalize_entries tm;
     if \<not> ok then Some (- 1, EOVERFLOW, tm)
     else do {
       let (year, days) = count_up 1970 (1900 + tm_year tm) 0;
       let (year, days) = count_down year (1900 + tm_year tm) days;
       yday \<leftarrow> count_months 0 (tm_mon tm) year 0;
       let days = days + yday + (tm_mday tm - 1);
       Some (days * 24 * 60 * 60 + tm_hour tm * 60 * 60 + tm_min tm * 60 + tm_sec tm, errno,
             tm\<lparr>tm_yday := yday + (tm_mday tm - 1), tm_wday := weekday_of days\<rparr>)
     }
   }"

definition mktime :: "int \<Rightarrow> tm \<Rightarrow> (int \<times> int \<times> tm) option" where
  "mktime errno tm = do {
     (result, errno', tm) \<leftarrow> timegm 0 tm;
     if errno' \<noteq> 0 then Some (- 1, errno', tm) else Some (result, errno, tm)
   }"

definition localtime :: "int \<Rightarrow> tm option" where
  "localtime time = gmtime_r time"

section \<open>Years\<close>

lemma sdiv_smod_nonneg: "0 \<le> x \<Longrightarrow> 0 < n \<Longrightarrow> x sdiv n = x div n" "0 \<le> x \<Longrightarrow> 0 < n \<Longrightarrow> x smod n = x mod n" for x n :: int
  by (auto simp: signed_divide_int_def signed_modulo_int_def sgn_if)

lemma sdiv_smod_neg:
  fixes x n :: int
  assumes "x < 0" "0 < n"
  shows "x smod n = (if x mod n = 0 then 0 else x mod n - n)" "x sdiv n = (if x mod n = 0 then x div n else x div n + 1)"
proof -
  have "x smod n = - (- x mod n)" "x sdiv n = - (- x div n)"
    using assms by (auto simp: signed_divide_int_def signed_modulo_int_def sgn_if)
  then show "x smod n = (if x mod n = 0 then 0 else x mod n - n)" "x sdiv n = (if x mod n = 0 then x div n else x div n + 1)"
    using assms by (auto simp: zmod_zminus1_eq_if zdiv_zminus1_eq_if)
qed

lemma smod_eq_0_iff:
  fixes x n :: int
  assumes "0 < n"
  shows "x smod n = 0 \<longleftrightarrow> x mod n = 0"
proof -
  have "x mod n \<noteq> n" using pos_mod_bound [OF assms, of x] by linarith
  then show ?thesis using assms by (cases "0 \<le> x") (simp_all add: sdiv_smod_nonneg sdiv_smod_neg)
qed

text \<open>The reference: how many days lie before a year and, within it, before a month, by the rule of the
  Gregorian calendar.\<close>

definition days_before_year :: "int \<Rightarrow> int" where
  "days_before_year y = 365 * y + (y - 1) div 4 - (y - 1) div 100 + (y - 1) div 400"

fun days_before_month :: "nat \<Rightarrow> int \<Rightarrow> int" where
  "days_before_month 0 y = 0"
| "days_before_month (Suc m) y = days_before_month m y + the (days_per_month (int m) y)"

lemma div_step:
  fixes y n :: int
  assumes n: "0 < n"
  shows "y div n = (y - 1) div n + (if y mod n = 0 then 1 else 0)"
proof (cases "y mod n = 0")
  case True
  then have "y - 1 = n * (y div n - 1) + (n - 1)" using mult_div_mod_eq [of n y] by (simp add: algebra_simps)
  then have "(y - 1) div n = y div n - 1" by (rule int_div_pos_eq) (use n in simp_all)
  then show ?thesis using True by simp
next
  case False
  have "y - 1 = n * (y div n) + (y mod n - 1)" using mult_div_mod_eq [of n y] by simp
  moreover have "0 \<le> y mod n - 1" "y mod n - 1 < n"
    using False pos_mod_sign [OF n, of y] pos_mod_bound [OF n, of y] by linarith+
  ultimately show ?thesis using False int_div_pos_eq [of "y - 1" n "y div n" "y mod n - 1"] by simp
qed

lemma days_per_year_diff: "days_before_year (y + 1) = days_before_year y + days_per_year y"
proof -
  have mods: "y mod 400 = 0 \<Longrightarrow> y mod 100 = 0" "y mod 100 = 0 \<Longrightarrow> y mod 4 = 0"
    using mod_mod_cancel [of 100 400 y] mod_mod_cancel [of 4 100 y] by auto
  have "days_before_year (y + 1) = 365 * y + 365 + y div 4 - y div 100 + y div 400" by (simp add: days_before_year_def)
  also have "\<dots> = days_before_year y + (if y mod 4 = 0 \<and> (y mod 100 \<noteq> 0 \<or> y mod 400 = 0) then 366 else 365)"
    using mods by (cases "y mod 400 = 0"; cases "y mod 100 = 0"; cases "y mod 4 = 0")
      (simp_all add: days_before_year_def div_step [of 4 y] div_step [of 100 y] div_step [of 400 y])
  finally show ?thesis by (simp add: days_per_year_def is_leap_year_def smod_eq_0_iff)
qed

lemma days_before_year_mono: "a \<le> b \<Longrightarrow> days_before_year a + 365 * (b - a) \<le> days_before_year b"
proof (induction b rule: int_ge_induct)
  case (step b)
  then show ?case using days_per_year_bounds [of b] by (simp add: days_per_year_diff)
qed simp

lemma days_before_month_12: "days_before_month 12 y = days_per_year y"
  by (simp add: eval_nat_numeral days_per_month_def days_per_year_def)

lemma days_per_month_Some: "m < 12 \<Longrightarrow> \<exists>d. days_per_month (int m) y = Some d"
  by (simp add: days_per_month_def) presburger

lemma days_before_month_mono: "m \<le> n \<Longrightarrow> n \<le> 12 \<Longrightarrow> days_before_month m y \<le> days_before_month n y"
proof (induction n rule: dec_induct)
  case (step n)
  obtain d where "days_per_month (int n) y = Some d" using days_per_month_Some [of n y] step by auto
  then show ?case using step days_per_month_bounds [of "int n" y d] by simp
qed simp

section \<open>The loops\<close>

lemma year_down_spec:
  "year_down secs year days = (secs', year', days') \<Longrightarrow>
     0 \<le> secs' \<and> secs' + 86400 * days_before_year year' = secs + 86400 * days_before_year year \<and>
     days' - days_before_year year' = days - days_before_year year"
proof (induction secs year days rule: year_down.induct)
  case (1 secs year days)
  show ?case
    using 1 days_per_year_diff [of "year - 1"]
    by (cases "secs < 0") (simp_all add: year_down.simps [of secs])
qed

lemma year_up_spec:
  "year_up secs year days = (secs', year', days') \<Longrightarrow> 0 \<le> secs \<Longrightarrow>
     0 \<le> secs' \<and> secs' < 86400 * days_per_year year' \<and>
     secs' + 86400 * days_before_year year' = secs + 86400 * days_before_year year \<and>
     days' - days_before_year year' = days - days_before_year year"
proof (induction secs year days rule: year_up.induct)
  case (1 secs year days)
  show ?case
    using 1 days_per_year_diff [of year]
    by (cases "secs \<ge> days_per_year year * 86400") (simp_all add: year_up.simps [of secs])
qed

lemma month_up_spec:
  assumes "m < 12" "0 \<le> secs" "secs + 86400 * days_before_month m y < 86400 * days_per_year y"
  shows "\<exists>n k. n < 12 \<and> month_up y secs (int m) yday days = Some (secs - 86400 * k, int n, yday + k, days + k) \<and>
    k = days_before_month n y - days_before_month m y \<and> 0 \<le> secs - 86400 * k \<and>
    secs - 86400 * k < 86400 * the (days_per_month (int n) y)"
  using assms
proof (induction "12 - m" arbitrary: m secs yday days rule: less_induct)
  case less
  obtain d where d: "days_per_month (int m) y = Some d" using days_per_month_Some less.prems(1) by blast
  show ?case
  proof (cases "secs \<ge> d * 86400")
    case True
    have "m \<noteq> 11" using True less.prems d days_before_month_12 [of y] by (auto simp: eval_nat_numeral)
    then have m: "Suc m < 12" using less.prems(1) by simp
    have next_month: "days_before_month (Suc m) y = days_before_month m y + d" using d by simp
    have steps: "12 - Suc m < 12 - m" "0 \<le> secs - d * 86400"
        "secs - d * 86400 + 86400 * days_before_month (Suc m) y < 86400 * days_per_year y"
      using m True less.prems(3) next_month by linarith+
    obtain n k where n: "n < 12" "month_up y (secs - d * 86400) (int (Suc m)) (yday + d) (days + d) =
          Some (secs - d * 86400 - 86400 * k, int n, yday + d + k, days + d + k)"
        "k = days_before_month n y - days_before_month (Suc m) y" "0 \<le> secs - d * 86400 - 86400 * k"
        "secs - d * 86400 - 86400 * k < 86400 * the (days_per_month (int n) y)"
      using less.hyps [OF steps(1) m steps(2,3), of "yday + d" "days + d"] by blast
    have "month_up y secs (int m) yday days = Some (secs - 86400 * (d + k), int n, yday + (d + k), days + (d + k))"
      using n(2) True d by (simp add: month_up.simps [of y secs] algebra_simps)
    moreover have "d + k = days_before_month n y - days_before_month m y" using n(3) next_month by simp
    ultimately show ?thesis using n by (intro exI [of _ n] exI [of _ "d + k"]) simp
  next
    case False
    then show ?thesis
      using less.prems d by (intro exI [of _ m] exI [of _ 0]) (simp add: month_up.simps [of y secs])
  qed
qed

lemma count_up_spec: "count_up year goal days = (max year goal, days + days_before_year (max year goal) - days_before_year year)"
proof (induction year goal days rule: count_up.induct)
  case (1 year goal days)
  then show ?case using days_per_year_diff [of year] by (cases "year < goal") (simp_all add: count_up.simps [of year])
qed

lemma count_down_spec: "count_down year goal days = (min year goal, days + days_before_year (min year goal) - days_before_year year)"
proof (induction year goal days rule: count_down.induct)
  case (1 year goal days)
  then show ?case using days_per_year_diff [of "year - 1"] by (cases "year > goal") (simp_all add: count_down.simps [of year])
qed

lemma count_months_spec:
  "i \<le> m \<Longrightarrow> m \<le> 12 \<Longrightarrow> count_months (int i) (int m) y days = Some (days + days_before_month m y - days_before_month i y)"
proof (induction i arbitrary: days rule: inc_induct)
  case base
  then show ?case by (simp add: count_months.simps)
next
  case (step i)
  obtain d where d: "days_per_month (int i) y = Some d" using days_per_month_Some [of i y] step by auto
  show ?case using step.IH [of "days + d"] step.hyps step.prems d by (simp add: count_months.simps [of "int i"] add.commute)
qed

section \<open>Dates and times\<close>

text \<open>The seconds since 1970 that a date means, whatever the values of its fields.\<close>

definition date_seconds :: "tm \<Rightarrow> int" where
  "date_seconds tm =
     (let year = 1900 + tm_year tm + tm_mon tm div 12 in
      86400 * (days_before_year year - days_before_year 1970 + days_before_month (nat (tm_mon tm mod 12)) year + tm_mday tm - 1)
      + 3600 * tm_hour tm + 60 * tm_min tm + tm_sec tm)"

definition clock_ok :: "tm \<Rightarrow> bool" where
  "clock_ok tm \<longleftrightarrow> 0 \<le> tm_sec tm \<and> tm_sec tm < 60 \<and> 0 \<le> tm_min tm \<and> tm_min tm < 60 \<and> 0 \<le> tm_hour tm \<and> tm_hour tm < 24"

definition date_ok :: "tm \<Rightarrow> bool" where
  "date_ok tm \<longleftrightarrow> clock_ok tm \<and> 0 \<le> tm_mon tm \<and> tm_mon tm < 12 \<and> 1 \<le> tm_mday tm \<and>
     tm_mday tm \<le> the (days_per_month (tm_mon tm) (tm_year tm + 1900)) \<and> fits_int (tm_year tm)"

lemma date_upd [simp]:
  "date_seconds (tm\<lparr>tm_yday := a, tm_wday := b\<rparr>) = date_seconds tm" "date_ok (tm\<lparr>tm_yday := a, tm_wday := b\<rparr>) = date_ok tm"
  by (simp_all add: date_seconds_def date_ok_def clock_ok_def)

lemma normalize_spec:
  assumes "0 < n" "fits_int (y + x div n)" "fits_int (y + x div n + 1)"
  shows "normalize x y n = Some (True, x mod n, y + x div n)"
proof (cases "0 \<le> x")
  case True
  moreover have "\<not> x mod n < 0" using pos_mod_sign [OF assms(1), of x] by linarith
  ultimately show ?thesis using assms by (simp add: normalize_def sdiv_smod_nonneg Let_def)
next
  case False
  then show ?thesis
    using assms pos_mod_bound [OF assms(1), of x] by (auto simp: normalize_def sdiv_smod_neg fits_int_def Let_def add.assoc)
qed

lemma mday_down_spec:
  assumes "m < 12" "fits_int year" "fits_int (year + max 0 mday)"
  shows "\<exists>mday' m' year'. mday_down mday (int m) year = Some (True, mday', int m', year') \<and> m' < 12 \<and>
     mday' \<le> the (days_per_month (int m') (year' + 1900)) \<and> (mday' \<le> 0 \<longrightarrow> mday' = mday \<and> year' = year) \<and>
     days_before_year (year' + 1900) + days_before_month m' (year' + 1900) + mday' =
       days_before_year (year + 1900) + days_before_month m (year + 1900) + mday \<and>
     year \<le> year' \<and> year' + max 0 mday' \<le> year + max 0 mday"
  using assms
proof (induction "nat mday" arbitrary: mday m year rule: less_induct)
  case less
  obtain d where d: "days_per_month (int m) (year + 1900) = Some d" using days_per_month_Some less.prems(1) by blast
  have d28: "28 \<le> d" "d \<le> 31" using days_per_month_bounds [OF d] by auto
  show ?case
  proof (cases "d < mday")
    case False
    then show ?thesis
      using d less.prems(1) by (intro exI [of _ mday] exI [of _ m] exI [of _ year]) (simp add: mday_down.simps [of mday])
  next
    case True
    define m2 year2 where "m2 = (if m = 11 then 0 else Suc m)" and "year2 = (if m = 11 then year + 1 else year)"
    have go: "mday_down mday (int m) year = mday_down (mday - d) (int m2) year2"
      using True d d28 less.prems by (auto simp: mday_down.simps [of mday] m2_def year2_def fits_int_def add.commute)
    have sum: "days_before_year (year2 + 1900) + days_before_month m2 (year2 + 1900) =
        days_before_year (year + 1900) + days_before_month m (year + 1900) + d"
      using d days_per_year_diff [of "year + 1900"] days_before_month_12 [of "year + 1900"] less.prems(1)
      by (auto simp: m2_def year2_def eval_nat_numeral)
    have "nat (mday - d) < nat mday" "m2 < 12" "fits_int year2" "fits_int (year2 + max 0 (mday - d))"
      using True d28 less.prems by (auto simp: m2_def year2_def fits_int_def)
    note ih = less.hyps [OF this]
    show ?thesis
      using ih True sum d28 unfolding go by (fastforce simp: year2_def split: if_splits)
  qed
qed

lemma mday_up_spec:
  assumes "m < 12" "fits_int year" "mday \<le> 0 \<Longrightarrow> fits_int (year - 1 + mday)"
    "mday \<le> the (days_per_month (int m) (year + 1900))"
  shows "\<exists>mday' m' year'. mday_up mday (int m) year = Some (True, mday', int m', year') \<and> m' < 12 \<and>
     1 \<le> mday' \<and> mday' \<le> the (days_per_month (int m') (year' + 1900)) \<and> fits_int year' \<and>
     days_before_year (year' + 1900) + days_before_month m' (year' + 1900) + mday' =
       days_before_year (year + 1900) + days_before_month m (year + 1900) + mday"
  using assms
proof (induction "nat (1 - mday)" arbitrary: mday m year rule: less_induct)
  case less
  show ?case
  proof (cases "mday \<le> 0")
    case False
    then show ?thesis
      using less.prems by (intro exI [of _ mday] exI [of _ m] exI [of _ year]) (simp add: mday_up.simps [of mday])
  next
    case True
    define m2 year2 where "m2 = (if m = 0 then 11 else m - 1)" and "year2 = (if m = 0 then year - 1 else year)"
    have m2: "m2 < 12" using less.prems(1) by (simp add: m2_def less_imp_diff_less)
    obtain d where d: "days_per_month (int m2) (year2 + 1900) = Some d" using days_per_month_Some [OF m2] by blast
    have d28: "28 \<le> d" using days_per_month_bounds [OF d] by auto
    have go: "mday_up mday (int m) year = mday_up (mday + d) (int m2) year2"
      using True d less.prems by (auto simp: mday_up.simps [of mday] m2_def year2_def fits_int_def of_nat_diff split: if_splits)
    have sum: "days_before_year (year2 + 1900) + days_before_month m2 (year2 + 1900) + d =
        days_before_year (year + 1900) + days_before_month m (year + 1900)"
      using d days_per_year_diff [of "1899 + year"] days_before_month_12 [of "1899 + year"] less.prems(1)
      by (cases m) (auto simp: m2_def year2_def eval_nat_numeral add.commute [of year])
    have "nat (1 - (mday + d)) < nat (1 - mday)" "fits_int year2" "mday + d \<le> 0 \<Longrightarrow> fits_int (year2 - 1 + (mday + d))"
        "mday + d \<le> the (days_per_month (int m2) (year2 + 1900))"
      using True d28 d less.prems by (auto simp: year2_def fits_int_def)
    note ih = less.hyps [OF this(1) m2 this(2-4)]
    show ?thesis using ih sum unfolding go by fastforce
  qed
qed

text \<open>Fields small enough that no operation on them leaves the range of an \<^verbatim>\<open>int\<close>.\<close>

definition small_fields :: "tm \<Rightarrow> bool" where
  "small_fields tm \<longleftrightarrow> (\<forall>x\<in>{tm_sec tm, tm_min tm, tm_hour tm, tm_mday tm, tm_mon tm, tm_year tm}. \<bar>x\<bar> \<le> 100000000)"

lemma div_bound:
  fixes x n :: int
  assumes "0 < n"
  shows "\<bar>x div n\<bar> \<le> \<bar>x\<bar> + 1"
proof -
  have "x div n \<le> \<bar>x\<bar>" "- \<bar>x\<bar> - 1 \<le> x div n"
    using sdiv_int_range [of x n] signed_divide_int_eq_divide_int [of x n] by (auto simp: of_bool_def split: if_splits)
  then show ?thesis by simp
qed

text \<open>The carries of the clock fields, and the days and months that result.\<close>

definition min_sum :: "tm \<Rightarrow> int" where "min_sum tm = tm_min tm + tm_sec tm div 60"
definition hour_sum :: "tm \<Rightarrow> int" where "hour_sum tm = tm_hour tm + min_sum tm div 60"
definition mday_sum :: "tm \<Rightarrow> int" where "mday_sum tm = tm_mday tm + hour_sum tm div 24"
definition year_sum :: "tm \<Rightarrow> int" where "year_sum tm = tm_year tm + tm_mon tm div 12"

lemmas sum_defs = min_sum_def hour_sum_def mday_sum_def year_sum_def

lemma sum_bounds:
  assumes "small_fields tm"
  shows "\<bar>min_sum tm\<bar> \<le> 200000001" "\<bar>hour_sum tm\<bar> \<le> 300000002" "\<bar>mday_sum tm\<bar> \<le> 400000003" "\<bar>year_sum tm\<bar> \<le> 200000001"
proof -
  have f: "\<bar>tm_sec tm\<bar> \<le> 100000000" "\<bar>tm_min tm\<bar> \<le> 100000000" "\<bar>tm_hour tm\<bar> \<le> 100000000"
      "\<bar>tm_mday tm\<bar> \<le> 100000000" "\<bar>tm_mon tm\<bar> \<le> 100000000" "\<bar>tm_year tm\<bar> \<le> 100000000"
    using assms unfolding small_fields_def by blast+
  show "\<bar>min_sum tm\<bar> \<le> 200000001" using f(1,2) div_bound [of 60 "tm_sec tm"] unfolding min_sum_def by linarith
  then show "\<bar>hour_sum tm\<bar> \<le> 300000002" using f(3) div_bound [of 60 "min_sum tm"] unfolding hour_sum_def by linarith
  then show "\<bar>mday_sum tm\<bar> \<le> 400000003" using f(4) div_bound [of 24 "hour_sum tm"] unfolding mday_sum_def by linarith
  show "\<bar>year_sum tm\<bar> \<le> 200000001" using f(5,6) div_bound [of 12 "tm_mon tm"] unfolding year_sum_def by linarith
qed

lemma normalize_entries_eq:
  assumes "small_fields tm"
    and "mday_down (mday_sum tm) (tm_mon tm mod 12) (year_sum tm) = Some (True, mday, mon, year)"
    and "mday_up mday mon year = Some (True, mday', mon', year')"
  shows "normalize_entries tm = Some (True, tm\<lparr>tm_sec := tm_sec tm mod 60, tm_min := min_sum tm mod 60,
    tm_hour := hour_sum tm mod 24, tm_mday := mday', tm_mon := mon', tm_year := year'\<rparr>)"
proof -
  have fit: "\<bar>x\<bar> \<le> 400000003 \<Longrightarrow> fits_int x \<and> fits_int (x + 1)" for x by (auto simp: fits_int_def)
  have fits: "fits_int x \<and> fits_int (x + 1)" if "x \<in> {min_sum tm, hour_sum tm, mday_sum tm, year_sum tm}" for x
    using that sum_bounds [OF assms(1)] by (intro fit) auto
  have "normalize (tm_sec tm) (tm_min tm) 60 = Some (True, tm_sec tm mod 60, min_sum tm)"
    using fits [of "min_sum tm"] unfolding min_sum_def by (intro normalize_spec) simp_all
  moreover have "normalize (min_sum tm) (tm_hour tm) 60 = Some (True, min_sum tm mod 60, hour_sum tm)"
    using fits [of "hour_sum tm"] unfolding hour_sum_def by (intro normalize_spec) simp_all
  moreover have "normalize (hour_sum tm) (tm_mday tm) 24 = Some (True, hour_sum tm mod 24, mday_sum tm)"
    using fits [of "mday_sum tm"] unfolding mday_sum_def by (intro normalize_spec) simp_all
  moreover have "normalize (tm_mon tm) (tm_year tm) 12 = Some (True, tm_mon tm mod 12, year_sum tm)"
    using fits [of "year_sum tm"] unfolding year_sum_def by (intro normalize_spec) simp_all
  ultimately show ?thesis using assms(2,3) by (simp add: normalize_entries_def)
qed

lemma carry:
  fixes s m h :: int
  assumes "60 * a + r1 = s" "60 * b + r2 = m + a" "24 * c + r3 = h + b"
  shows "3600 * h + 60 * m + s = 86400 * c + 3600 * r3 + 60 * r2 + r1"
  using assms by linarith

lemma date_seconds_sums:
  "date_seconds tm =
     86400 * (days_before_year (year_sum tm + 1900) + days_before_month (nat (tm_mon tm mod 12)) (year_sum tm + 1900) + mday_sum tm
       - days_before_year 1970 - 1) + 3600 * (hour_sum tm mod 24) + 60 * (min_sum tm mod 60) + tm_sec tm mod 60"
proof -
  have y: "1900 + tm_year tm + tm_mon tm div 12 = year_sum tm + 1900" by (simp add: year_sum_def)
  have "3600 * tm_hour tm + 60 * tm_min tm + tm_sec tm =
      86400 * (hour_sum tm div 24) + 3600 * (hour_sum tm mod 24) + 60 * (min_sum tm mod 60) + tm_sec tm mod 60"
  proof (rule carry)
    show "60 * (tm_sec tm div 60) + tm_sec tm mod 60 = tm_sec tm" by (rule mult_div_mod_eq)
    show "60 * (min_sum tm div 60) + min_sum tm mod 60 = tm_min tm + tm_sec tm div 60"
      unfolding mult_div_mod_eq by (rule min_sum_def)
    show "24 * (hour_sum tm div 24) + hour_sum tm mod 24 = tm_hour tm + min_sum tm div 60"
      unfolding mult_div_mod_eq by (rule hour_sum_def)
  qed
  then show ?thesis unfolding date_seconds_def Let_def y mday_sum_def by (simp only: algebra_simps)
qed

lemma normalize_entries_spec:
  assumes small: "small_fields tm"
  shows "\<exists>tm'. normalize_entries tm = Some (True, tm') \<and> date_ok tm' \<and> date_seconds tm' = date_seconds tm \<and>
    tm_isdst tm' = tm_isdst tm"
proof -
  note bounds = sum_bounds [OF small]
  define m2 where "m2 = nat (tm_mon tm mod 12)"
  have m2: "m2 < 12" "tm_mon tm mod 12 = int m2" by (auto simp: m2_def)
  let ?mday = "mday_sum tm" and ?year = "year_sum tm"
  have fits: "fits_int ?year" "fits_int (?year + max 0 ?mday)" using bounds unfolding fits_int_def by linarith+
  obtain mday3 m3 year3 where down: "mday_down ?mday (int m2) ?year = Some (True, mday3, int m3, year3)" "m3 < 12"
      "mday3 \<le> the (days_per_month (int m3) (year3 + 1900))" "mday3 \<le> 0 \<longrightarrow> mday3 = ?mday \<and> year3 = ?year"
      "days_before_year (year3 + 1900) + days_before_month m3 (year3 + 1900) + mday3 =
         days_before_year (?year + 1900) + days_before_month m2 (?year + 1900) + ?mday"
      "?year \<le> year3" "year3 + max 0 mday3 \<le> ?year + max 0 ?mday"
    using mday_down_spec [OF m2(1) fits] by blast
  have fits3: "fits_int year3" "mday3 \<le> 0 \<Longrightarrow> fits_int (year3 - 1 + mday3)"
    using bounds down(4,6,7) unfolding fits_int_def by linarith+
  obtain mday4 m4 year4 where up: "mday_up mday3 (int m3) year3 = Some (True, mday4, int m4, year4)" "m4 < 12"
      "1 \<le> mday4" "mday4 \<le> the (days_per_month (int m4) (year4 + 1900))" "fits_int year4"
      "days_before_year (year4 + 1900) + days_before_month m4 (year4 + 1900) + mday4 =
         days_before_year (year3 + 1900) + days_before_month m3 (year3 + 1900) + mday3"
    using mday_up_spec [OF down(2) fits3 down(3)] by blast
  let ?tm = "tm\<lparr>tm_sec := tm_sec tm mod 60, tm_min := min_sum tm mod 60, tm_hour := hour_sum tm mod 24, tm_mday := mday4,
      tm_mon := int m4, tm_year := year4\<rparr>"
  have "normalize_entries tm = Some (True, ?tm)"
    using normalize_entries_eq [OF small, of mday3 "int m3" year3] down(1) up(1) m2(2) by simp
  moreover have "date_ok ?tm" using up by (simp add: date_ok_def clock_ok_def)
  moreover have "date_seconds ?tm = date_seconds tm"
    using up(2,6) down(5) unfolding date_seconds_sums [of tm] m2_def [symmetric]
    by (simp add: date_seconds_def Let_def add.commute [of 1900])
  ultimately show ?thesis by auto
qed

lemma timegm_date_ok:
  assumes ok: "normalize_entries tm = Some (True, tm')" "date_ok tm'"
  shows "timegm e tm = Some (date_seconds tm', e,
    tm'\<lparr>tm_yday := days_before_month (nat (tm_mon tm')) (1900 + tm_year tm') + (tm_mday tm' - 1),
        tm_wday := weekday_of (date_seconds tm' div 86400)\<rparr>)"
proof -
  let ?y = "1900 + tm_year tm'" and ?m = "nat (tm_mon tm')"
  have m: "tm_mon tm' = int ?m" "?m \<le> 12" "tm_mon tm' div 12 = 0" "tm_mon tm' mod 12 = tm_mon tm'"
    using ok(2) by (auto simp: date_ok_def)
  have clock: "0 \<le> 3600 * tm_hour tm' + 60 * tm_min tm' + tm_sec tm'" "3600 * tm_hour tm' + 60 * tm_min tm' + tm_sec tm' < 86400"
    using ok(2) by (auto simp: date_ok_def clock_ok_def)
  define days where "days = days_before_year ?y - days_before_year 1970 + days_before_month ?m ?y + (tm_mday tm' - 1)"
  have secs: "date_seconds tm' = 86400 * days + (3600 * tm_hour tm' + 60 * tm_min tm' + tm_sec tm')"
    using m(3,4) by (simp add: date_seconds_def days_def Let_def)
  have day: "date_seconds tm' div 86400 = days" using int_div_pos_eq [OF secs clock] .
  have year: "count_down (max 1970 ?y) ?y (days_before_year (max 1970 ?y) - days_before_year 1970) =
      (?y, days_before_year ?y - days_before_year 1970)"
    by (simp add: count_down_spec min_def max_def)
  have months: "count_months 0 (tm_mon tm') ?y 0 = Some (days_before_month ?m ?y)"
    using count_months_spec [of 0 ?m ?y 0] m by simp
  show ?thesis
    unfolding day unfolding secs days_def
    using ok(1) year months by (simp add: timegm_def count_up_spec)
qed

lemma clock_parts:
  fixes rest :: int
  assumes "0 \<le> rest" "rest < 86400"
  shows "0 \<le> rest mod 3600 div 60" "rest mod 3600 div 60 < 60" "0 \<le> rest div 3600" "rest div 3600 < 24"
    "3600 * (rest div 3600) + 60 * (rest mod 3600 div 60) + rest mod 3600 mod 60 = rest"
proof -
  have "rest mod 3600 < 60 * 60" by simp
  then show "0 \<le> rest mod 3600 div 60" "rest mod 3600 div 60 < 60" by (simp_all add: pos_imp_zdiv_nonneg_iff div_less_iff_less_mult)
  show "0 \<le> rest div 3600" "rest div 3600 < 24" using assms by (simp_all add: pos_imp_zdiv_nonneg_iff div_less_iff_less_mult)
  show "3600 * (rest div 3600) + 60 * (rest mod 3600 div 60) + rest mod 3600 mod 60 = rest"
    by (simp only: add.assoc mult_div_mod_eq)
qed

lemma gmtime_r_date:
  obtains year m day hour min sec where "gmtime_r t = Some \<lparr>tm_sec = sec, tm_min = min, tm_hour = hour, tm_mday = day + 1,
      tm_mon = int m, tm_year = to_int (year - 1900), tm_wday = weekday_of (t div 86400),
      tm_yday = days_before_month m year + day, tm_isdst = 0\<rparr>"
    "m < 12" "0 \<le> day" "day < the (days_per_month (int m) year)"
    "0 \<le> sec" "sec < 60" "0 \<le> min" "min < 60" "0 \<le> hour" "hour < 24"
    "t = 86400 * (days_before_year year - days_before_year 1970 + days_before_month m year + day) + (3600 * hour + 60 * min + sec)"
proof -
  obtain s1 y1 d1 where down: "year_down t 1970 0 = (s1, y1, d1)" by (cases "year_down t 1970 0")
  obtain s2 y d2 where up: "year_up s1 y1 d1 = (s2, y, d2)" by (cases "year_up s1 y1 d1")
  note d = year_down_spec [OF down]
  have s1: "0 \<le> s1" using d by simp
  note u = year_up_spec [OF up s1]
  obtain m k where month: "m < 12" "month_up y s2 0 0 d2 = Some (s2 - 86400 * k, int m, k, d2 + k)"
      "k = days_before_month m y" "0 \<le> s2 - 86400 * k" "s2 - 86400 * k < 86400 * the (days_per_month (int m) y)"
    using month_up_spec [of 0 s2 y 0 d2] u by auto
  define day rest where "day = (s2 - 86400 * k) div 86400" and "rest = (s2 - 86400 * k) mod 86400"
  have split: "s2 - 86400 * k = 86400 * day + rest" by (simp add: day_def rest_def)
  have rest: "0 \<le> rest" "rest < 86400" by (simp_all add: rest_def)
  have day: "0 \<le> day" "day < the (days_per_month (int m) y)" using month(4,5) rest split by linarith+
  have t: "t = 86400 * (days_before_year y - days_before_year 1970 + k + day) + rest" using d u split by simp
  have days: "d2 + k + day = t div 86400" using int_div_pos_eq [OF t rest] d u by simp
  note clock = clock_parts [OF rest]
  have "gmtime_r t = Some \<lparr>tm_sec = rest mod 3600 mod 60, tm_min = rest mod 3600 div 60,
      tm_hour = rest div 3600, tm_mday = day + 1, tm_mon = int m, tm_year = to_int (y - 1900),
      tm_wday = weekday_of (t div 86400), tm_yday = k + day, tm_isdst = 0\<rparr>"
    using down up month(2,4) rest
    by (simp add: gmtime_r_def sdiv_smod_nonneg day_def [symmetric] rest_def [symmetric] days)
  moreover have "t = 86400 * (days_before_year y - days_before_year 1970 + days_before_month m y + day)
      + (3600 * (rest div 3600) + 60 * (rest mod 3600 div 60) + rest mod 3600 mod 60)"
    using t month(3) unfolding clock(5) by simp
  moreover have "0 \<le> rest mod 3600 mod 60" "rest mod 3600 mod 60 < 60" by simp_all
  ultimately show ?thesis using that month(1) day clock(1-4) unfolding month(3) by blast
qed

text \<open>The first and the last second whose year fits into the field of a date.\<close>

definition TIME_MIN :: int where "TIME_MIN = - 67768040609740800"
definition TIME_MAX :: int where "TIME_MAX = 67768036191676799"

lemma year_fits:
  assumes "TIME_MIN \<le> t" "t \<le> TIME_MAX" "0 \<le> d" "d < 86400 * days_per_year y"
    "t = 86400 * (days_before_year y - days_before_year 1970) + d"
  shows "fits_int (y - 1900)"
proof -
  have edges: "86400 * (days_before_year (- 2147481748) - days_before_year 1970) = TIME_MIN"
      "86400 * (days_before_year 2147485548 - days_before_year 1970) = TIME_MAX + 1"
    by (simp_all add: days_before_year_def TIME_MIN_def TIME_MAX_def)
  have "- 2147481748 \<le> y"
  proof (rule ccontr)
    assume "\<not> - 2147481748 \<le> y"
    then have "days_before_year (y + 1) \<le> days_before_year (- 2147481748)"
      using days_before_year_mono [of "y + 1" "- 2147481748"] by simp
    moreover have "t < 86400 * (days_before_year (y + 1) - days_before_year 1970)"
      using assms(4,5) days_per_year_diff [of y] by (simp add: algebra_simps)
    ultimately show False using assms(1) edges(1) by simp
  qed
  moreover have "y < 2147485548"
  proof (rule ccontr)
    assume "\<not> y < 2147485548"
    then have "days_before_year 2147485548 \<le> days_before_year y" using days_before_year_mono [of 2147485548 y] by simp
    then show False using assms(2,3,5) edges(2) by (simp add: algebra_simps)
  qed
  ultimately show ?thesis by (simp add: fits_int_def)
qed

lemma normalize_small: "0 \<le> x \<Longrightarrow> x < n \<Longrightarrow> fits_int y \<Longrightarrow> normalize x y n = Some (True, x, y)"
  by (simp add: normalize_def sdiv_smod_nonneg Let_def)

lemma normalize_entries_ok:
  assumes "date_ok tm"
  shows "normalize_entries tm = Some (True, tm)"
proof -
  have m: "tm_mon tm = int (nat (tm_mon tm))" "nat (tm_mon tm) < 12" using assms by (auto simp: date_ok_def)
  obtain d where d: "days_per_month (tm_mon tm) (tm_year tm + 1900) = Some d"
    using days_per_month_Some [OF m(2), of "tm_year tm + 1900"] m(1) by auto
  have mday: "1 \<le> tm_mday tm" "tm_mday tm \<le> d" "d \<le> 31"
    using assms d days_per_month_bounds [OF d] by (auto simp: date_ok_def)
  have "mday_down (tm_mday tm) (tm_mon tm) (tm_year tm) = Some (True, tm_mday tm, tm_mon tm, tm_year tm)"
      "mday_up (tm_mday tm) (tm_mon tm) (tm_year tm) = Some (True, tm_mday tm, tm_mon tm, tm_year tm)"
    using d mday by (simp_all add: mday_down.simps mday_up.simps)
  moreover have "fits_int (tm_min tm)" "fits_int (tm_hour tm)" "fits_int (tm_mday tm)" "fits_int (tm_year tm)"
    using assms mday by (auto simp: date_ok_def clock_ok_def fits_int_def)
  ultimately show ?thesis
    using assms by (simp add: normalize_entries_def date_ok_def clock_ok_def normalize_small)
qed

lemma year_part:
  assumes "m < 12" "0 \<le> rest" "rest < 86400" "0 \<le> day" "day < the (days_per_month (int m) year)"
  shows "0 \<le> 86400 * (days_before_month m year + day) + rest"
    "86400 * (days_before_month m year + day) + rest < 86400 * days_per_year year"
proof -
  have "0 \<le> days_before_month m year" using days_before_month_mono [of 0 m year] assms(1) by simp
  then show "0 \<le> 86400 * (days_before_month m year + day) + rest" using assms(2,4) by simp
  have "days_before_month (Suc m) year \<le> days_per_year year"
    using days_before_month_mono [of "Suc m" 12 year] assms(1) by (simp add: days_before_month_12)
  then have "days_before_month m year + day + 1 \<le> days_per_year year" using assms(5) by simp
  then show "86400 * (days_before_month m year + day) + rest < 86400 * days_per_year year" using assms(3) by (simp add: algebra_simps)
qed

section \<open>Properties\<close>

text \<open>C35: \<^verbatim>\<open>timegm\<close> undoes \<^verbatim>\<open>gmtime_r\<close>: every time whose year an \<^verbatim>\<open>int\<close> can hold is broken down into a date with all
  fields in their ranges, and \<^verbatim>\<open>timegm\<close> of that date returns the time, leaving the date, its day of the week
  and of the year included, and \<^verbatim>\<open>errno\<close> as they were.\<close>

theorem timegm_gmtime_r:
  assumes "TIME_MIN \<le> t" "t \<le> TIME_MAX"
  shows "\<exists>tm. gmtime_r t = Some tm \<and> date_ok tm \<and> timegm e tm = Some (t, e, tm)"
proof -
  obtain year m day hour min sec where g: "gmtime_r t = Some \<lparr>tm_sec = sec, tm_min = min, tm_hour = hour,
      tm_mday = day + 1, tm_mon = int m, tm_year = to_int (year - 1900), tm_wday = weekday_of (t div 86400),
      tm_yday = days_before_month m year + day, tm_isdst = 0\<rparr>"
    and r: "m < 12" "0 \<le> day" "day < the (days_per_month (int m) year)"
    and clock: "0 \<le> sec" "sec < 60" "0 \<le> min" "min < 60" "0 \<le> hour" "hour < 24"
    and t: "t = 86400 * (days_before_year year - days_before_year 1970 + days_before_month m year + day) + (3600 * hour + 60 * min + sec)"
    by (rule gmtime_r_date)
  let ?rest = "3600 * hour + 60 * min + sec"
  let ?tm = "\<lparr>tm_sec = sec, tm_min = min, tm_hour = hour, tm_mday = day + 1, tm_mon = int m, tm_year = year - 1900,
      tm_wday = weekday_of (t div 86400), tm_yday = days_before_month m year + day, tm_isdst = 0\<rparr>"
  have rest: "0 \<le> ?rest" "?rest < 86400" using clock by linarith+
  have t': "t = 86400 * (days_before_year year - days_before_year 1970) + (86400 * (days_before_month m year + day) + ?rest)"
    using t by simp
  have year: "fits_int (year - 1900)" using year_fits [OF assms year_part [OF r(1) rest r(2,3)] t'] .
  have ok: "date_ok ?tm" using r year clock by (simp add: date_ok_def clock_ok_def)
  have secs: "date_seconds ?tm = t" using t r(1) by (simp add: date_seconds_def Let_def)
  have "timegm e ?tm = Some (t, e, ?tm)"
    using timegm_date_ok [OF normalize_entries_ok [OF ok] ok] secs by simp
  then show ?thesis using g ok to_int_fits [OF year] by auto
qed

theorem timegm_gmtime_r_witness:
  "\<exists>tm. gmtime_r 951782400 = Some tm \<and> date_ok tm \<and> timegm 0 tm = Some (951782400, 0, tm)"
  by (rule timegm_gmtime_r) (simp_all add: TIME_MIN_def TIME_MAX_def)

text \<open>C36: The value of \<^verbatim>\<open>timegm\<close> is the number of seconds that the fields mean, whether or not they are in their
  ranges, and the date it leaves is in range and means the same time; the year and the number of
  the month count by the rule of the Gregorian calendar. Fields of up to 100000000 in magnitude cause no overflow.\<close>

theorem timegm_value:
  assumes "small_fields tm"
  shows "\<exists>tm'. timegm e tm = Some (date_seconds tm, e, tm') \<and> date_ok tm' \<and> date_seconds tm' = date_seconds tm"
proof -
  obtain tm' where n: "normalize_entries tm = Some (True, tm')" "date_ok tm'" "date_seconds tm' = date_seconds tm"
    using normalize_entries_spec [OF assms] by auto
  show ?thesis
    using timegm_date_ok [OF n(1,2), of e] n(2,3) by simp
qed

definition sample_date :: tm where
  "sample_date = \<lparr>tm_sec = 75, tm_min = - 1, tm_hour = 50, tm_mday = 0, tm_mon = 14, tm_year = 98,
     tm_wday = 0, tm_yday = 0, tm_isdst = 0\<rparr>"

theorem timegm_value_witness:
  "small_fields sample_date \<and> (\<exists>tm'. timegm 0 sample_date = Some (920340015, 0, tm') \<and> date_ok tm')"
proof -
  have small: "small_fields sample_date" by (simp add: small_fields_def sample_date_def)
  have "date_seconds sample_date = 920340015"
    by (simp add: date_seconds_def sample_date_def Let_def eval_nat_numeral days_before_year_def days_per_month_def is_leap_year_def)
  then show ?thesis using timegm_value [OF small, of 0] small by auto
qed

end
