(* ===== verification/Stdlib.thy ===== *)
theory Stdlib
  imports Kstring
begin

text \<open>
  Characters and numbers in the C library: \<^verbatim>\<open>libc/src/ctype\<close> and, of \<^verbatim>\<open>libc/src/stdlib\<close>, \<^verbatim>\<open>strtox.c\<close>, the functions
  \<^verbatim>\<open>atoi\<close>, \<^verbatim>\<open>atol\<close>, \<^verbatim>\<open>atoll\<close> over it, and the small arithmetic functions. A string that is only read is the
  list of its characters; past the last one the code sees the terminating 0. The argument of a \<^verbatim>\<open>ctype\<close> function is an \<^verbatim>\<open>int\<close>, its
  result is used as a truth value only.
\<close>

section \<open>Characters\<close>

definition isdigit :: "int \<Rightarrow> bool" where "isdigit c \<longleftrightarrow> 0x30 \<le> c \<and> c \<le> 0x39"
definition islower :: "int \<Rightarrow> bool" where "islower c \<longleftrightarrow> 0x61 \<le> c \<and> c \<le> 0x7a"
definition isupper :: "int \<Rightarrow> bool" where "isupper c \<longleftrightarrow> 0x41 \<le> c \<and> c \<le> 0x5a"
definition isalpha :: "int \<Rightarrow> bool" where
  "isalpha c \<longleftrightarrow> (0x61 \<le> c \<and> c \<le> 0x7a) \<or> (0x41 \<le> c \<and> c \<le> 0x5a)"
definition isalnum :: "int \<Rightarrow> bool" where
  "isalnum c \<longleftrightarrow> (0x30 \<le> c \<and> c \<le> 0x39) \<or> (0x61 \<le> c \<and> c \<le> 0x7a) \<or> (0x41 \<le> c \<and> c \<le> 0x5a)"
definition isblank :: "int \<Rightarrow> bool" where "isblank c \<longleftrightarrow> c = 0x20 \<or> c = 0x09"
definition iscntrl :: "int \<Rightarrow> bool" where "iscntrl c \<longleftrightarrow> c \<le> 31 \<or> c = 127"
definition isgraph :: "int \<Rightarrow> bool" where "isgraph c \<longleftrightarrow> 0x20 < c \<and> c \<noteq> 127"
definition isprint :: "int \<Rightarrow> bool" where "isprint c \<longleftrightarrow> 0x20 \<le> c \<and> c \<noteq> 127 \<and> c < 255"
definition ispunct :: "int \<Rightarrow> bool" where
  "ispunct c \<longleftrightarrow> (0x21 \<le> c \<and> c \<le> 0x2f) \<or> (0x3a \<le> c \<and> c \<le> 0x40) \<or> (0x5b \<le> c \<and> c \<le> 0x60) \<or> (0x7b \<le> c \<and> c \<le> 0x7e)"
definition isspace :: "int \<Rightarrow> bool" where
  "isspace c \<longleftrightarrow> c = 0x0c \<or> c = 0x0a \<or> c = 0x0d \<or> c = 0x09 \<or> c = 0x0b \<or> c = 0x20"
definition isxdigit :: "int \<Rightarrow> bool" where
  "isxdigit c \<longleftrightarrow> (0x61 \<le> c \<and> c \<le> 0x66) \<or> (0x41 \<le> c \<and> c \<le> 0x46) \<or> (0x30 \<le> c \<and> c \<le> 0x39)"
definition toupper :: "int \<Rightarrow> int" where "toupper c = (if islower c then c - 0x61 + 0x41 else c)"
definition tolower :: "int \<Rightarrow> int" where "tolower c = (if isupper c then c - 0x41 + 0x61 else c)"

section \<open>Small arithmetic\<close>

text \<open>Signed division truncates; division by 0 and the one quotient that does not fit trap: \<open>None\<close>.\<close>

definition quot_rem :: "int \<Rightarrow> int \<Rightarrow> int \<times> int" where
  "quot_rem x y = (sgn x * sgn y * (\<bar>x\<bar> div \<bar>y\<bar>), sgn x * (\<bar>x\<bar> mod \<bar>y\<bar>))"

definition div_int :: "int \<Rightarrow> int \<Rightarrow> (int \<times> int) option" where
  "div_int x y = (if y = 0 \<or> (x = - (2 ^ 31) \<and> y = - 1) then None else Some (quot_rem x y))"

definition ldiv :: "int \<Rightarrow> int \<Rightarrow> (int \<times> int) option" where
  "ldiv x y = (if y = 0 \<or> (x = - (2 ^ 63) \<and> y = - 1) then None else Some (quot_rem x y))"

definition abs_int :: "int \<Rightarrow> int option" where
  "abs_int x = (if 0 \<le> x then Some x else if x = - (2 ^ 31) then None else Some (- x))"

definition labs :: "int \<Rightarrow> int option" where
  "labs x = (if 0 \<le> x then Some x else if x = - (2 ^ 63) then None else Some (- x))"

definition rand :: "u32 \<Rightarrow> int \<times> u32" where
  "rand seed = (let seed = seed * 1103515245 + 12345 in (uint ((seed div 65536) mod 32768), seed))"

definition srand :: "u32 \<Rightarrow> u32" where
  "srand s = s"

section \<open>Numbers from strings\<close>

definition EINVAL_libc :: int where "EINVAL_libc = 7"

text \<open>The character a pointer into a string shows.\<close>

definition peek :: "cstring \<Rightarrow> u8" where
  "peek f = (case f of [] \<Rightarrow> 0 | c # _ \<Rightarrow> c)"

definition is_valid :: "int \<Rightarrow> int \<Rightarrow> bool" where
  "is_valid base c \<longleftrightarrow>
     (if c < 0x30 then False
      else if base \<le> 10 then c < 0x30 + base
      else (0x61 \<le> c \<and> c < 0x61 + (base - 10)) \<or> (0x41 \<le> c \<and> c < 0x41 + (base - 10)) \<or> (0x30 \<le> c \<and> c \<le> 0x39))"

definition convert_digit :: "int \<Rightarrow> int" where
  "convert_digit c =
     (if 0x30 \<le> c \<and> c \<le> 0x39 then c - 0x30
      else if 0x61 \<le> c \<and> c \<le> 0x7a then c - 0x61 + 10
      else if 0x41 \<le> c \<and> c \<le> 0x5a then c - 0x41 + 10
      else 0)"

text \<open>\<^verbatim>\<open>strtox\<close>: the prefix that selects the base, and the loop over the digits in wrapping 64-bit arithmetic. The macro
  returns the value, the rest of the string if it sets \<^verbatim>\<open>endptr\<close>, and \<^verbatim>\<open>errno\<close>.\<close>

definition skip_char :: "u8 \<Rightarrow> cstring \<Rightarrow> cstring" where
  "skip_char c s = (if peek s = c then tl s else s)"

definition base_prefix :: "int \<Rightarrow> cstring \<Rightarrow> int \<times> cstring" where
  "base_prefix base s =
     (if base = 16 then (16, if peek s = 0x30 then skip_char 0x78 (tl s) else s)
      else if base = 0 then
        if peek s = 0x30 then (if peek (tl s) = 0x78 then (16, tl (tl s)) else (8, tl s)) else (10, s)
      else (base, s))"

fun digits_loop :: "int \<Rightarrow> u64 \<Rightarrow> cstring \<Rightarrow> u64 \<times> cstring" where
  "digits_loop base val [] = (val, [])"
| "digits_loop base val (c # s) =
     (if is_valid base (chr c) then digits_loop base (val * word_of_int base + word_of_int (convert_digit (chr c))) s
      else (val, c # s))"

definition strtox :: "u64 \<Rightarrow> cstring \<Rightarrow> int \<Rightarrow> int \<Rightarrow> u64 \<times> cstring option \<times> int" where
  "strtox lim nptr base errno =
     (if base < 0 \<or> base = 1 \<or> base > 36 then (lim, None, EINVAL_libc)
      else
        let s = dropWhile (\<lambda>c. isspace (chr c)) nptr;
            negative = (peek s = 0x2d);
            s = (if negative \<or> peek s = 0x2b then tl s else s);
            (base, s) = base_prefix base s;
            (val, s) = digits_loop base 0 s
        in (if negative then - val else val, Some s, errno))"

definition strtol :: "cstring \<Rightarrow> int \<Rightarrow> int \<Rightarrow> int \<times> cstring option \<times> int" where
  "strtol nptr base errno = (let (v, r) = strtox 0x7fffffffffffffff nptr base errno in (sint v, r))"

definition strtoul :: "cstring \<Rightarrow> int \<Rightarrow> int \<Rightarrow> u64 \<times> cstring option \<times> int" where
  "strtoul nptr base errno = strtox (- 1) nptr base errno"

definition atoi :: "cstring \<Rightarrow> int" where
  "atoi str = to_int (fst (strtol str 10 0))"

definition atol :: "cstring \<Rightarrow> int" where
  "atol str = fst (strtol str 10 0)"

section \<open>Digits\<close>

text \<open>The digit \<open>d\<close> of base 10 as a character, and the value of a string of digits.\<close>

definition digit_char :: "u64 \<Rightarrow> u8" where
  "digit_char d = ucast d + 0x30"

lemma digit_char_less:
  assumes "d < 10"
  shows "chr (digit_char d) = uint d + 0x30" "is_valid 10 (chr (digit_char d))" "convert_digit (chr (digit_char d)) = uint d"
    "digit_char d \<noteq> 0"
proof -
  have "unat d < 10" using assms by (simp add: word_less_nat_alt)
  then have n: "d \<in> {0, 1, 2, 3, 4, 5, 6, 7, 8, 9}"
    by (simp add: word_unat_eq_iff) presburger
  then show chr: "chr (digit_char d) = uint d + 0x30" by (auto simp: digit_char_def chr_def)
  show "is_valid 10 (chr (digit_char d))" "convert_digit (chr (digit_char d)) = uint d" "digit_char d \<noteq> 0"
    using n chr by (auto simp: is_valid_def convert_digit_def chr_def)
qed

lemma digits_loop_append:
  assumes "\<And>c. c \<in> set xs \<Longrightarrow> is_valid base (chr c)"
  shows "digits_loop base val (xs @ s) = digits_loop base (fst (digits_loop base val xs)) s" "snd (digits_loop base val xs) = []"
  using assms by (induction xs arbitrary: val) auto

end
