(* ===== verification/Printf.thy ===== *)
theory Printf
  imports Stdlib
begin

text \<open>
  Formatted output in the C library: \<^verbatim>\<open>__printf_internal\<close> of \<^verbatim>\<open>libc/src/stdio/stdio_internal.c\<close> and \<^verbatim>\<open>snprintf\<close>,
  \<^verbatim>\<open>vsnprintf\<close>, \<^verbatim>\<open>sprintf\<close>, \<^verbatim>\<open>vsprintf\<close> over it. The code hands every character to a callback; the model takes the
  callback as an argument \<open>cb\<close> on any state, and a step of the output is a pair of that state and the count
  \<^verbatim>\<open>written\<close>. The variable arguments are a list; an integer argument is its 64-bit slot, of which
  a conversion reads the low half if it has no length modifier. \<open>None\<close> is undefined behaviour: an argument that is
  missing or of the other kind, a format that ends inside a conversion, a precision that overflows or overruns the buffer of
  100 digits.
\<close>

datatype va = VInt u64 | VStr "cstring option"

section \<open>Characters out\<close>

definition put :: "('c \<Rightarrow> u8 \<Rightarrow> 'c) \<Rightarrow> u8 \<Rightarrow> 'c \<times> nat \<Rightarrow> 'c \<times> nat" where
  "put cb c st = (cb (fst st) c, snd st + 1)"

definition put_all :: "('c \<Rightarrow> u8 \<Rightarrow> 'c) \<Rightarrow> cstring \<Rightarrow> 'c \<times> nat \<Rightarrow> 'c \<times> nat" where
  "put_all cb cs st = fold (put cb) cs st"

text \<open>\<^verbatim>\<open>print_dec\<close>: the loop that counts the digits, the digits in \<^verbatim>\<open>tmp\<close>, and the padding on one side.\<close>

function dec_width :: "u64 \<Rightarrow> nat" where
  "dec_width val = (if 10 \<le> val then Suc (dec_width (val div 10)) else 1)"
  by pat_completeness auto
termination
  by (relation "measure unat") (auto simp: unat_div word_le_nat_alt intro!: div_less_dividend)

declare dec_width.simps [simp del]

fun dec_digits :: "nat \<Rightarrow> u64 \<Rightarrow> cstring" where
  "dec_digits 0 value = []"
| "dec_digits (Suc i) value = dec_digits i (value div 10) @ [digit_char (value mod 10)]"

definition print_dec ::
    "('c \<Rightarrow> u8 \<Rightarrow> 'c) \<Rightarrow> u64 \<Rightarrow> u32 \<Rightarrow> bool \<Rightarrow> bool \<Rightarrow> int \<Rightarrow> 'c \<times> nat \<Rightarrow> ('c \<times> nat) option" where
  "print_dec cb value width fill_zero align_right precision st =
     (let precision = (if precision = - 1 then 1 else precision);
          n_width = (if value = 0 then 0 else dec_width value);
          n_width = max n_width (nat precision);
          fill = replicate (unat width - n_width) (if fill_zero then 0x30 else 0x20)
      in if precision < 0 \<or> 100 < n_width then None
         else if align_right then
           if \<not> fits_int (int (unat width) - int n_width) then None
           else Some (put_all cb (fill @ dec_digits n_width value) st)
         else if \<not> fits_int (int (unat width)) then None
         else Some (put_all cb (dec_digits n_width value @ fill) st))"

text \<open>\<^verbatim>\<open>print_hex\<close>.\<close>

partial_function (option) hex_width :: "u64 \<Rightarrow> u64 \<Rightarrow> nat \<Rightarrow> nat option" where
  [code]: "hex_width value j n_width =
     (if j < value \<and> j < - 1 then hex_width value (j * 0x10 + 0x0f) (n_width + 1) else Some n_width)"

definition hex_char :: "bool \<Rightarrow> u64 \<Rightarrow> u8" where
  "hex_char caps d = (if d < 10 then ucast d + 0x30 else if caps then ucast d - 10 + 0x41 else ucast d - 10 + 0x61)"

fun hex_digits :: "bool \<Rightarrow> nat \<Rightarrow> u64 \<Rightarrow> cstring" where
  "hex_digits caps 0 value = []"
| "hex_digits caps (Suc i) value = hex_char caps (drop_bit (i * 4) value AND 0xf) # hex_digits caps i value"

definition print_hex ::
    "('c \<Rightarrow> u8 \<Rightarrow> 'c) \<Rightarrow> u64 \<Rightarrow> u32 \<Rightarrow> bool \<Rightarrow> bool \<Rightarrow> bool \<Rightarrow> bool \<Rightarrow> 'c \<times> nat \<Rightarrow> ('c \<times> nat) option" where
  "print_hex cb value width fill_zero alt caps align_right st = do {
     n_width \<leftarrow> hex_width value 0x0f 1;
     let pad = nat (to_int (uint width) - (int n_width + (if alt then 2 else 0)));
     let st = (if \<not> fill_zero \<and> align_right then put_all cb (replicate pad 0x20) st else st);
     let st = (if alt then put cb (if caps then 0x58 else 0x78) (put cb 0x30 st) else st);
     let st = (if fill_zero \<and> align_right then put_all cb (replicate pad 0x30) st else st);
     let st = put_all cb (hex_digits caps n_width value) st;
     Some (if \<not> align_right then put_all cb (replicate pad 0x20) st else st)
   }"

section \<open>Conversions\<close>

record fspec =
  fs_width :: u32
  fs_right :: bool
  fs_zero :: bool
  fs_alt :: bool
  fs_sign :: nat
  fs_precision :: int
  fs_big :: nat

definition no_flags :: fspec where
  "no_flags = \<lparr>fs_width = 0, fs_right = True, fs_zero = False, fs_alt = False, fs_sign = 0, fs_precision = - 1, fs_big = 0\<rparr>"

fun va_word :: "va list \<Rightarrow> (u64 \<times> va list) option" where
  "va_word (VInt v # args) = Some (v, args)"
| "va_word _ = None"

fun va_string :: "va list \<Rightarrow> (cstring option \<times> va list) option" where
  "va_string (VStr v # args) = Some (v, args)"
| "va_string _ = None"

fun parse_flags :: "cstring \<Rightarrow> va list \<Rightarrow> fspec \<Rightarrow> (fspec \<times> cstring \<times> va list) option" where
  "parse_flags [] args sp = Some (sp, [], args)"
| "parse_flags (c # f) args sp =
     (if c = 0x2d then parse_flags f args (sp\<lparr>fs_right := False\<rparr>)
      else if c = 0x23 then parse_flags f args (sp\<lparr>fs_alt := True\<rparr>)
      else if c = 0x2a then do { (v, args) \<leftarrow> va_word args; parse_flags f args (sp\<lparr>fs_width := ucast v\<rparr>) }
      else if c = 0x30 then parse_flags f args (sp\<lparr>fs_zero := True\<rparr>)
      else if c = 0x2b then parse_flags f args (sp\<lparr>fs_sign := 1\<rparr>)
      else if c = 0x20 then parse_flags f args (sp\<lparr>fs_sign := 2\<rparr>)
      else Some (sp, c # f, args))"

fun parse_width :: "cstring \<Rightarrow> u32 \<Rightarrow> u32 \<times> cstring" where
  "parse_width [] w = (w, [])"
| "parse_width (c # f) w = (if 0x30 \<le> c \<and> c \<le> 0x39 then parse_width f (w * 10 + ucast (c - 0x30)) else (w, c # f))"

fun precision_digits :: "cstring \<Rightarrow> int \<Rightarrow> (int \<times> cstring) option" where
  "precision_digits [] p = Some (p, [])"
| "precision_digits (c # f) p =
     (if 0x30 \<le> c \<and> c \<le> 0x39 then
        if fits_int (p * 10 + (chr c - 0x30)) then precision_digits f (p * 10 + (chr c - 0x30)) else None
      else Some (p, c # f))"

definition parse_precision :: "cstring \<Rightarrow> va list \<Rightarrow> int \<Rightarrow> (int \<times> cstring \<times> va list) option" where
  "parse_precision f args p =
     (if peek f \<noteq> 0x2e then Some (p, f, args)
      else if peek (tl f) = 0x2a then do { (v, args) \<leftarrow> va_word args; Some (sint (ucast v :: u32), tl (tl f), args) }
      else do { (p, f) \<leftarrow> precision_digits (tl f) 0; Some (p, f, args) })"

definition parse_length :: "cstring \<Rightarrow> nat \<times> cstring" where
  "parse_length f =
     (let (big, f) = (if peek f = 0x6c then if peek (tl f) = 0x6c then (2, tl (tl f)) else (1, tl f) else (0, f));
          (big, f) = (if peek f = 0x7a then (2, tl f) else (big, f))
      in if peek f = 0x74 then (2, tl f) else (big, f))"

definition parse_spec :: "cstring \<Rightarrow> va list \<Rightarrow> (fspec \<times> cstring \<times> va list) option" where
  "parse_spec f args = do {
     (sp, f, args) \<leftarrow> parse_flags f args no_flags;
     let (w, f) = parse_width f (fs_width sp);
     (p, f, args) \<leftarrow> parse_precision f args (fs_precision sp);
     let (big, f) = parse_length f;
     Some (sp\<lparr>fs_width := w, fs_precision := p, fs_big := big\<rparr>, f, args)
   }"

text \<open>The characters of a string that are printed, and the blanks behind them.\<close>

definition print_string :: "('c \<Rightarrow> u8 \<Rightarrow> 'c) \<Rightarrow> fspec \<Rightarrow> cstring \<Rightarrow> 'c \<times> nat \<Rightarrow> 'c \<times> nat" where
  "print_string cb sp s st =
     (let s = (if 0 \<le> fs_precision sp then take (nat (fs_precision sp)) s else s);
          s = (if fs_width sp \<noteq> 0 then take (unat (fs_width sp)) s else s)
      in put_all cb (s @ replicate (unat (fs_width sp) - length s) 0x20) st)"

definition signed_arg :: "nat \<Rightarrow> u64 \<Rightarrow> int" where
  "signed_arg big v = (if big = 0 then sint (ucast v :: u32) else sint v)"

definition unsigned_arg :: "nat \<Rightarrow> u64 \<Rightarrow> u64" where
  "unsigned_arg big v = (if big = 0 then ucast (ucast v :: u32) else v)"

definition print_signed :: "('c \<Rightarrow> u8 \<Rightarrow> 'c) \<Rightarrow> fspec \<Rightarrow> int \<Rightarrow> 'c \<times> nat \<Rightarrow> ('c \<times> nat) option" where
  "print_signed cb sp v st =
     (if v = - (2 ^ 63) then None
      else
        let st = (if v < 0 then put cb 0x2d st
                  else if fs_sign sp \<noteq> 0 then put cb (if fs_sign sp = 2 then 0x20 else 0x2b) st else st)
        in print_dec cb (word_of_int \<bar>v\<bar>) (fs_width sp) (fs_zero sp) (fs_right sp) (fs_precision sp) st)"

text \<open>One conversion; the first result is false where the code returns early.\<close>

definition convert ::
    "('c \<Rightarrow> u8 \<Rightarrow> 'c) \<Rightarrow> u8 \<Rightarrow> fspec \<Rightarrow> va list \<Rightarrow> 'c \<times> nat \<Rightarrow> (bool \<times> va list \<times> 'c \<times> nat) option" where
  "convert cb k sp args st =
     (if k = 0x73 then
        if fs_big sp \<noteq> 0 then Some (False, args, st)
        else do {
          (s, args) \<leftarrow> va_string args;
          Some (True, args, print_string cb sp (case s of None \<Rightarrow> lit ''(null)'' | Some s \<Rightarrow> s) st)
        }
      else if k = 0x63 then do { (v, args) \<leftarrow> va_word args; Some (True, args, cb (fst st) (ucast v), snd st) }
      else if k = 0x70 \<or> k = 0x58 \<or> k = 0x78 then do {
        let sp = (if k = 0x70 then sp\<lparr>fs_alt := True, fs_big := 2\<rparr> else sp);
        (v, args) \<leftarrow> va_word args;
        st \<leftarrow> print_hex cb (unsigned_arg (fs_big sp) v) (fs_width sp) (fs_zero sp) (fs_alt sp) (k AND 32 = 0) (fs_right sp) st;
        Some (True, args, st)
      }
      else if k = 0x69 \<or> k = 0x64 then do {
        (v, args) \<leftarrow> va_word args;
        st \<leftarrow> print_signed cb sp (signed_arg (fs_big sp) v) st;
        Some (True, args, st)
      }
      else if k = 0x75 then do {
        (v, args) \<leftarrow> va_word args;
        st \<leftarrow> print_dec cb (unsigned_arg (fs_big sp) v) (fs_width sp) (fs_zero sp) (fs_right sp) (fs_precision sp) st;
        Some (True, args, st)
      }
      else Some (True, args, put cb k st))"

section \<open>The loop over the format\<close>

lemma parse_flags_length: "parse_flags f args sp = Some (sp', f', args') \<Longrightarrow> length f' \<le> length f"
  by (induction f args sp rule: parse_flags.induct)
    (auto split: if_splits bind_splits simp: le_Suc_eq bind_eq_Some_conv)

lemma parse_width_length: "length (snd (parse_width f w)) \<le> length f"
  by (induction f w rule: parse_width.induct) auto

lemma precision_digits_length: "precision_digits f p = Some (p', f') \<Longrightarrow> length f' \<le> length f"
  by (induction f p rule: precision_digits.induct) (auto split: if_splits)

lemma parse_precision_length: "parse_precision f args p = Some (p', f', args') \<Longrightarrow> length f' \<le> length f"
  by (auto simp: parse_precision_def bind_eq_Some_conv split: if_splits dest!: precision_digits_length)

lemma parse_length_length: "length (snd (parse_length f)) \<le> length f"
  by (simp add: parse_length_def Let_def)

lemma parse_spec_length:
  assumes "parse_spec f args = Some (sp, f', args')"
  shows "length f' \<le> length f"
proof -
  obtain sp1 f1 a1 where 1: "parse_flags f args no_flags = Some (sp1, f1, a1)"
    using assms by (auto simp: parse_spec_def bind_eq_Some_conv)
  obtain w f2 where 2: "parse_width f1 (fs_width sp1) = (w, f2)" by (cases "parse_width f1 (fs_width sp1)")
  obtain p f3 a3 where 3: "parse_precision f2 a1 (fs_precision sp1) = Some (p, f3, a3)"
    using assms 1 2 by (auto simp: parse_spec_def bind_eq_Some_conv)
  have "f' = snd (parse_length f3)" using assms 1 2 3 by (auto simp: parse_spec_def split: prod.splits)
  then show ?thesis
    using parse_flags_length [OF 1] parse_width_length [of f1 "fs_width sp1"] parse_precision_length [OF 3]
      parse_length_length [of f3] 2 by simp
qed

function printf_loop ::
    "('c \<Rightarrow> u8 \<Rightarrow> 'c) \<Rightarrow> cstring \<Rightarrow> va list \<Rightarrow> 'c \<times> nat \<Rightarrow> ('c \<times> nat) option" where
  "printf_loop cb [] args st = Some st"
| "printf_loop cb (c # f) args st =
     (if c \<noteq> 0x25 then printf_loop cb f args (put cb c st)
      else
        case parse_spec f args of
          None \<Rightarrow> None
        | Some (sp, f', args) \<Rightarrow>
            (case f' of
               [] \<Rightarrow> None
             | k # f \<Rightarrow>
                 (case convert cb k sp args st of
                    None \<Rightarrow> None
                  | Some (go_on, args, st) \<Rightarrow> if go_on then printf_loop cb f args st else Some st)))"
  by pat_completeness auto
termination
  by (relation "measure (\<lambda>(_, f, _). length f)") (auto dest: parse_spec_length)

definition printf_internal :: "('c \<Rightarrow> u8 \<Rightarrow> 'c) \<Rightarrow> 'c \<Rightarrow> cstring \<Rightarrow> va list \<Rightarrow> (int \<times> 'c) option" where
  "printf_internal cb cd fmt args = do { (cd, written) \<leftarrow> printf_loop cb fmt args (cd, 0); Some (to_int (int written), cd) }"

section \<open>Output into memory\<close>

record sbuf =
  sb_mem :: mem
  sb_str :: nat
  sb_size :: u64
  sb_written :: u64

definition store_char :: "u8 \<Rightarrow> sbuf \<Rightarrow> sbuf" where
  "store_char c cd = cd\<lparr>sb_mem := (sb_mem cd)(sb_str cd + unat (sb_written cd) := c)\<rparr>"

definition sprintf_callback :: "sbuf \<Rightarrow> u8 \<Rightarrow> sbuf" where
  "sprintf_callback cd c = (store_char c cd)\<lparr>sb_written := sb_written cd + 1\<rparr>"

definition snprintf_callback :: "sbuf \<Rightarrow> u8 \<Rightarrow> sbuf" where
  "snprintf_callback cd c =
     (if sb_written cd + 1 < sb_size cd then
        let cd = (store_char c cd)\<lparr>sb_written := sb_written cd + 1\<rparr>
        in if sb_written cd < sb_size cd then store_char 0 cd else cd
      else cd)"

definition vsnprintf :: "nat \<Rightarrow> u64 \<Rightarrow> cstring \<Rightarrow> va list \<Rightarrow> mem \<Rightarrow> (int \<times> mem) option" where
  "vsnprintf str bsize fmt args m = do {
     (r, cd) \<leftarrow> printf_internal snprintf_callback \<lparr>sb_mem = m, sb_str = str, sb_size = bsize, sb_written = 0\<rparr> fmt args;
     Some (r, sb_mem cd)
   }"

definition vsprintf :: "nat \<Rightarrow> cstring \<Rightarrow> va list \<Rightarrow> mem \<Rightarrow> (int \<times> mem) option" where
  "vsprintf str fmt args m = do {
     (r, cd) \<leftarrow> printf_internal sprintf_callback \<lparr>sb_mem = m, sb_str = str, sb_size = 0, sb_written = 0\<rparr> fmt args;
     Some (r, sb_mem cd)
   }"

definition snprintf :: "nat \<Rightarrow> u64 \<Rightarrow> cstring \<Rightarrow> va list \<Rightarrow> mem \<Rightarrow> (int \<times> mem) option" where
  "snprintf str bsize fmt args m = vsnprintf str bsize fmt args m"

definition sprintf :: "nat \<Rightarrow> cstring \<Rightarrow> va list \<Rightarrow> mem \<Rightarrow> (int \<times> mem) option" where
  "sprintf str fmt args m = vsprintf str fmt args m"

section \<open>Output as a list\<close>

text \<open>With a callback that collects the characters, the state of any other callback is a fold over them.\<close>

definition collect :: "cstring \<Rightarrow> u8 \<Rightarrow> cstring" where
  "collect out c = out @ [c]"

definition lift_out :: "('c \<Rightarrow> u8 \<Rightarrow> 'c) \<Rightarrow> 'c \<Rightarrow> cstring \<times> nat \<Rightarrow> 'c \<times> nat" where
  "lift_out cb cd st = (foldl cb cd (fst st), snd st)"

lemma put_lift: "put cb c (lift_out cb cd st) = lift_out cb cd (put collect c st)"
  by (simp add: put_def lift_out_def collect_def)

lemma put_all_lift: "put_all cb cs (lift_out cb cd st) = lift_out cb cd (put_all collect cs st)"
  by (induction cs arbitrary: st) (simp_all add: put_all_def put_lift)

lemma print_dec_lift:
  "print_dec cb v w z r p (lift_out cb cd st) = map_option (lift_out cb cd) (print_dec collect v w z r p st)"
  by (simp add: print_dec_def put_all_lift Let_def)

lemma print_hex_lift:
  "print_hex cb v w z a c r (lift_out cb cd st) = map_option (lift_out cb cd) (print_hex collect v w z a c r st)"
  by (cases "hex_width v 0x0f 1") (simp_all add: print_hex_def put_all_lift put_lift Let_def)

lemma print_signed_lift:
  "print_signed cb sp v (lift_out cb cd st) = map_option (lift_out cb cd) (print_signed collect sp v st)"
  by (simp add: print_signed_def print_dec_lift put_lift Let_def)

lemma convert_lift:
  "convert cb k sp args (lift_out cb cd st) =
     map_option (\<lambda>(go_on, args, st). (go_on, args, lift_out cb cd st)) (convert collect k sp args st)"
proof -
  have char: "(cb (fst (lift_out cb cd st)) c, snd (lift_out cb cd st)) = lift_out cb cd (collect (fst st) c, snd st)" for c
    by (simp add: lift_out_def collect_def)
  have string: "print_string cb sp s (lift_out cb cd st) = lift_out cb cd (print_string collect sp s st)" for s
    by (simp add: print_string_def put_all_lift Let_def)
  show ?thesis
    by (cases "va_word args"; cases "va_string args")
      (auto simp: convert_def char string put_lift print_hex_lift print_signed_lift print_dec_lift Let_def map_option_bind
        option.map_comp comp_def split_beta bind_map_option)
qed

lemma printf_loop_lift:
  "printf_loop cb f args (lift_out cb cd st) = map_option (lift_out cb cd) (printf_loop collect f args st)"
proof (induction collect f args st rule: printf_loop.induct)
  case (2 c f args st)
  show ?case
  proof (cases "c = 0x25")
    case False
    then show ?thesis using 2(1) by (simp add: put_lift)
  next
    case True
    then show ?thesis
      using 2(2) by (auto simp: convert_lift split: option.splits list.splits prod.splits)
  qed
qed simp

lemma printf_internal_fold:
  assumes "printf_internal collect [] fmt args = Some (r, out)"
  shows "printf_internal cb cd fmt args = Some (r, foldl cb cd out)"
proof -
  obtain w where "printf_loop collect fmt args ([], 0) = Some (out, w)" "r = to_int (int w)"
    using assms by (auto simp: printf_internal_def bind_eq_Some_conv)
  then show ?thesis
    using printf_loop_lift [of cb fmt args cd "([], 0)"] by (simp add: printf_internal_def lift_out_def)
qed

text \<open>What \<^verbatim>\<open>snprintf\<close> leaves in memory: the characters that fit, with a 0 behind them if there is one.\<close>

definition stored :: "nat \<Rightarrow> nat \<Rightarrow> cstring \<Rightarrow> mem \<Rightarrow> mem" where
  "stored str room out m =
     (let n = min (length out) (room - 1) in
      (\<lambda>a. if str \<le> a \<and> a < str + n then out ! (a - str) else if a = str + n \<and> 0 < n then 0 else m a))"

lemma snprintf_fold:
  "foldl snprintf_callback \<lparr>sb_mem = m, sb_str = str, sb_size = bsize, sb_written = 0\<rparr> out =
     \<lparr>sb_mem = stored str (unat bsize) out m, sb_str = str, sb_size = bsize, sb_written = of_nat (min (length out) (unat bsize - 1))\<rparr>"
proof (induction out rule: rev_induct)
  case Nil
  show ?case by (auto simp: stored_def fun_eq_iff)
next
  case (snoc c out)
  let ?n = "min (length out) (unat bsize - 1)"
  have lt: "?n + 1 < 2 ^ 64" using unat_lt_64 [of bsize] by (simp add: min_def) linarith
  have n: "unat (of_nat ?n :: u64) = ?n" "unat (of_nat ?n + 1 :: u64) = ?n + 1"
    using lt unat_of_nat_u64 [of ?n] unat_of_nat_u64 [of "?n + 1"] by (simp_all add: add.commute)
  show ?case
  proof (cases "?n + 1 < unat bsize")
    case True
    then have full: "min (length (out @ [c])) (unat bsize - 1) = Suc ?n" "?n = length out" by auto
    have w: "of_nat ?n + 1 < bsize" using True n by (simp add: word_less_nat_alt)
    show ?thesis
      unfolding foldl_append snoc foldl.simps
      using w n full by (auto simp: snprintf_callback_def store_char_def stored_def Let_def nth_append fun_eq_iff add.commute)
  next
    case False
    then have "min (length (out @ [c])) (unat bsize - 1) = ?n" "\<not> of_nat ?n + 1 < bsize" "?n \<le> length out"
      using n by (auto simp: word_less_nat_alt)
    then show ?thesis
      unfolding foldl_append snoc foldl.simps
      by (auto simp: snprintf_callback_def stored_def Let_def nth_append fun_eq_iff)
  qed
qed

lemma vsnprintf_stores:
  assumes "printf_internal collect [] fmt args = Some (r, out)"
  shows "vsnprintf str bsize fmt args m = Some (r, stored str (unat bsize) out m)"
  using printf_internal_fold [OF assms, of snprintf_callback] by (simp add: vsnprintf_def snprintf_fold)

lemma stored_cstr:
  assumes "0 \<notin> set out" "out \<noteq> []" "length out < room"
  shows "cstr (stored str room out m) str out"
  using assms by (auto simp: cstr_def stored_def Let_def min_def)

section \<open>Decimal numbers\<close>

lemma dec_width_bound: "unat v < 10 ^ dec_width v"
proof (induction v rule: dec_width.induct)
  case (1 v)
  show ?case
  proof (cases "10 \<le> v")
    case True
    then have "unat v div 10 < 10 ^ dec_width (v div 10)" using 1 by (simp add: unat_div)
    then show ?thesis using True by (simp add: dec_width.simps [of v] div_less_iff_less_mult mult.commute)
  next
    case False
    then show ?thesis by (simp add: dec_width.simps [of v] word_le_nat_alt)
  qed
qed

lemma dec_width_le: "unat v < 10 ^ Suc k \<Longrightarrow> dec_width v \<le> Suc k"
proof (induction k arbitrary: v)
  case 0
  then show ?case by (simp add: dec_width.simps [of v] word_le_nat_alt)
next
  case (Suc k)
  then have "unat (v div 10) < 10 ^ Suc k" by (simp add: unat_div div_less_iff_less_mult mult.commute)
  then show ?case using Suc.IH [of "v div 10"] by (simp add: dec_width.simps [of v])
qed

lemma dec_width_20: "dec_width v \<le> 20"
  using dec_width_le [of v 19] unat_lt_64 [of v] by simp

lemma word_mod_10: "(v :: u64) mod 10 < 10"
  by (simp add: word_less_nat_alt unat_mod)

lemma dec_digits_valid: "c \<in> set (dec_digits n v) \<Longrightarrow> is_valid 10 (chr c) \<and> c \<noteq> 0"
  by (induction n arbitrary: v) (auto simp: digit_char_less(2,4) [OF word_mod_10])

lemma length_dec_digits [simp]: "length (dec_digits n v) = n"
  by (induction n arbitrary: v) auto

lemma digits_loop_dec_digits: "unat v < 10 ^ n \<Longrightarrow> digits_loop 10 0 (dec_digits n v) = (v, [])"
proof (induction n arbitrary: v)
  case 0
  then show ?case by (simp add: unat_eq_zero)
next
  case (Suc n)
  then have "unat (v div 10) < 10 ^ n" by (simp add: unat_div div_less_iff_less_mult mult.commute)
  note ih = Suc.IH [OF this]
  have "word_of_int (uint (v mod 10)) = v mod 10" by simp
  moreover have "v div 10 * 10 + v mod 10 = v" by (rule div_mult_mod_eq)
  ultimately show ?case
    using ih dec_digits_valid [of _ n "v div 10"] digit_char_less [OF word_mod_10, of v]
    by (simp add: digits_loop_append)
qed

text \<open>The characters \<^verbatim>\<open>printf\<close> produces for a signed number without flags.\<close>

definition decimal :: "int \<Rightarrow> cstring" where
  "decimal v = (let n = word_of_int \<bar>v\<bar> in (if v < 0 then [0x2d] else []) @ dec_digits (if n = 0 then 1 else dec_width n) n)"

lemma put_all_collect: "put_all collect cs (out, w) = (out @ cs, w + length cs)"
  by (induction cs arbitrary: out w) (simp_all add: put_all_def put_def collect_def)

lemma max_dec_width: "max (dec_width v) (Suc 0) = dec_width v"
  by (simp add: dec_width.simps [of v])

lemma print_signed_decimal:
  assumes "- (2 ^ 63) < v"
  shows "print_signed collect (no_flags\<lparr>fs_big := big\<rparr>) v ([], 0) = Some (decimal v, length (decimal v))"
proof -
  have "\<not> 100 < dec_width x" "dec_width x \<le> 2147483648" for x using dec_width_20 [of x] by simp_all
  then show ?thesis
    using assms
    by (auto simp: print_signed_def no_flags_def print_dec_def decimal_def put_def put_all_collect collect_def Let_def
        fits_int_def max_dec_width)
qed

lemma decimal_chars: "c \<in> set (decimal v) \<Longrightarrow> (c = 0x2d \<or> is_valid 10 (chr c)) \<and> c \<noteq> 0"
  using dec_digits_valid by (auto simp: decimal_def Let_def split: if_splits simp del: dec_digits.simps)

lemma decimal_first: "peek (decimal v) = 0x2d \<longleftrightarrow> v < 0" "peek (decimal v) \<noteq> 0x2b" "decimal v \<noteq> []"
  "dropWhile (\<lambda>c. isspace (chr c)) (decimal v) = decimal v"
proof -
  let ?n = "word_of_int \<bar>v\<bar> :: u64"
  let ?k = "if ?n = 0 then 1 else dec_width ?n"
  have "0 < ?k" by (simp add: dec_width.simps [of ?n])
  then obtain c cs where d: "dec_digits ?k ?n = c # cs" by (cases "dec_digits ?k ?n") (metis length_dec_digits list.size(3) less_irrefl)
  then have "is_valid 10 (chr c)" using dec_digits_valid [of c ?k ?n] by simp
  then have c: "c \<noteq> 0x2d" "c \<noteq> 0x2b" "\<not> isspace (chr c)" by (auto simp: is_valid_def chr_def isspace_def)
  have eq: "decimal v = (if v < 0 then 0x2d # c # cs else c # cs)" using d by (simp add: decimal_def Let_def)
  show "peek (decimal v) = 0x2d \<longleftrightarrow> v < 0" "peek (decimal v) \<noteq> 0x2b" "decimal v \<noteq> []"
    "dropWhile (\<lambda>c. isspace (chr c)) (decimal v) = decimal v"
    unfolding eq using c by (auto simp: peek_def isspace_def chr_def)
qed

lemma strtol_decimal:
  assumes "- (2 ^ 63) < v" "v < 2 ^ 63"
  shows "strtol (decimal v) 10 e = (v, Some [], e)"
proof -
  let ?n = "word_of_int \<bar>v\<bar> :: u64"
  let ?k = "if ?n = 0 then 1 else dec_width ?n"
  have "unat ?n < 10 ^ ?k" using dec_width_bound [of ?n] by (cases "?n = 0") simp_all
  then have loop: "digits_loop 10 0 (dec_digits ?k ?n) = (?n, [])" by (rule digits_loop_dec_digits)
  have rest: "(if v < 0 then tl (decimal v) else decimal v) = dec_digits ?k ?n" by (simp add: decimal_def Let_def)
  have "strtox 0x7fffffffffffffff (decimal v) 10 e = (if v < 0 then - ?n else ?n, Some [], e)"
    using loop rest unfolding strtox_def decimal_first(4) Let_def
    by (simp add: decimal_first(1,2) base_prefix_def del: of_int_abs abs_if)
  moreover have "(if v < 0 then - ?n else ?n) = word_of_int v" by simp
  moreover have "sint (word_of_int v :: u64) = v" using assms by (simp add: sint_sbintrunc' signed_take_bit_int_eq_self)
  ultimately show ?thesis by (simp add: strtol_def)
qed

section \<open>Properties\<close>

text \<open>C37: numbers survive printing and reading. For a 64-bit number other than the smallest, \<^verbatim>\<open>snprintf\<close> with \<^verbatim>\<open>%ld\<close>
  into a buffer of at least 22 bytes returns the number of characters and leaves a terminated
  string of that length at the buffer, changing nothing else, and \<^verbatim>\<open>strtol\<close> in base 10 returns the
  number from the whole string.\<close>

theorem snprintf_strtol:
  assumes "sint v \<noteq> - (2 ^ 63)" "22 \<le> bsize"
  shows "\<exists>s m'. snprintf str bsize (lit ''%ld'') [VInt v] m = Some (int (length s), m') \<and> cstr m' str s \<and>
    (\<forall>a. a < str \<or> str + length s < a \<longrightarrow> m' a = m a) \<and> strtol s 10 e = (sint v, Some [], e)"
proof -
  let ?s = "decimal (sint v)"
  have v: "- (2 ^ 63) < sint v" "sint v < 2 ^ 63"
    using assms(1) sint_ge [of v] sint_lt [of v] by (simp_all add: less_le)
  have len: "length ?s \<le> 21" by (auto simp: decimal_def Let_def dec_width_20 intro: order_trans [OF dec_width_20])
  have "parse_spec [0x6c, 0x64] [VInt v] = Some (no_flags\<lparr>fs_big := 1\<rparr>, [0x64], [VInt v])"
    by (simp add: parse_spec_def parse_precision_def parse_length_def peek_def no_flags_def)
  moreover have "print_signed collect (no_flags\<lparr>fs_big := 1\<rparr>) (sint v) ([], 0) = Some (?s, length ?s)"
    by (rule print_signed_decimal [OF v(1)])
  ultimately have "printf_internal collect [] (lit ''%ld'') [VInt v] = Some (int (length ?s), ?s)"
    using len by (simp add: printf_internal_def lit_def convert_def signed_arg_def no_flags_def to_int_fits fits_int_def)
  then have run: "snprintf str bsize (lit ''%ld'') [VInt v] m = Some (int (length ?s), stored str (unat bsize) ?s m)"
    by (simp add: snprintf_def vsnprintf_stores)
  have room: "length ?s < unat bsize" using len assms(2) by (simp add: word_le_nat_alt)
  have "0 \<notin> set ?s" using decimal_chars by blast
  then have str: "cstr (stored str (unat bsize) ?s m) str ?s" using stored_cstr room decimal_first(3) by blast
  have "\<forall>a. a < str \<or> str + length ?s < a \<longrightarrow> stored str (unat bsize) ?s m a = m a"
    using room by (auto simp: stored_def Let_def min_def)
  then show ?thesis using run str strtol_decimal [OF v] by blast
qed

theorem snprintf_strtol_witness:
  "\<exists>s m'. snprintf 8 32 (lit ''%ld'') [VInt (- 1234)] (\<lambda>_. 7) = Some (int (length s), m') \<and> cstr m' 8 s \<and>
    (\<forall>a. a < 8 \<or> 8 + length s < a \<longrightarrow> m' a = 7) \<and> strtol s 10 0 = (- 1234, Some [], 0)"
  using snprintf_strtol [of "- 1234" 32 8 "\<lambda>_. 7" 0] by simp

end
