(* ===== verification/Strftime.thy ===== *)
theory Strftime
  imports Calendar Printf
begin

text \<open>
  Dates as text: \<^verbatim>\<open>libc/src/time/strftime.c\<close>. Each conversion is one call of \<^verbatim>\<open>snprintf\<close> at the current place of the
  buffer, with the format and the arguments of \<open>strftime_conv\<close>; a conversion the code does not know makes
  no call. \<^verbatim>\<open>%s\<close> runs \<^verbatim>\<open>mktime\<close> on the date itself, so the date and \<^verbatim>\<open>errno\<close> are part of the result. \<open>None\<close> is a name
  looked up outside its table, a signed overflow, or a format that ends after a percent sign.
\<close>

definition abvdays :: "cstring list" where
  "abvdays = map lit [''Sun'', ''Mon'', ''Tue'', ''Wed'', ''Thu'', ''Fri'', ''Sat'']"

definition day_names :: "cstring list" where
  "day_names = map lit [''Sunday'', ''Monday'', ''Tuesday'', ''Wednesday'', ''Thursday'', ''Friday'', ''Saturday'']"

definition abvmonths :: "cstring list" where
  "abvmonths = map lit [''Jan'', ''Feb'', ''Mar'', ''Apr'', ''May'', ''Jun'', ''Jul'', ''Aug'', ''Sep'', ''Oct'', ''Nov'', ''Dec'']"

definition month_names :: "cstring list" where
  "month_names = map lit [''January'', ''February'', ''March'', ''April'', ''May'', ''June'', ''July'', ''August'',
     ''September'', ''October'', ''November'', ''December'']"

definition name_at :: "cstring list \<Rightarrow> int \<Rightarrow> va option" where
  "name_at names i = (if 0 \<le> i \<and> i < int (length names) then Some (VStr (Some (names ! nat i))) else None)"

definition int_va :: "int \<Rightarrow> va option" where
  "int_va x = (if fits_int x then Some (VInt (word_of_int x)) else None)"

definition hour12 :: "tm \<Rightarrow> int" where
  "hour12 tm = (if tm_hour tm = 0 then 12 else if tm_hour tm = 12 then 12 else tm_hour tm smod 12)"

text \<open>The arguments of a call, all of which must be defined.\<close>

fun all_args :: "va option list \<Rightarrow> va list option" where
  "all_args [] = Some []"
| "all_args (x # xs) = do { v \<leftarrow> x; vs \<leftarrow> all_args xs; Some (v # vs) }"

definition call :: "string \<Rightarrow> va option list \<Rightarrow> tm \<Rightarrow> int \<Rightarrow> ((cstring \<times> va list) option \<times> tm \<times> int) option" where
  "call fmt xs tm errno = do { args \<leftarrow> all_args xs; Some (Some (lit fmt, args), tm, errno) }"

definition text_va :: "string \<Rightarrow> va option" where
  "text_va s = Some (VStr (Some (lit s)))"

definition strftime_conv :: "u8 \<Rightarrow> tm \<Rightarrow> int \<Rightarrow> ((cstring \<times> va list) option \<times> tm \<times> int) option" where
  "strftime_conv k tm e =
     (let year = int_va (tm_year tm + 1900); mon = int_va (tm_mon tm + 1); mday = int_va (tm_mday tm);
          hour = int_va (tm_hour tm); min = int_va (tm_min tm); sec = int_va (tm_sec tm);
          yy = int_va (tm_year tm smod 100)
      in if k = 0x61 then call ''%s'' [name_at abvdays (tm_wday tm)] tm e
         else if k = 0x41 then call ''%s'' [name_at day_names (tm_wday tm)] tm e
         else if k = 0x68 \<or> k = 0x62 then call ''%s'' [name_at abvmonths (tm_mon tm)] tm e
         else if k = 0x42 then call ''%s'' [name_at month_names (tm_mon tm)] tm e
         else if k = 0x63 then call ''%s %s %02d %02d:%02d:%02d %04d''
             [name_at abvdays (tm_wday tm), name_at abvmonths (tm_mon tm), mday, hour, min, sec, year] tm e
         else if k = 0x43 then do { _ \<leftarrow> year; call ''%02d'' [int_va ((tm_year tm + 1900) sdiv 100)] tm e }
         else if k = 0x64 then call ''%02d'' [mday] tm e
         else if k = 0x44 \<or> k = 0x78 then call ''%02d/%02d/%02d'' [mon, mday, yy] tm e
         else if k = 0x65 then call ''%2d'' [mday] tm e
         else if k = 0x46 then call ''%04d-%02d-%02d'' [year, mon, mday] tm e
         else if k = 0x48 then call ''%02d'' [hour] tm e
         else if k = 0x49 then call ''%02d'' [int_va (hour12 tm)] tm e
         else if k = 0x6a then call ''%03d'' [int_va (tm_yday tm)] tm e
         else if k = 0x6b then call ''%2d'' [hour] tm e
         else if k = 0x6c then call ''%2d'' [int_va (hour12 tm)] tm e
         else if k = 0x6d then call ''%02d'' [mon] tm e
         else if k = 0x4d then call ''%02d'' [min] tm e
         else if k = 0x6e then Some (Some ([0x0a], []), tm, e)
         else if k = 0x70 then call ''%s'' [text_va (if tm_hour tm < 12 then ''AM'' else ''PM'')] tm e
         else if k = 0x50 then call ''%s'' [text_va (if tm_hour tm < 12 then ''am'' else ''pm'')] tm e
         else if k = 0x72 then call ''%02d:%02d:%02d %s''
             [int_va (hour12 tm), min, sec, text_va (if tm_hour tm < 12 then ''AM'' else ''PM'')] tm e
         else if k = 0x52 then call ''%02d:%02d'' [hour, min] tm e
         else if k = 0x73 then do { (t, e, tm) \<leftarrow> mktime e tm; call ''%ld'' [Some (VInt (word_of_int t))] tm e }
         else if k = 0x53 then call ''%02d'' [sec] tm e
         else if k = 0x74 then Some (Some ([0x09], []), tm, e)
         else if k = 0x54 \<or> k = 0x58 then call ''%02d:%02d:%02d'' [hour, min, sec] tm e
         else if k = 0x75 then call ''%d'' [int_va (if tm_wday tm = 0 then 7 else tm_wday tm)] tm e
         else if k = 0x77 then call ''%d'' [int_va (tm_wday tm)] tm e
         else if k = 0x79 then call ''%02d'' [yy] tm e
         else if k = 0x59 then call ''%04d'' [year] tm e
         else if k = 0x25 then call ''%c'' [Some (VInt 0x25)] tm e
         else if k \<in> {0x7a, 0x5a, 0x56, 0x57, 0x55, 0x47, 0x67} then call ''%c unsupported'' [Some (VInt (ucast k))] tm e
         else Some (None, tm, e))"

text \<open>The loop over the format; \<open>b\<close> is the place in the buffer and \<open>n\<close> the room left. The result is the
  place where the text ends, or 0 where the code gives up, with the memory, the date and \<^verbatim>\<open>errno\<close>.\<close>

fun strftime_loop ::
    "cstring \<Rightarrow> nat \<Rightarrow> u64 \<Rightarrow> tm \<Rightarrow> int \<Rightarrow> mem \<Rightarrow> (nat option \<times> mem \<times> tm \<times> int) option" where
  "strftime_loop [] b n tm e m = Some (Some b, m(b := 0), tm, e)"
| "strftime_loop (c # f) b n tm e m =
     (if c \<noteq> 0x25 then
        if n = 0 then Some (None, m, tm, e) else strftime_loop f (Suc b) (n - 1) tm e (m(b := c))
      else
        case f of
          [] \<Rightarrow> None
        | k # f \<Rightarrow> do {
            (cl, tm, e) \<leftarrow> strftime_conv k tm e;
            (w, m) \<leftarrow> (case cl of None \<Rightarrow> Some (0, m) | Some (fmt, args) \<Rightarrow> snprintf b n fmt args m);
            if w < 0 \<or> n \<le> word_of_int w then Some (None, m, tm, e)
            else strftime_loop f (b + nat w) (n - word_of_int w) tm e m
          })"

definition strftime :: "nat \<Rightarrow> u64 \<Rightarrow> cstring \<Rightarrow> tm \<Rightarrow> int \<Rightarrow> mem \<Rightarrow> (nat \<times> mem \<times> tm \<times> int) option" where
  "strftime buffer bsize fmt tm errno m = do {
     (b, m, tm, errno) \<leftarrow> strftime_loop fmt buffer bsize tm errno m;
     Some (case b of None \<Rightarrow> 0 | Some b \<Rightarrow> b - buffer, m, tm, errno)
   }"

section \<open>Fixed-width numbers\<close>

lemma dec_digits_pad: "unat v < 10 ^ n \<Longrightarrow> dec_digits (n + k) v = replicate k 0x30 @ dec_digits n v"
proof (induction n arbitrary: v)
  case 0
  then have "v = 0" by (simp add: unat_eq_zero)
  then show ?case by (induction k) (simp_all add: digit_char_def replicate_append_same)
next
  case (Suc n)
  then have "unat (v div 10) < 10 ^ n" by (simp add: unat_div div_less_iff_less_mult mult.commute)
  then show ?case using Suc.IH [of "v div 10"] by simp
qed

text \<open>A number with a width and zeros in front takes exactly that many digits, if it has no more.\<close>

lemma print_dec_zeros:
  assumes "unat v < 10 ^ w" "0 < w" "w \<le> 19"
  shows "print_dec collect v (of_nat w) True True (- 1) (out, n) = Some (out @ dec_digits w v, n + w)"
proof -
  obtain k where w: "w = Suc k" using assms(2) by (cases w) auto
  let ?n = "max (if v = 0 then 0 else dec_width v) 1"
  have n: "?n \<le> w" using dec_width_le [of v k] assms w by auto
  have bound: "unat v < 10 ^ ?n"
    using dec_width_bound [of v] by (cases "v = 0") (simp_all add: max_dec_width)
  have width: "unat (of_nat w :: u32) = w" using assms(3) by (simp add: unat_of_nat take_bit_nat_eq_self)
  have "replicate (w - ?n) 0x30 @ dec_digits ?n v = dec_digits w v"
    using dec_digits_pad [OF bound, of "w - ?n"] n by simp
  moreover have "\<not> 100 < ?n" using n assms(3) by linarith
  ultimately show ?thesis
    using n assms(3) width by (simp add: print_dec_def put_all_collect Let_def fits_int_def)
qed

lemma signed_arg_word:
  assumes "0 \<le> x" "x < 10000"
  shows "signed_arg 0 (word_of_int x) = x" "unat (word_of_int x :: u64) = nat x"
proof -
  have "sint (word_of_int x :: u32) = x"
    using assms by (simp add: sint_sbintrunc' signed_take_bit_int_eq_self)
  moreover have "(ucast (word_of_int x :: u64) :: u32) = word_of_int x"
    using assms by (simp add: unsigned_of_int take_bit_int_eq_self)
  ultimately show "signed_arg 0 (word_of_int x) = x" by (simp add: signed_arg_def)
  show "unat (word_of_int x :: u64) = nat x"
    using assms by (simp add: unsigned_of_int take_bit_int_eq_self)
qed

lemma zero_padded:
  assumes x: "0 \<le> x" "x < 10 ^ w" and w: "w \<in> {2, 3, 4}"
  shows "printf_loop collect (0x25 # 0x30 # (0x30 + of_nat w) # 0x64 # f) (VInt (word_of_int x) # args) (out, n) =
    printf_loop collect f args (out @ dec_digits w (word_of_int x), n + w)"
proof -
  have "(10 :: int) ^ w \<le> 10000" using w by auto
  then have x4: "x < 10000" using x(2) by linarith
  have "nat x < 10 ^ w" using x by (simp add: nat_less_iff)
  then have dec: "print_dec collect (word_of_int x) (of_nat w) True True (- 1) (out, n) = Some (out @ dec_digits w (word_of_int x), n + w)"
    using w signed_arg_word(2) [OF x(1) x4] by (intro print_dec_zeros) auto
  have spec: "parse_spec (0x30 # (0x30 + of_nat w) # 0x64 # f) (VInt (word_of_int x) # args) =
      Some (no_flags\<lparr>fs_zero := True, fs_width := of_nat w\<rparr>, 0x64 # f, VInt (word_of_int x) # args)"
    using w by (auto simp: parse_spec_def parse_precision_def parse_length_def peek_def no_flags_def)
  show ?thesis
    using dec spec x signed_arg_word(1) [OF x(1) x4]
    by (simp add: convert_def print_signed_def no_flags_def Let_def)
qed

lemma date_ok_fields:
  assumes "date_ok tm"
  shows "0 \<le> tm_mon tm + 1" "tm_mon tm + 1 < 100" "0 \<le> tm_mday tm" "tm_mday tm < 100"
proof -
  have m: "0 \<le> tm_mon tm" "tm_mon tm < 12" "1 \<le> tm_mday tm"
      "tm_mday tm \<le> the (days_per_month (tm_mon tm) (tm_year tm + 1900))"
    using assms by (auto simp: date_ok_def)
  have "nat (tm_mon tm) < 12" using m(2) by simp
  then obtain d where "days_per_month (tm_mon tm) (tm_year tm + 1900) = Some d"
    using days_per_month_Some [of "nat (tm_mon tm)" "tm_year tm + 1900"] m(1) by auto
  then show "0 \<le> tm_mon tm + 1" "tm_mon tm + 1 < 100" "0 \<le> tm_mday tm" "tm_mday tm < 100"
    using m days_per_month_bounds by fastforce+
qed

definition iso_date :: "tm \<Rightarrow> cstring" where
  "iso_date tm = dec_digits 4 (word_of_int (tm_year tm + 1900)) @ [0x2d] @ dec_digits 2 (word_of_int (tm_mon tm + 1)) @ [0x2d]
     @ dec_digits 2 (word_of_int (tm_mday tm))"

section \<open>Properties\<close>

text \<open>C38: \<^verbatim>\<open>strftime\<close> with \<^verbatim>\<open>%F\<close> writes a date of the years 0 to 9999 as four digits, two digits and two digits with dashes between them,
  terminated, into any buffer of at least 11 bytes and returns 10; the date and \<^verbatim>\<open>errno\<close> stay.\<close>

theorem strftime_iso_date:
  assumes "date_ok tm" "0 \<le> tm_year tm + 1900" "tm_year tm + 1900 < 10000" "11 \<le> bsize"
  shows "\<exists>m'. strftime buffer bsize (lit ''%F'') tm e m = Some (10, m', tm, e) \<and> cstr m' buffer (iso_date tm)"
proof -
  let ?s = "iso_date tm"
  note month = date_ok_fields(1,2) [OF assms(1)] and mday = date_ok_fields(3,4) [OF assms(1)]
  have fits: "int_va (tm_year tm + 1900) = Some (VInt (word_of_int (tm_year tm + 1900)))"
      "int_va (tm_mon tm + 1) = Some (VInt (word_of_int (tm_mon tm + 1)))" "int_va (tm_mday tm) = Some (VInt (word_of_int (tm_mday tm)))"
    using assms(2,3) month mday by (simp_all add: int_va_def fits_int_def)
  have conv: "strftime_conv 0x46 tm e = Some (Some (lit ''%04d-%02d-%02d'', [VInt (word_of_int (tm_year tm + 1900)),
      VInt (word_of_int (tm_mon tm + 1)), VInt (word_of_int (tm_mday tm))]), tm, e)"
    using fits by (simp add: strftime_conv_def call_def Let_def)
  have out: "printf_internal collect [] (lit ''%04d-%02d-%02d'') [VInt (word_of_int (tm_year tm + 1900)),
      VInt (word_of_int (tm_mon tm + 1)), VInt (word_of_int (tm_mday tm))] = Some (10, ?s)"
    using zero_padded [of "tm_year tm + 1900" 4] zero_padded [of "tm_mon tm + 1" 2] zero_padded [of "tm_mday tm" 2]
      assms(2,3) month mday
    by (simp add: printf_internal_def lit_def put_def collect_def iso_date_def to_int_def)
  have s: "length ?s = 10" "0 \<notin> set ?s" "?s \<noteq> []" using dec_digits_valid by (auto simp: iso_date_def simp del: dec_digits.simps)
  have room: "length ?s < unat bsize" using assms(4) s(1) by (simp add: word_le_nat_alt)
  note st = stored_cstr [OF s(2,3) room, of buffer m]
  have "strftime buffer bsize (lit ''%F'') tm e m =
      Some (10, (stored buffer (unat bsize) ?s m)(buffer + 10 := 0), tm, e)"
    using conv vsnprintf_stores [OF out, of buffer bsize m] assms(4)
    by (simp add: strftime_def lit_def snprintf_def word_le_nat_alt)
  moreover have "cstr ((stored buffer (unat bsize) ?s m)(buffer + 10 := 0)) buffer ?s"
    using st s(1) by (auto simp: cstr_def)
  ultimately show ?thesis by blast
qed

definition leap_day :: tm where
  "leap_day = \<lparr>tm_sec = 0, tm_min = 0, tm_hour = 0, tm_mday = 29, tm_mon = 1, tm_year = 100, tm_wday = 2, tm_yday = 59, tm_isdst = 0\<rparr>"

theorem strftime_iso_date_witness:
  "\<exists>m'. strftime 4 16 (lit ''%F'') leap_day 0 (\<lambda>_. 1) = Some (10, m', leap_day, 0) \<and> cstr m' 4 (lit ''2000-02-29'')"
proof -
  have ok: "date_ok leap_day"
    by (simp add: date_ok_def clock_ok_def leap_day_def days_per_month_def is_leap_year_def fits_int_def)
  have widths: "dec_digits 4 v = dec_digits (Suc (Suc (Suc (Suc 0)))) v" "dec_digits 2 v = dec_digits (Suc (Suc 0)) v" for v
    by (simp_all add: eval_nat_numeral)
  have "iso_date leap_day = lit ''2000-02-29''"
    by (simp add: iso_date_def leap_day_def lit_def digit_char_def widths)
  then show ?thesis
    using strftime_iso_date [OF ok, of 16 4 0 "\<lambda>_. 1"] by (simp add: leap_day_def)
qed

end
