(* ===== verification/Spec2Isabelle.thy ===== *)
theory Spec2Isabelle
  imports Ringbuf Cstring Fork Strftime
begin

text \<open>
  \<^bold>\<open>The piggy-os kernel: a verification development.\<close>

  piggy-os is a hobby operating system for x86-64: a kernel (\<^verbatim>\<open>kernel/\<close>), a C library (\<^verbatim>\<open>libc/\<close>, \<^verbatim>\<open>libm/\<close>)
  and a few user programs (\<^verbatim>\<open>userspace/\<close>). This development models the kernel's own logic from the bottom up,
  as executable functions over explicit states, and proves what makes each part correct. Where the code
  does something other than it means to, the model does what the code does and the theorem says so.

  \<^bold>\<open>Parts of the program, and the theories that model them.\<close>

  \<^item> Foundations. \<open>Prelude\<close>: the macros of \<^verbatim>\<open>utils/macros.h\<close>, page sizes, error numbers. \<open>Spinlock\<close>:
    \<^verbatim>\<open>utils/spinlock.c\<close>, both as a function of what other CPUs do to the word and as a step relation of
    several CPUs. \<open>Kstring\<close>: \<^verbatim>\<open>utils/string.c\<close>. \<open>Vector\<close>, \<open>Hashmap\<close>, \<open>Ringbuf\<close>, \<open>Rng\<close>: \<^verbatim>\<open>utils/vector.c\<close>,
    \<^verbatim>\<open>utils/hashmap.c\<close>, \<^verbatim>\<open>utils/ringbuf.c\<close>, \<^verbatim>\<open>utils/random.c\<close>.
  \<^item> Memory. \<open>Pmm\<close> is the bitmap allocator of physical pages (\<^verbatim>\<open>mem/pmm.c\<close>); \<open>Vmm\<close> the page tables and
    \<open>Pagemap\<close> whole address spaces (\<^verbatim>\<open>mem/vmm.c\<close>), which take their tables from \<open>Pmm\<close>; \<open>Slab\<close> the object
    allocator (\<^verbatim>\<open>mem/slab.c\<close>), which takes its slabs from \<open>Pmm\<close>. Their states are records that extend one
    another: \<open>pmm\<close>, then \<open>vm\<close>, then \<open>kheap\<close>.
  \<^item> Files. \<open>Vfs\<close> is the virtual file system with tmpfs and devfs (\<^verbatim>\<open>fs/vfs.c\<close>, \<^verbatim>\<open>fs/tmpfs.c\<close>, \<^verbatim>\<open>fs/devfs.c\<close>);
    the children of a directory are a \<open>Hashmap\<close>. \<open>Fd\<close> adds processes and file descriptors (\<^verbatim>\<open>fs/fd.c\<close>,
    \<^verbatim>\<open>utils/user_access.c\<close>), \<open>Pseudo\<close> the devices null, zero, random and full (\<^verbatim>\<open>dev/char/pseudo.c\<close>), \<open>ScFile\<close>
    the file system calls (\<^verbatim>\<open>sys/syscalls/sc_file.c\<close>) with their dispatch.
  \<^item> Processes. \<open>Threads\<close> and \<open>Sched\<close> are the scheduler (\<^verbatim>\<open>sys/sched.c\<close>), \<open>Process\<close> creates, forks, waits for
    and destroys processes and threads (\<^verbatim>\<open>sys/process.c\<close>), \<open>Ustack\<close> builds the first stack of a program,
    \<open>Elf\<close> loads a program from a file (\<^verbatim>\<open>sys/elf.c\<close>). Their state \<open>ksys\<close> joins the file layer's and the memory
    manager's: a process holds its page map and its descriptors.
  \<^item> The C library. \<open>Cstring\<close>: \<^verbatim>\<open>libc/src/string\<close>.

  \<^bold>\<open>How state and operations correspond.\<close> A C structure is a record with the same fields; a file-level variable
  is a field of the component's state. A pointer to a structure is an address or a number into a store of
  such structures, with 0 for \<^verbatim>\<open>NULL\<close>. Every C function that is modelled is one definition of the same name;
  its loops are recursive functions next to it. Integers keep their width (\<open>64 word\<close>, \<open>8 word\<close>) where the
  code could wrap, and are \<open>int\<close> or \<open>nat\<close> where the text of the theory says why they cannot. Error returns
  are the negative error numbers of the code.

  \<^bold>\<open>The value None.\<close> A function whose C counterpart can panic, fault, spin on a lock that nobody releases or
  loop for ever returns an option, and \<open>None\<close> is that outcome. A theorem that an operation succeeds therefore
  states that the result is \<open>Some\<close>. Walks along linked lists carry a bound (the number of objects allocated so
  far), past which the list is cyclic and the walk does not return.

  \<^bold>\<open>Parameters.\<close> What is outside the kernel's C code is an argument: the values other CPUs leave in a lock word
  (\<open>others\<close>), the clock (\<open>now\<close>), the words of the hardware random generator, the user memory behind a page map (\<open>um\<close>),
  the functions of device nodes (\<open>dv\<close>), the contents of uninitialised buffers (\<open>junk\<close>). The budget \<open>mem_left\<close> says how many more objects
  \<^verbatim>\<open>kmalloc\<close> and \<^verbatim>\<open>cache_alloc_object\<close> can hand out to the file and process layers, so that every out-of-memory
  branch of these layers is reachable; the allocator itself is \<open>Slab\<close>.

  \<^bold>\<open>Interfaces.\<close> The locales are the contracts between layers, each interpreted on the model:
  \<open>bounded_fifo\<close> (ring buffers), \<open>frame_source\<close> (the page allocator as the pager needs it), \<open>page_map\<close>
  (mapping and looking up pages), \<open>object_pool\<close> (a cache of the object allocator), \<open>string_map\<close> (hash maps) and
  \<open>file_devices\<close> (devices below the file system calls).

  \<^bold>\<open>What the lemmas show.\<close>

  \<^item> Locks: mutual exclusion in all interleavings, and when acquiring returns.
  \<^item> Ring buffers refine bounded lists; \<^verbatim>\<open>memmove\<close> moves, \<^verbatim>\<open>strcmp\<close> compares, \<^verbatim>\<open>strtok_r\<close> cuts tokens; hash
    maps return what was stored, up to keys that begin one another.
  \<^item> Pages: \<^verbatim>\<open>pmm_alloc\<close> is a next-fit search, allocations are distinct, freeing undoes allocating, and what is free
    after start-up. Mapping, unmapping and changing flags affect exactly one page; a new address space shares
    the kernel half and has an empty user half.
  \<^item> Objects: the object allocator's lists, counters and bitmaps stay consistent, objects in use are
    disjoint, and giving them back in any order restores the set of objects in use.
  \<^item> Files: path lookup is component-wise lookup, created names are found, tmpfs refines byte lists, write
    and read through the system calls round-trip, every sequence of calls keeps the descriptor tables well
    formed, bad descriptors give \<^verbatim>\<open>EBADF\<close>.
  \<^item> Processes: a ready thread is scheduled within a bounded number of ticks; the first stack and the segments
    of a program have the layout the program expects; \<^verbatim>\<open>sbrk\<close> backs new memory with fresh frames; waiting for a
    child returns its status.

  \<^bold>\<open>Bounds and fuel.\<close> \<open>spinlock_acquire\<close> gives up after the 100000000 attempts of the source. The bound of a list
  walk is the next unused number of the store: a list without repetition is shorter. Loops with a
  counter recurse on it, and the loops of \<^verbatim>\<open>tmpfs\<close> that double a capacity have a termination proof.

  \<^bold>\<open>Not modelled.\<close> Drivers and start-up code whose effect is on device registers (ATA, PCI, APIC, HPET, PIT,
  PS/2, serial port, frame buffer, ACPI tables, GDT, IDT, SMP start-up) would need a model of the hardware that
  is not in the repository. Logging only prints. The user programs are clients of the system calls.
  The functions that only free memory (\<^verbatim>\<open>ringbuf_destroy\<close>, \<^verbatim>\<open>vector_destroy\<close>,
  \<^verbatim>\<open>hashmap_destroy\<close>) have no result to state. Saving the FPU, the kernel's page fault handler and the SMAP flag are
  not part of the state.
\<close>

end
